(* ===== verification/Prelude.thy ===== *)
theory Prelude
  imports Main "HOL-Library.Finite_Map" "HOL-Library.Word" "HOL-Library.Multiset"
    "HOL-Library.List_Lexorder" "HOL-Library.Char_ord"
begin

text \<open>
  Shared vocabulary of the development: the fixed-width types of the chain, Go panics as values
  of a sum type with their sequencing, Go maps as finite maps with an enumeration of their keys,
  buffered Go channels, and the generic lemmas on lists, folds and finite maps that the component
  theories use.
\<close>

section \<open>Fixed-width types\<close>

text \<open>
  \<open>common.Hash\<close> is an array of 32 bytes and \<open>common.Address\<close> one of 20 bytes; both are read
  big-endian as a word of that width. A Go \<open>string\<close> is a byte string, compared bytewise.
\<close>

type_synonym hash = "256 word"
type_synonym address = "160 word"
type_synonym byte = "8 word"

text \<open>An \<open>error\<close> is its message.\<close>

type_synonym go_error = string

section \<open>Panics\<close>

text \<open>
  A run-time panic (a nil dereference, an index out of range) or an explicit \<open>panic(msg)\<close> ends
  the goroutine and, uncaught as everywhere in this program, the process. A computation that can
  panic has a value of type \<open>go_panic + 'a\<close>.
\<close>

datatype go_panic = NilDereference | IndexOutOfRange | PanicMsg string

definition pbind :: "'e + 'a \<Rightarrow> ('a \<Rightarrow> 'e + 'b) \<Rightarrow> 'e + 'b" where
  "pbind r f = (case r of Inl e \<Rightarrow> Inl e | Inr x \<Rightarrow> f x)"

lemma pbind_simps [simp]:
  "pbind (Inl e) f = Inl e"
  "pbind (Inr x) f = f x"
  by (simp_all add: pbind_def)

lemma pbind_eq_Inr: "pbind r f = Inr y \<longleftrightarrow> (\<exists>x. r = Inr x \<and> f x = Inr y)"
  by (cases r) simp_all

lemma pbind_assoc: "pbind (pbind r f) g = pbind r (\<lambda>x. pbind (f x) g)"
  by (cases r) simp_all

text \<open>A \<open>for\<close> loop over a slice whose body may panic.\<close>

fun pfold :: "('a \<Rightarrow> 's \<Rightarrow> 'e + 's) \<Rightarrow> 'a list \<Rightarrow> 's \<Rightarrow> 'e + 's" where
  "pfold f [] s = Inr s"
| "pfold f (x # xs) s = pbind (f x s) (pfold f xs)"

lemma pfold_append: "pfold f (xs @ ys) s = pbind (pfold f xs s) (pfold f ys)"
  by (induction xs arbitrary: s) (simp_all add: pbind_def split: sum.splits)

text \<open>A loop whose body keeps an invariant and does not panic under it runs to its end.\<close>

lemma pfold_invariant:
  assumes "\<And>x s. x \<in> set xs \<Longrightarrow> I s \<Longrightarrow> \<exists>s'. f x s = Inr s' \<and> I s'" and "I s"
  shows "\<exists>s'. pfold f xs s = Inr s' \<and> I s'"
  using assms
proof (induction xs arbitrary: s)
  case Nil
  then show ?case by simp
next
  case (Cons x xs)
  then obtain t where t: "f x s = Inr t" "I t" by force
  have "\<exists>s'. pfold f xs t = Inr s' \<and> I s'"
    using Cons.prems(1) t(2) by (intro Cons.IH) auto
  with t(1) show ?case by simp
qed

text \<open>A loop whose body never panics is a plain fold.\<close>

lemma pfold_Inr: "(\<And>x s. x \<in> set xs \<Longrightarrow> f x s = Inr (g x s)) \<Longrightarrow> pfold f xs s = Inr (fold g xs s)"
  by (induction xs arbitrary: s) simp_all

section \<open>Go maps\<close>

text \<open>
  A Go map is a finite map. A \<open>range\<close> over it visits the keys in an unspecified order: the model
  visits them in ascending order (\<open>fmkeys\<close>), and for every such loop of the program whose effect
  could depend on the order a lemma shows that any other enumeration gives the same result.
\<close>

definition fmkeys :: "('k::linorder, 'v) fmap \<Rightarrow> 'k list" where
  "fmkeys m = sorted_list_of_fset (fmdom m)"

lemma fmkeys_alt: "fmkeys m = sorted_list_of_set (fset (fmdom m))"
  by (simp add: fmkeys_def sorted_list_of_fset.rep_eq)

lemma fmkeys_code [code]: "fmkeys (fmap_of_list xs) = sort (remdups (map fst xs))"
  by (simp add: fmkeys_alt fmdom_of_list fset_of_list.rep_eq sorted_list_of_set_sort_remdups
      flip: set_map)

lemma set_fmkeys [simp]: "set (fmkeys m) = fset (fmdom m)"
  by (simp add: fmkeys_def)

lemma fmkeys_sorted [simp]: "sorted (fmkeys m)"
  by (simp add: fmkeys_alt)

lemma fmkeys_distinct [simp]: "distinct (fmkeys m)"
  by (simp add: fmkeys_alt)

lemma fmkeys_empty [simp]: "fmkeys fmempty = []"
  by (simp add: fmkeys_alt)

lemma in_fmdom_iff: "k \<in> fset (fmdom m) \<longleftrightarrow> (\<exists>v. fmlookup m k = Some v)"
  by (simp add: fmlookup_dom_iff)

lemma fmkeys_unique:
  assumes "sorted ks" "distinct ks" "set ks = fset (fmdom m)"
  shows "ks = fmkeys m"
  using assms by (simp add: fmkeys_alt sorted_distinct_set_unique)

lemma sort_enumeration:
  assumes "distinct ks" "set ks = fset (fmdom m)"
  shows "sort ks = fmkeys m"
  using assms by (intro fmkeys_unique) simp_all

lemma mset_enumeration:
  assumes "distinct ks" "set ks = fset (fmdom m)"
  shows "mset ks = mset (fmkeys m)"
  using assms by (simp add: set_eq_iff_mset_eq_distinct [symmetric])

section \<open>Buffered channels\<close>

text \<open>
  A buffered channel: its capacity, the values sent and not yet received (oldest first) and
  whether it is closed. A send that finds no room in a \<open>select\<close> with a \<open>default\<close> takes the
  default; a receive from a closed channel drains the buffer and then reports \<open>ok = false\<close>.
\<close>

record 'a chan =
  ch_cap :: nat
  ch_buf :: "'a list"
  ch_closed :: bool

definition make_chan :: "nat \<Rightarrow> 'a chan" where
  "make_chan n = \<lparr>ch_cap = n, ch_buf = [], ch_closed = False\<rparr>"

definition try_send :: "'a chan \<Rightarrow> 'a \<Rightarrow> 'a chan option" where
  "try_send c x =
     (if length (ch_buf c) < ch_cap c then Some (c\<lparr>ch_buf := ch_buf c @ [x]\<rparr>) else None)"

definition close_chan :: "'a chan \<Rightarrow> 'a chan" where
  "close_chan c = c\<lparr>ch_closed := True\<rparr>"

definition recv_closed :: "'a chan \<Rightarrow> 'a option \<times> 'a chan" where
  "recv_closed c =
     (case ch_buf c of [] \<Rightarrow> (None, c) | x # xs \<Rightarrow> (Some x, c\<lparr>ch_buf := xs\<rparr>))"

section \<open>Lists keyed by a field\<close>

lemma descending_distinct: "sorted_wrt (\<lambda>a b. f b < (f a :: 'b::linorder)) xs \<Longrightarrow> distinct (map f xs)"
  by (induction xs) auto

lemma map_of_keyed:
  "distinct (map f xs) \<Longrightarrow> map_of (map (\<lambda>v. (f v, v)) xs) i = Some v \<longleftrightarrow> v \<in> set xs \<and> f v = i"
  by (induction xs) (auto simp: image_iff)

lemma map_eqI_Some: "(\<And>i v. m i = Some v \<longleftrightarrow> m' i = Some v) \<Longrightarrow> m = m'"
  by (rule ext) (metis not_None_eq)

lemma find_filter: "find P (filter Q xs) = find (\<lambda>x. Q x \<and> P x) xs"
  by (induction xs) auto

lemma find_greatest:
  assumes "sorted_wrt (\<lambda>a b. f b < (f a :: 'b::linorder)) xs" "find P xs = Some x"
  shows "x \<in> set xs \<and> P x \<and> (\<forall>y\<in>set xs. f x < f y \<longrightarrow> \<not> P y)"
  using assms by (induction xs) (auto split: if_splits)

section \<open>Wrap-around\<close>

lemma mod_once: "(n :: nat) \<le> x \<Longrightarrow> x < n + n \<Longrightarrow> x mod n = x - n"
  by (simp add: le_mod_geq)

end
