(* ===== verification/Packages.thy ===== *)
theory Packages
  imports Prelude
begin

text \<open>
  The packages the program calls and does not contain: \<open>github.com/google/btree\<close> and the Kaia
  client (\<open>common\<close>, \<open>blockchain/state\<close>, \<open>blockchain/types\<close>, \<open>uint256\<close>). Each is a record of
  the operations the program uses, and every definition that calls one takes the record as an
  argument. What the program relies on of them is stated as a locale per package, from their
  documentation; no definition of their code is given here.
\<close>

section \<open>The ordered tree of \<open>google/btree\<close>\<close>

text \<open>
  A tree holds items of a type with a strict weak order \<open>Less\<close> given by the item type. The
  iteration methods hand the items one by one to an iterator until it answers false; \<open>bt_Descend\<close>
  is the list of the items in the order they are offered, and \<open>bt_iterate\<close> runs an iterator
  (a closure over a state) along such a list.
\<close>

record ('i, 't) btree =
  bt_New :: "int \<Rightarrow> 't"
  bt_ReplaceOrInsert :: "'t \<Rightarrow> 'i \<Rightarrow> 't"
  bt_Delete :: "'t \<Rightarrow> 'i \<Rightarrow> 't"
  bt_Max :: "'t \<Rightarrow> 'i option"
  bt_Descend :: "'t \<Rightarrow> 'i list"
  bt_DescendLessOrEqual :: "'t \<Rightarrow> 'i \<Rightarrow> 'i list"

fun bt_iterate :: "('i \<Rightarrow> 'a \<Rightarrow> bool \<times> 'a) \<Rightarrow> 'i list \<Rightarrow> 'a \<Rightarrow> 'a" where
  "bt_iterate f [] a = a"
| "bt_iterate f (x # xs) a = (case f x a of (continue, a') \<Rightarrow> if continue then bt_iterate f xs a' else a')"

text \<open>
  The documented behaviour: two items neither of which is less than the other are the same item;
  \<open>ReplaceOrInsert\<close> puts the new item in the place of the same item; \<open>Delete\<close> removes the same
  item; \<open>Max\<close> is the largest item or nil; \<open>Descend\<close> visits all items from the largest down and
  \<open>DescendLessOrEqual\<close> those from the pivot down.
\<close>

locale btree_spec =
  fixes B :: "('i, 't) btree" and less :: "'i \<Rightarrow> 'i \<Rightarrow> bool"
  assumes Descend_New: "bt_Descend B (bt_New B n) = []"
    and Descend_sorted: "sorted_wrt (\<lambda>a b. less b a) (bt_Descend B t)"
    and Descend_ReplaceOrInsert: "set (bt_Descend B (bt_ReplaceOrInsert B t x)) =
      insert x {y \<in> set (bt_Descend B t). less x y \<or> less y x}"
    and Descend_Delete: "set (bt_Descend B (bt_Delete B t x)) =
      {y \<in> set (bt_Descend B t). less x y \<or> less y x}"
    and Max_Descend: "bt_Max B t = (case bt_Descend B t of [] \<Rightarrow> None | x # _ \<Rightarrow> Some x)"
    and DescendLessOrEqual_Descend:
      "bt_DescendLessOrEqual B t p = filter (\<lambda>y. \<not> less p y) (bt_Descend B t)"

section \<open>The Kaia client\<close>

text \<open>
  \<open>kaia\<close> bundles what the program calls of \<open>common\<close> (conversions between byte strings, hexadecimal
  strings, integers, hashes and addresses), of \<open>uint256\<close> (the byte views of a stack word), of
  \<open>blockchain/state.StateDB\<close> and of \<open>blockchain.Message\<close> and \<open>blockchain/types\<close>. \<open>'s\<close> is a
  state database, \<open>'tx\<close> a transaction, which is also the message a tracer is given. Balances are
  \<open>*big.Int\<close>, unbounded integers; nonces and gas are \<open>uint64\<close>; a fee ratio is a \<open>uint8\<close>.
\<close>

record ('s, 'tx) kaia =
  cm_BytesToHash :: "byte list \<Rightarrow> hash"
  cm_BigToHash :: "int \<Rightarrow> hash"
  cm_HexToHash :: "string \<Rightarrow> hash"
  cm_HexToAddress :: "string \<Rightarrow> address"
  cm_Address_String :: "address \<Rightarrow> string"
  cm_Hash_String :: "hash \<Rightarrow> string"
  cm_RightPadBytes :: "byte list \<Rightarrow> int \<Rightarrow> byte list"
  u256_Bytes :: "256 word \<Rightarrow> byte list"
  u256_Bytes20 :: "256 word \<Rightarrow> address"
  u256_Bytes32 :: "256 word \<Rightarrow> hash"
  sdb_GetState :: "'s \<Rightarrow> address \<Rightarrow> hash \<Rightarrow> hash"
  sdb_SetState :: "'s \<Rightarrow> address \<Rightarrow> hash \<Rightarrow> hash \<Rightarrow> 's"
  sdb_GetBalance :: "'s \<Rightarrow> address \<Rightarrow> int"
  sdb_SetBalance :: "'s \<Rightarrow> address \<Rightarrow> int \<Rightarrow> 's"
  sdb_GetNonce :: "'s \<Rightarrow> address \<Rightarrow> 64 word"
  sdb_SetNonce :: "'s \<Rightarrow> address \<Rightarrow> 64 word \<Rightarrow> 's"
  sdb_GetCodeHash :: "'s \<Rightarrow> address \<Rightarrow> hash"
  sdb_GetCodeSize :: "'s \<Rightarrow> address \<Rightarrow> int"
  sdb_Finalise :: "'s \<Rightarrow> bool \<Rightarrow> bool \<Rightarrow> 's"
  sdb_Copy :: "'s \<Rightarrow> 's"
  sdb_Snapshot :: "'s \<Rightarrow> 's \<times> int"
  sdb_RevertToSnapshot :: "'s \<Rightarrow> int \<Rightarrow> 's"
  sdb_SetTxContext :: "'s \<Rightarrow> hash \<Rightarrow> hash \<Rightarrow> int \<Rightarrow> 's"
  msg_ValidatedFeePayer :: "'tx \<Rightarrow> address"
  msg_ValidatedSender :: "'tx \<Rightarrow> address"
  msg_FeeRatio :: "'tx \<Rightarrow> 8 word \<times> bool"
  msg_Gas :: "'tx \<Rightarrow> 64 word"
  ty_CalcFeeWithRatio :: "8 word \<Rightarrow> int \<Rightarrow> int \<times> int"

text \<open>
  The big-endian value of a byte string, as \<open>(*big.Int).SetBytes\<close> of the standard library reads
  it, and the bytes of a string literal (\<open>[]byte("...")\<close>).
\<close>

definition big_SetBytes :: "byte list \<Rightarrow> int" where
  "big_SetBytes bs = fold (\<lambda>b n. 256 * n + uint b) bs 0"

definition bytes_of_string :: "string \<Rightarrow> byte list" where
  "bytes_of_string s = map of_char s"

text \<open>
  The conversions of \<open>common\<close>: a conversion to a hash keeps the rightmost 32 bytes
  (``if b is larger than len(h), b will be cropped from the left''); \<open>BigToHash\<close> converts the
  bytes of the integer, which are those of its absolute value; printing an address or a hash and
  reading the text back is the identity, and the text, hexadecimal digits after \<open>0x\<close>, has no
  colon in it.
\<close>

locale common_spec =
  fixes K :: "('s, 'tx) kaia"
  assumes BytesToHash_spec: "cm_BytesToHash K bs = word_of_int (big_SetBytes bs)"
    and BigToHash_spec: "cm_BigToHash K n = word_of_int \<bar>n\<bar>"
    and HexToAddress_String: "cm_HexToAddress K (cm_Address_String K a) = a"
    and HexToHash_String: "cm_HexToHash K (cm_Hash_String K h) = h"
    and Address_String_no_colon: "CHR '':'' \<notin> set (cm_Address_String K a)"
    and Hash_String_no_colon: "CHR '':'' \<notin> set (cm_Hash_String K h)"

text \<open>
  The state database: what a setter stores the getter of the same kind returns, and a setter
  changes nothing the getters of storage, balance and nonce return elsewhere.
\<close>

locale statedb_spec =
  fixes K :: "('s, 'tx) kaia"
  assumes GetState_SetState: "sdb_GetState K (sdb_SetState K st a l v) b k =
      (if a = b \<and> l = k then v else sdb_GetState K st b k)"
    and GetState_SetBalance [simp]: "sdb_GetState K (sdb_SetBalance K st a n) b k = sdb_GetState K st b k"
    and GetState_SetNonce [simp]: "sdb_GetState K (sdb_SetNonce K st a w) b k = sdb_GetState K st b k"
    and GetBalance_SetBalance: "0 \<le> n \<Longrightarrow> sdb_GetBalance K (sdb_SetBalance K st a n) b =
      (if a = b then n else sdb_GetBalance K st b)"
    and GetBalance_SetState [simp]: "sdb_GetBalance K (sdb_SetState K st a l v) b = sdb_GetBalance K st b"
    and GetBalance_SetNonce [simp]: "sdb_GetBalance K (sdb_SetNonce K st a w) b = sdb_GetBalance K st b"
    and GetNonce_SetNonce: "sdb_GetNonce K (sdb_SetNonce K st a w) b =
      (if a = b then w else sdb_GetNonce K st b)"
    and GetNonce_SetState [simp]: "sdb_GetNonce K (sdb_SetState K st a l v) b = sdb_GetNonce K st b"
    and GetNonce_SetBalance [simp]: "sdb_GetNonce K (sdb_SetBalance K st a n) b = sdb_GetNonce K st b"

locale kaia_spec = common_spec K + statedb_spec K for K :: "('s, 'tx) kaia"

section \<open>Iterators\<close>

text \<open>An iterator that keeps the first item satisfying a test and stops is a search.\<close>

lemma bt_iterate_find:
  assumes "\<And>x a. P x \<Longrightarrow> f x a = (False, g x)" and "\<And>x a. \<not> P x \<Longrightarrow> f x a = (True, a)"
  shows "bt_iterate f xs a = (case find P xs of None \<Rightarrow> a | Some x \<Rightarrow> g x)"
proof (induction xs)
  case Nil
  then show ?case by simp
next
  case (Cons x xs)
  then show ?case using assms by (cases "P x") simp_all
qed

end
