(* ===== verification/Data_Structure.thy ===== *)
theory Data_Structure
  imports Packages
begin

text \<open>
  The versions written to one storage key, \<open>multiversion/data_structure.go\<close>: the value item, the
  multi-version item over the ordered tree, and the Go interface \<open>MultiVersionValue\<close> as a locale
  whose abstract state is the map from a transaction index to the version it wrote.
\<close>

section \<open>Value items\<close>

record valueItem =
  vi_index :: int
  vi_incarnation :: int
  vi_value :: hash
  vi_estimate :: bool

definition NewValueItem :: "int \<Rightarrow> int \<Rightarrow> hash \<Rightarrow> valueItem" where
  "NewValueItem index incarnation value =
     \<lparr>vi_index = index, vi_incarnation = incarnation, vi_value = value, vi_estimate = False\<rparr>"

definition NewEstimateItem :: "int \<Rightarrow> int \<Rightarrow> valueItem" where
  "NewEstimateItem index incarnation =
     \<lparr>vi_index = index, vi_incarnation = incarnation, vi_value = 0, vi_estimate = True\<rparr>"

definition NewDeletedItem :: "int \<Rightarrow> int \<Rightarrow> valueItem" where
  "NewDeletedItem index incarnation =
     \<lparr>vi_index = index, vi_incarnation = incarnation, vi_value = 0, vi_estimate = False\<rparr>"

definition valueItem_Index :: "valueItem \<Rightarrow> int" where
  "valueItem_Index v = vi_index v"

definition valueItem_Incarnation :: "valueItem \<Rightarrow> int" where
  "valueItem_Incarnation v = vi_incarnation v"

definition valueItem_IsEstimate :: "valueItem \<Rightarrow> bool" where
  "valueItem_IsEstimate v = vi_estimate v"

definition valueItem_IsDeleted :: "valueItem \<Rightarrow> bool" where
  "valueItem_IsDeleted v \<longleftrightarrow> vi_value v = 0 \<and> \<not> vi_estimate v"

text \<open>\<open>Value\<close> is the one method that accepts a nil receiver.\<close>

definition valueItem_Value :: "valueItem option \<Rightarrow> hash" where
  "valueItem_Value v = (case v of None \<Rightarrow> 0 | Some v \<Rightarrow> vi_value v)"

definition valueItem_Less :: "valueItem \<Rightarrow> valueItem \<Rightarrow> bool" where
  "valueItem_Less i other \<longleftrightarrow> vi_index i < vi_index other"

text \<open>The pivot of a search by index: an item of which only the index is set.\<close>

definition pivotItem :: "int \<Rightarrow> valueItem" where
  "pivotItem index = \<lparr>vi_index = index, vi_incarnation = 0, vi_value = 0, vi_estimate = False\<rparr>"

lemmas valueItem_defs = NewValueItem_def NewEstimateItem_def NewDeletedItem_def pivotItem_def
  valueItem_Index_def valueItem_Incarnation_def valueItem_IsEstimate_def valueItem_IsDeleted_def
  valueItem_Value_def valueItem_Less_def

lemma valueItem_index_simps [simp]:
  "vi_index (NewValueItem i inc v) = i"
  "vi_index (NewEstimateItem i inc) = i"
  "vi_index (NewDeletedItem i inc) = i"
  "vi_index (pivotItem i) = i"
  by (simp_all add: valueItem_defs)

section \<open>The multi-version item\<close>

text \<open>
  \<open>multiVersionItem\<close> holds a tree and the lock that makes each of its methods atomic; the model
  of a method is the atomic state change.
\<close>

record 't multiVersionItem =
  valueTree :: 't

definition multiVersionBTreeDegree :: int where
  "multiVersionBTreeDegree = 2"

type_synonym 't vtree = "(valueItem, 't) btree"

definition NewMultiVersionItem :: "'t vtree \<Rightarrow> 't multiVersionItem" where
  "NewMultiVersionItem B = \<lparr>valueTree = bt_New B multiVersionBTreeDegree\<rparr>"

definition item_GetLatest :: "'t vtree \<Rightarrow> 't multiVersionItem \<Rightarrow> valueItem option" where
  "item_GetLatest B item = bt_Max B (valueTree item)"

definition item_GetLatestNonEstimate :: "'t vtree \<Rightarrow> 't multiVersionItem \<Rightarrow> valueItem option" where
  "item_GetLatestNonEstimate B item =
     bt_iterate (\<lambda>it vItem. if valueItem_IsEstimate it then (True, vItem) else (False, Some it))
       (bt_Descend B (valueTree item)) None"

definition item_GetLatestBeforeIndex ::
  "'t vtree \<Rightarrow> 't multiVersionItem \<Rightarrow> int \<Rightarrow> valueItem option" where
  "item_GetLatestBeforeIndex B item index =
     (let pivot = pivotItem (index - 1) in
      bt_iterate (\<lambda>it vItem. (False, Some it)) (bt_DescendLessOrEqual B (valueTree item) pivot) None)"

definition item_Set :: "'t vtree \<Rightarrow> 't multiVersionItem \<Rightarrow> int \<Rightarrow> int \<Rightarrow> hash \<Rightarrow> 't multiVersionItem" where
  "item_Set B item index incarnation value =
     (if value = 0 then item
      else item\<lparr>valueTree := bt_ReplaceOrInsert B (valueTree item)
                  (NewValueItem index incarnation value)\<rparr>)"

definition item_Delete :: "'t vtree \<Rightarrow> 't multiVersionItem \<Rightarrow> int \<Rightarrow> int \<Rightarrow> 't multiVersionItem" where
  "item_Delete B item index incarnation =
     item\<lparr>valueTree := bt_ReplaceOrInsert B (valueTree item) (NewDeletedItem index incarnation)\<rparr>"

definition item_Remove :: "'t vtree \<Rightarrow> 't multiVersionItem \<Rightarrow> int \<Rightarrow> 't multiVersionItem" where
  "item_Remove B item index =
     item\<lparr>valueTree := bt_Delete B (valueTree item) (pivotItem index)\<rparr>"

definition item_SetEstimate :: "'t vtree \<Rightarrow> 't multiVersionItem \<Rightarrow> int \<Rightarrow> int \<Rightarrow> 't multiVersionItem" where
  "item_SetEstimate B item index incarnation =
     item\<lparr>valueTree := bt_ReplaceOrInsert B (valueTree item) (NewEstimateItem index incarnation)\<rparr>"

section \<open>The abstract versions of a key\<close>

text \<open>
  The specification side: a key's versions are a finite map from the index of a transaction to the
  item it wrote. \<open>greatest_below\<close> is the entry of the largest index below a bound that satisfies a
  test, the reference for the three lookups.
\<close>

type_synonym versions = "int \<rightharpoonup> valueItem"

definition is_greatest :: "(valueItem \<Rightarrow> bool) \<Rightarrow> versions \<Rightarrow> valueItem option \<Rightarrow> bool" where
  "is_greatest P m r \<longleftrightarrow>
     (case r of
        None \<Rightarrow> \<forall>i v. m i = Some v \<longrightarrow> \<not> P v
      | Some v \<Rightarrow> m (vi_index v) = Some v \<and> P v \<and>
          (\<forall>j w. m j = Some w \<longrightarrow> vi_index v < j \<longrightarrow> \<not> P w))"

definition well_indexed :: "versions \<Rightarrow> bool" where
  "well_indexed m \<longleftrightarrow> (\<forall>i v. m i = Some v \<longrightarrow> vi_index v = i)"

lemma is_greatest_unique:
  assumes r: "is_greatest P m r" and r': "is_greatest P m r'" and m: "well_indexed m"
  shows "r = r'"
proof (cases r)
  case None
  with r r' show ?thesis by (cases r') (auto simp: is_greatest_def)
next
  case (Some v)
  with r r' obtain w where w: "r' = Some w" by (cases r') (auto simp: is_greatest_def)
  have "\<not> vi_index v < vi_index w" and "\<not> vi_index w < vi_index v"
    using r r' Some w by (auto simp: is_greatest_def)
  then have "vi_index v = vi_index w" by simp
  with r r' Some w show ?thesis by (simp add: is_greatest_def)
qed

lemma is_greatest_below_cong:
  assumes m: "well_indexed m" and m': "well_indexed m'" and eq: "\<And>i. i < j \<Longrightarrow> m i = m' i"
    and r: "is_greatest (\<lambda>v. vi_index v < j) m r"
  shows "is_greatest (\<lambda>v. vi_index v < j) m' r"
proof (cases r)
  case None
  with r have none: "\<And>i v. m i = Some v \<Longrightarrow> \<not> vi_index v < j" by (simp add: is_greatest_def)
  have "\<not> vi_index v < j" if "m' i = Some v" for i v
  proof
    assume "vi_index v < j"
    moreover from this that m' have "i < j" by (auto simp: well_indexed_def)
    ultimately show False using none [of i v] eq that by simp
  qed
  with None show ?thesis by (simp add: is_greatest_def)
next
  case (Some v)
  with r have v: "m (vi_index v) = Some v" "vi_index v < j"
    and above: "\<And>i w. m i = Some w \<Longrightarrow> vi_index v < i \<Longrightarrow> \<not> vi_index w < j"
    by (auto simp: is_greatest_def)
  have "\<not> vi_index w < j" if "m' i = Some w" "vi_index v < i" for i w
  proof
    assume "vi_index w < j"
    moreover from this that m' have "i < j" by (auto simp: well_indexed_def)
    ultimately show False using above [of i w] eq that by simp
  qed
  with Some v eq show ?thesis by (simp add: is_greatest_def)
qed

text \<open>
  The Go interface \<open>MultiVersionValue\<close>: every writer changes the entry of one index, and the
  lookups return the greatest entry they may see.
\<close>

locale multi_version_value =
  fixes getLatest :: "'i \<Rightarrow> valueItem option"
    and getLatestNonEstimate :: "'i \<Rightarrow> valueItem option"
    and getLatestBeforeIndex :: "'i \<Rightarrow> int \<Rightarrow> valueItem option"
    and setValue :: "'i \<Rightarrow> int \<Rightarrow> int \<Rightarrow> hash \<Rightarrow> 'i"
    and setEstimate :: "'i \<Rightarrow> int \<Rightarrow> int \<Rightarrow> 'i"
    and deleteValue :: "'i \<Rightarrow> int \<Rightarrow> int \<Rightarrow> 'i"
    and remove :: "'i \<Rightarrow> int \<Rightarrow> 'i"
    and newItem :: 'i
    and versions :: "'i \<Rightarrow> versions"
  assumes indexed: "well_indexed (versions it)"
    and versions_new: "versions newItem = Map.empty"
    and versions_set: "v \<noteq> 0 \<Longrightarrow> versions (setValue it i inc v) = (versions it)(i \<mapsto> NewValueItem i inc v)"
    and set_zero: "setValue it i inc 0 = it"
    and versions_estimate: "versions (setEstimate it i inc) = (versions it)(i \<mapsto> NewEstimateItem i inc)"
    and versions_delete: "versions (deleteValue it i inc) = (versions it)(i \<mapsto> NewDeletedItem i inc)"
    and versions_remove: "versions (remove it i) = (versions it)(i := None)"
    and latest: "is_greatest (\<lambda>_. True) (versions it) (getLatest it)"
    and latest_non_estimate: "is_greatest (\<lambda>v. \<not> vi_estimate v) (versions it) (getLatestNonEstimate it)"
    and latest_before: "is_greatest (\<lambda>v. vi_index v < j) (versions it) (getLatestBeforeIndex it j)"
begin

lemma latest_iff: "getLatest it = r \<longleftrightarrow> is_greatest (\<lambda>_. True) (versions it) r"
  using latest is_greatest_unique [OF _ _ indexed] by blast

lemma latest_non_estimate_iff:
  "getLatestNonEstimate it = r \<longleftrightarrow> is_greatest (\<lambda>v. \<not> vi_estimate v) (versions it) r"
  using latest_non_estimate is_greatest_unique [OF _ _ indexed] by blast

lemma latest_before_iff:
  "getLatestBeforeIndex it j = r \<longleftrightarrow> is_greatest (\<lambda>v. vi_index v < j) (versions it) r"
  using latest_before is_greatest_unique [OF _ _ indexed] by blast

lemma indexedD: "versions it i = Some v \<Longrightarrow> vi_index v = i"
  using indexed by (simp add: well_indexed_def)

lemma latest_before_cong:
  assumes "\<And>i. i < j \<Longrightarrow> versions it i = versions it' i"
  shows "getLatestBeforeIndex it j = getLatestBeforeIndex it' j"
  unfolding latest_before_iff
  by (rule is_greatest_below_cong [OF indexed indexed _ latest_before]) (simp add: assms)

lemma latest_before_Some:
  "getLatestBeforeIndex it j = Some v \<longleftrightarrow>
   versions it (vi_index v) = Some v \<and> vi_index v < j \<and>
     (\<forall>i. vi_index v < i \<and> i < j \<longrightarrow> versions it i = None)"
  unfolding latest_before_iff is_greatest_def
  by (auto dest: indexedD) (metis indexedD not_None_eq)

lemma latest_before_None: "getLatestBeforeIndex it j = None \<longleftrightarrow> (\<forall>i<j. versions it i = None)"
  unfolding latest_before_iff is_greatest_def
  by (auto dest: indexedD) (metis indexedD not_None_eq)

lemma latest_non_estimate_Some:
  "getLatestNonEstimate it = Some v \<longleftrightarrow>
   versions it (vi_index v) = Some v \<and> \<not> vi_estimate v \<and>
     (\<forall>i w. vi_index v < i \<longrightarrow> versions it i = Some w \<longrightarrow> vi_estimate w)"
  unfolding latest_non_estimate_iff is_greatest_def by auto

lemma latest_non_estimate_None:
  "getLatestNonEstimate it = None \<longleftrightarrow> (\<forall>i v. versions it i = Some v \<longrightarrow> vi_estimate v)"
  unfolding latest_non_estimate_iff is_greatest_def by auto

lemma latest_Some:
  "getLatest it = Some v \<longleftrightarrow>
   versions it (vi_index v) = Some v \<and> (\<forall>i>vi_index v. versions it i = None)"
  unfolding latest_iff is_greatest_def by auto

lemma latest_None: "getLatest it = None \<longleftrightarrow> versions it = Map.empty"
  unfolding latest_iff is_greatest_def by (auto simp: fun_eq_iff)

end

section \<open>The tree-backed item implements the interface\<close>

text \<open>The abstraction: the entry of index \<open>i\<close> is the tree item of that index.\<close>

definition item_versions :: "'t vtree \<Rightarrow> 't multiVersionItem \<Rightarrow> versions" where
  "item_versions B item = map_of (map (\<lambda>v. (vi_index v, v)) (bt_Descend B (valueTree item)))"

text \<open>The trees of the program hold value items ordered by index.\<close>

locale value_tree = btree_spec B valueItem_Less for B :: "'t vtree"
begin

lemma descend_sorted: "sorted_wrt (\<lambda>a b. vi_index b < vi_index a) (bt_Descend B t)"
  using Descend_sorted [of t] by (simp add: valueItem_Less_def)

lemma item_versions_Some:
  "item_versions B it i = Some v \<longleftrightarrow> v \<in> set (bt_Descend B (valueTree it)) \<and> vi_index v = i"
  unfolding item_versions_def by (rule map_of_keyed [OF descending_distinct [OF descend_sorted]])

lemma item_versions_insert:
  "item_versions B (it\<lparr>valueTree := bt_ReplaceOrInsert B (valueTree it) x\<rparr>) =
   (item_versions B it)(vi_index x \<mapsto> x)"
  by (rule map_eqI_Some)
    (auto simp: item_versions_Some Descend_ReplaceOrInsert valueItem_Less_def)

lemma item_versions_delete:
  "item_versions B (it\<lparr>valueTree := bt_Delete B (valueTree it) x\<rparr>) =
   (item_versions B it)(vi_index x := None)"
  by (rule map_eqI_Some)
    (auto simp: item_versions_Some Descend_Delete valueItem_Less_def)

lemma is_greatest_find:
  "is_greatest P (item_versions B it) (find P (bt_Descend B (valueTree it)))"
proof (cases "find P (bt_Descend B (valueTree it))")
  case None
  then have "\<forall>v\<in>set (bt_Descend B (valueTree it)). \<not> P v" by (simp add: find_None_iff Ball_def)
  with None show ?thesis by (simp add: is_greatest_def item_versions_Some)
next
  case (Some v)
  from find_greatest [OF descend_sorted Some] Some show ?thesis
    by (auto simp: is_greatest_def item_versions_Some)
qed

lemma item_GetLatest_find:
  "item_GetLatest B it = find (\<lambda>_. True) (bt_Descend B (valueTree it))"
  by (simp add: item_GetLatest_def Max_Descend split: list.splits)

lemma item_GetLatestNonEstimate_find:
  "item_GetLatestNonEstimate B it = find (\<lambda>v. \<not> vi_estimate v) (bt_Descend B (valueTree it))"
  unfolding item_GetLatestNonEstimate_def
  by (subst bt_iterate_find [where P = "\<lambda>v. \<not> vi_estimate v" and g = Some])
    (auto simp: valueItem_IsEstimate_def split: option.splits)

lemma item_GetLatestBeforeIndex_find:
  "item_GetLatestBeforeIndex B it j = find (\<lambda>v. vi_index v < j) (bt_Descend B (valueTree it))"
proof -
  have "item_GetLatestBeforeIndex B it j =
      find (\<lambda>_. True) (bt_DescendLessOrEqual B (valueTree it) (pivotItem (j - 1)))"
    unfolding item_GetLatestBeforeIndex_def Let_def
    by (subst bt_iterate_find [where P = "\<lambda>_. True" and g = Some]) (auto split: option.splits)
  also have "\<dots> = find (\<lambda>v. vi_index v < j) (bt_Descend B (valueTree it))"
    by (simp add: DescendLessOrEqual_Descend find_filter valueItem_Less_def)
      (rule arg_cong [where f = "\<lambda>P. find P _"], auto simp: fun_eq_iff)
  finally show ?thesis .
qed

end

sublocale value_tree \<subseteq> mvv: multi_version_value "item_GetLatest B" "item_GetLatestNonEstimate B"
    "item_GetLatestBeforeIndex B" "item_Set B" "item_SetEstimate B" "item_Delete B" "item_Remove B"
    "NewMultiVersionItem B" "item_versions B"
proof unfold_locales
  show "well_indexed (item_versions B it)" for it
    by (simp add: well_indexed_def item_versions_Some)
  show "item_versions B (NewMultiVersionItem B) = Map.empty"
    by (simp add: item_versions_def NewMultiVersionItem_def Descend_New)
qed (simp_all add: item_Set_def item_SetEstimate_def item_Delete_def item_Remove_def
  item_versions_insert item_versions_delete item_GetLatest_find item_GetLatestNonEstimate_find
  item_GetLatestBeforeIndex_find is_greatest_find)

context value_tree
begin

lemmas item_lookup_iff = mvv.latest_iff mvv.latest_non_estimate_iff mvv.latest_before_iff
lemmas item_latest_before_cong = mvv.latest_before_cong
lemmas item_latest_before_Some = mvv.latest_before_Some
lemmas item_latest_before_None = mvv.latest_before_None
lemmas item_latest_non_estimate_Some = mvv.latest_non_estimate_Some
lemmas item_latest_non_estimate_None = mvv.latest_non_estimate_None
lemmas item_latest_Some = mvv.latest_Some
lemmas item_latest_None = mvv.latest_None
lemmas item_versions_index = mvv.indexedD
lemmas item_versions_simps = mvv.versions_new mvv.versions_set mvv.set_zero mvv.versions_delete
  mvv.versions_estimate mvv.versions_remove

end

section \<open>A reference tree\<close>

text \<open>
  A tree that satisfies the documented behaviour: a finite map keyed by index, whose descending
  iteration lists the entries from the largest index down. It instantiates the tree parameter
  wherever a concrete run of the program is evaluated.
\<close>

definition map_btree_Descend :: "(int, valueItem) fmap \<Rightarrow> valueItem list" where
  "map_btree_Descend t = map (\<lambda>i. (the (fmlookup t i))\<lparr>vi_index := i\<rparr>) (rev (fmkeys t))"

definition map_btree :: "(int, valueItem) fmap vtree" where
  "map_btree =
     \<lparr>bt_New = (\<lambda>_. fmempty),
      bt_ReplaceOrInsert = (\<lambda>t x. fmupd (vi_index x) x t),
      bt_Delete = (\<lambda>t x. fmdrop (vi_index x) t),
      bt_Max = (\<lambda>t. case map_btree_Descend t of [] \<Rightarrow> None | x # _ \<Rightarrow> Some x),
      bt_Descend = map_btree_Descend,
      bt_DescendLessOrEqual = (\<lambda>t p. filter (\<lambda>y. \<not> valueItem_Less p y) (map_btree_Descend t))\<rparr>"

lemma vi_index_update_same [simp]: "vi_index v = i \<Longrightarrow> v\<lparr>vi_index := i\<rparr> = v"
  by auto

lemma in_map_btree_Descend:
  "y \<in> set (map_btree_Descend t) \<longleftrightarrow>
   map_option (\<lambda>v. v\<lparr>vi_index := vi_index y\<rparr>) (fmlookup t (vi_index y)) = Some y"
  by (force simp: map_btree_Descend_def in_fmdom_iff image_iff)

lemma map_btree_Descend_sorted:
  "sorted_wrt (\<lambda>a b. valueItem_Less b a) (map_btree_Descend t)"
proof -
  have "sorted_wrt (<) (fmkeys t)" by (simp add: strict_sorted_iff)
  then show ?thesis
    by (simp add: map_btree_Descend_def sorted_wrt_map valueItem_Less_def sorted_wrt_rev)
qed

interpretation ref: value_tree map_btree
proof unfold_locales
  show "set (bt_Descend map_btree (bt_ReplaceOrInsert map_btree t x)) =
      insert x {y \<in> set (bt_Descend map_btree t). valueItem_Less x y \<or> valueItem_Less y x}" for t x
    by (rule set_eqI) (auto simp: map_btree_def in_map_btree_Descend valueItem_Less_def)
  show "set (bt_Descend map_btree (bt_Delete map_btree t x)) =
      {y \<in> set (bt_Descend map_btree t). valueItem_Less x y \<or> valueItem_Less y x}" for t x
    by (rule set_eqI) (auto simp: map_btree_def in_map_btree_Descend valueItem_Less_def)
qed (simp_all add: map_btree_def map_btree_Descend_sorted, simp_all add: map_btree_Descend_def)

section \<open>Properties\<close>

text \<open>
  (C15) The three lookups of a multi-version item return what their comments promise: the entry of the
  largest index, the entry of the largest index that is not an estimate, and the entry of the
  largest index strictly below the given one; nothing when there is no such entry.
\<close>

theorem item_lookups_correct:
  assumes "value_tree B"
  shows "(item_GetLatest B it = r \<longleftrightarrow> is_greatest (\<lambda>_. True) (item_versions B it) r) \<and>
    (item_GetLatestNonEstimate B it = r \<longleftrightarrow>
       is_greatest (\<lambda>v. \<not> vi_estimate v) (item_versions B it) r) \<and>
    (item_GetLatestBeforeIndex B it j = r \<longleftrightarrow>
       is_greatest (\<lambda>v. vi_index v < j) (item_versions B it) r)"
  using value_tree.item_lookup_iff [OF assms] by blast

text \<open>An item with an estimate of transaction 5, a deletion of 3 and a value of 1.\<close>

definition sample_item :: "(int, valueItem) fmap multiVersionItem" where
  "sample_item = item_SetEstimate map_btree
     (item_Delete map_btree (item_Set map_btree (NewMultiVersionItem map_btree) 1 0 7) 3 0) 5 1"

lemma sample_item_lookups:
  "item_GetLatest map_btree sample_item = Some (NewEstimateItem 5 1)"
  "item_GetLatestNonEstimate map_btree sample_item = Some (NewDeletedItem 3 0)"
  "item_GetLatestBeforeIndex map_btree sample_item 3 = Some (NewValueItem 1 0 7)"
  "item_GetLatestBeforeIndex map_btree sample_item 1 = None"
  by code_simp+

theorem item_lookups_correct_witness:
  "value_tree map_btree \<and>
   is_greatest (\<lambda>v. \<not> vi_estimate v) (item_versions map_btree sample_item) (Some (NewDeletedItem 3 0)) \<and>
   is_greatest (\<lambda>v. vi_index v < 3) (item_versions map_btree sample_item) (Some (NewValueItem 1 0 7))"
  using item_lookups_correct [OF ref.value_tree_axioms, of sample_item "Some (NewDeletedItem 3 0)"]
    item_lookups_correct [OF ref.value_tree_axioms, of sample_item "Some (NewValueItem 1 0 7)" 3]
  by (simp add: ref.value_tree_axioms sample_item_lookups)

text \<open>
  (C22) Every writer of a multi-version item replaces the entry of its own index and no other: a
  non-zero \<open>Set\<close> by the value, \<open>Delete\<close> by a deletion, \<open>SetEstimate\<close> by an estimate, \<open>Remove\<close>
  by nothing; \<open>Set\<close> of the zero hash does nothing; a new item has no entry.
\<close>

theorem item_writers_refine:
  assumes "value_tree B"
  shows "item_versions B (NewMultiVersionItem B) = Map.empty \<and>
    item_versions B (item_Set B it i inc v) =
      (if v = 0 then item_versions B it else (item_versions B it)(i \<mapsto> NewValueItem i inc v)) \<and>
    item_versions B (item_Delete B it i inc) = (item_versions B it)(i \<mapsto> NewDeletedItem i inc) \<and>
    item_versions B (item_SetEstimate B it i inc) = (item_versions B it)(i \<mapsto> NewEstimateItem i inc) \<and>
    item_versions B (item_Remove B it i) = (item_versions B it)(i := None)"
  by (simp add: value_tree.item_versions_simps [OF assms])

theorem item_writers_refine_witness:
  "value_tree map_btree \<and>
   item_versions map_btree (item_Set map_btree sample_item 5 2 9) 5 = Some (NewValueItem 5 2 9) \<and>
   item_versions map_btree (item_Remove map_btree sample_item 3) 3 = None"
  using item_writers_refine [OF ref.value_tree_axioms, of sample_item 5 2 9]
    item_writers_refine [OF ref.value_tree_axioms, of sample_item 3 2 9]
  by (simp add: ref.value_tree_axioms)

text \<open>
  (C23) Later transactions are invisible to earlier ones: whatever is written at index \<open>i\<close>, a lookup
  below any \<open>j \<le> i\<close> is unchanged; and a value set at \<open>i\<close> is what the next transaction sees.
\<close>

theorem item_versions_isolated:
  assumes "value_tree B" and "j \<le> i"
  shows "item_GetLatestBeforeIndex B (item_Set B it i inc v) j = item_GetLatestBeforeIndex B it j \<and>
    item_GetLatestBeforeIndex B (item_Delete B it i inc) j = item_GetLatestBeforeIndex B it j \<and>
    item_GetLatestBeforeIndex B (item_SetEstimate B it i inc) j = item_GetLatestBeforeIndex B it j \<and>
    item_GetLatestBeforeIndex B (item_Remove B it i) j = item_GetLatestBeforeIndex B it j \<and>
    (v \<noteq> 0 \<longrightarrow> item_GetLatestBeforeIndex B (item_Set B it i inc v) (i + 1) = Some (NewValueItem i inc v))"
proof -
  note cong = value_tree.item_latest_before_cong [OF assms(1)]
    and vs = value_tree.item_versions_simps [OF assms(1)]
  have "item_GetLatestBeforeIndex B (item_Set B it i inc v) j = item_GetLatestBeforeIndex B it j"
    using assms(2) by (intro cong) (cases "v = 0", simp_all add: vs)
  moreover have "item_GetLatestBeforeIndex B (item_Delete B it i inc) j = item_GetLatestBeforeIndex B it j"
    using assms(2) by (intro cong) (simp add: vs)
  moreover have "item_GetLatestBeforeIndex B (item_SetEstimate B it i inc) j = item_GetLatestBeforeIndex B it j"
    using assms(2) by (intro cong) (simp add: vs)
  moreover have "item_GetLatestBeforeIndex B (item_Remove B it i) j = item_GetLatestBeforeIndex B it j"
    using assms(2) by (intro cong) (simp add: vs)
  moreover have "v \<noteq> 0 \<Longrightarrow>
      item_GetLatestBeforeIndex B (item_Set B it i inc v) (i + 1) = Some (NewValueItem i inc v)"
    by (simp add: value_tree.item_latest_before_Some [OF assms(1)] vs)
  ultimately show ?thesis by blast
qed

theorem item_versions_isolated_witness:
  "value_tree map_btree \<and> (3::int) \<le> 4 \<and>
   item_GetLatestBeforeIndex map_btree (item_Set map_btree sample_item 4 0 9) 3 = Some (NewValueItem 1 0 7) \<and>
   item_GetLatestBeforeIndex map_btree (item_Set map_btree sample_item 4 0 9) 5 = Some (NewValueItem 4 0 9)"
  using item_versions_isolated [OF ref.value_tree_axioms, of 3 4 sample_item 0 9]
  by (simp add: ref.value_tree_axioms sample_item_lookups)

end
