(* ===== verification/Reference.thy ===== *)
theory Reference
  imports Packages
begin

text \<open>
  A concrete instance of the Kaia parameters that satisfies the documented behaviour the
  development relies on: a state database of three functions, and hexadecimal printing. It shows
  that the laws assumed of the packages can hold together, and it instantiates the parameters
  wherever a concrete run of the program is evaluated. It is not a model of the Kaia client.
\<close>

section \<open>Hexadecimal text\<close>

definition hex_digit :: "nat \<Rightarrow> char" where
  "hex_digit d = ''0123456789abcdef'' ! d"

definition hex_value :: "char \<Rightarrow> nat" where
  "hex_value c = (if of_char c < (58 :: nat) then of_char c - 48 else of_char c - 87)"

fun hex_of_nat :: "nat \<Rightarrow> string" where
  "hex_of_nat n = (if n < 16 then [hex_digit n] else hex_of_nat (n div 16) @ [hex_digit (n mod 16)])"

declare hex_of_nat.simps [simp del]

definition nat_of_hex :: "string \<Rightarrow> nat" where
  "nat_of_hex s = foldl (\<lambda>n c. 16 * n + hex_value c) 0 s"

lemma hex_digits_upto: "\<forall>d\<in>set [0..<16]. hex_value (hex_digit d) = d \<and> CHR '':'' \<noteq> hex_digit d"
  by code_simp

lemma hex_digit_simps [simp]:
  "d < 16 \<Longrightarrow> hex_value (hex_digit d) = d"
  "d < 16 \<Longrightarrow> CHR '':'' \<noteq> hex_digit d"
  using hex_digits_upto by auto

lemma nat_of_hex_of_nat [simp]: "nat_of_hex (hex_of_nat n) = n"
proof (induction n rule: hex_of_nat.induct)
  case (1 n)
  then show ?case
    by (subst hex_of_nat.simps) (auto simp: nat_of_hex_def)
qed

lemma hex_of_nat_no_colon [simp]: "CHR '':'' \<notin> set (hex_of_nat n)"
proof (induction n rule: hex_of_nat.induct)
  case (1 n)
  then show ?case
    by (subst hex_of_nat.simps) simp
qed

section \<open>The instance\<close>

record ref_state =
  rs_storage :: "address \<Rightarrow> hash \<Rightarrow> hash"
  rs_balance :: "address \<Rightarrow> int"
  rs_nonce :: "address \<Rightarrow> 64 word"

text \<open>
  A message: fee payer, sender, fee ratio (if any) and gas limit; and what the transaction does to
  contract 9: load a slot (or none), add a number to the value loaded and store the sum in a slot,
  and selfdestruct or not.
\<close>

record ref_msg =
  rm_feePayer :: address
  rm_sender :: address
  rm_ratio :: "8 word option"
  rm_gas :: "64 word"
  rm_src :: "byte option"
  rm_dst :: byte
  rm_add :: hash
  rm_destroy :: bool

definition ref_kaia :: "(ref_state, ref_msg) kaia" where
  "ref_kaia =
     \<lparr>cm_BytesToHash = (\<lambda>bs. word_of_int (big_SetBytes bs)),
      cm_BigToHash = (\<lambda>n. word_of_int \<bar>n\<bar>),
      cm_HexToHash = (\<lambda>s. of_nat (nat_of_hex s)),
      cm_HexToAddress = (\<lambda>s. of_nat (nat_of_hex s)),
      cm_Address_String = (\<lambda>a. hex_of_nat (unat a)),
      cm_Hash_String = (\<lambda>h. hex_of_nat (unat h)),
      cm_RightPadBytes = (\<lambda>bs n. bs @ replicate (nat n - length bs) 0),
      u256_Bytes = (\<lambda>w. rev (map (\<lambda>i. ucast (drop_bit (8 * i) w)) [0..<32])),
      u256_Bytes20 = ucast,
      u256_Bytes32 = (\<lambda>w. w),
      sdb_GetState = rs_storage,
      sdb_SetState = (\<lambda>st a l v. st\<lparr>rs_storage := (rs_storage st)(a := (rs_storage st a)(l := v))\<rparr>),
      sdb_GetBalance = rs_balance,
      sdb_SetBalance = (\<lambda>st a n. st\<lparr>rs_balance := (rs_balance st)(a := n)\<rparr>),
      sdb_GetNonce = rs_nonce,
      sdb_SetNonce = (\<lambda>st a w. st\<lparr>rs_nonce := (rs_nonce st)(a := w)\<rparr>),
      sdb_GetCodeHash = (\<lambda>st a. 0),
      sdb_GetCodeSize = (\<lambda>st a. 0),
      sdb_Finalise = (\<lambda>st _ _. st),
      sdb_Copy = (\<lambda>st. st),
      sdb_Snapshot = (\<lambda>st. (st, 0)),
      sdb_RevertToSnapshot = (\<lambda>st _. st),
      sdb_SetTxContext = (\<lambda>st _ _ _. st),
      msg_ValidatedFeePayer = rm_feePayer,
      msg_ValidatedSender = rm_sender,
      msg_FeeRatio = (\<lambda>m. case rm_ratio m of None \<Rightarrow> (100, False) | Some r \<Rightarrow> (r, True)),
      msg_Gas = rm_gas,
      ty_CalcFeeWithRatio = (\<lambda>r fee. let p = fee * uint r div 100 in (p, fee - p))\<rparr>"

text \<open>The bytes of a word, read as a big-endian number, are the word.\<close>

lemma big_SetBytes_Cons: "big_SetBytes (b # bs) = uint b * 256 ^ length bs + big_SetBytes bs"
proof -
  have "fold (\<lambda>b n. 256 * n + uint b) bs m = m * 256 ^ length bs + fold (\<lambda>b n. 256 * n + uint b) bs 0"
    for m :: int
  proof (induction bs arbitrary: m)
    case Nil
    then show ?case by simp
  next
    case (Cons c bs)
    show ?case
      using Cons.IH [of "256 * m + uint c"] Cons.IH [of "uint c"] by (simp add: algebra_simps)
  qed
  from this [of "uint b"] show ?thesis by (simp add: big_SetBytes_def)
qed

lemma take_bit_uint [simp]: "take_bit 256 (uint (w :: 256 word)) = uint w"
  using uint_bounded [of w] by (intro take_bit_int_eq_self) simp_all

lemma big_SetBytes_word:
  "big_SetBytes (rev (map (\<lambda>i. ucast (drop_bit (8 * i) (w :: 256 word))) [0..<n])) = take_bit (8 * n) (uint w)"
proof (induction n)
  case 0
  then show ?case by (simp add: big_SetBytes_def)
next
  case (Suc n)
  have "uint (ucast (drop_bit (8 * n) w) :: byte) = take_bit 8 (drop_bit (8 * n) (uint w))"
    by (simp add: unsigned_ucast_eq unsigned_drop_bit_eq)
  moreover have "take_bit (8 * Suc n) (uint w) =
      take_bit 8 (drop_bit (8 * n) (uint w)) * 2 ^ (8 * n) + take_bit (8 * n) (uint w)"
    using zmod_zmult2_eq [of "2 ^ 8" "uint w" "2 ^ (8 * n)"]
    by (simp add: take_bit_eq_mod drop_bit_eq_div power_add algebra_simps)
  ultimately show ?case
    using Suc by (simp add: big_SetBytes_Cons power_mult)
qed

lemma BytesToHash_Bytes [simp]: "cm_BytesToHash ref_kaia (u256_Bytes ref_kaia w) = w"
  by (simp add: ref_kaia_def big_SetBytes_word)

interpretation refk: kaia_spec ref_kaia
  by unfold_locales (simp_all add: ref_kaia_def)

end
