(* ===== verification/Storage_Key.thy ===== *)
theory Storage_Key
  imports Reference
begin

text \<open>
  Storage keys, \<open>multiversion/storage_key.go\<close>: a key names a storage slot of an account, or, with
  a reserved slot, its balance, nonce or code. The theory models the printed form of a key, the
  accessors that read it back and the two functions that move a key's value between a state
  database and a hash.
\<close>

section \<open>Keys\<close>

type_synonym StorageKey = string

definition CodeCopyKey :: "('s, 'tx) kaia \<Rightarrow> hash" where
  "CodeCopyKey K = cm_BytesToHash K (bytes_of_string ''codecopy'')"

definition CodeHashKey :: "('s, 'tx) kaia \<Rightarrow> hash" where
  "CodeHashKey K = cm_BytesToHash K (bytes_of_string ''codehash'')"

definition CodeSizeKey :: "('s, 'tx) kaia \<Rightarrow> hash" where
  "CodeSizeKey K = cm_BytesToHash K (bytes_of_string ''codesize'')"

definition BalanceKey :: "('s, 'tx) kaia \<Rightarrow> hash" where
  "BalanceKey K = cm_BytesToHash K (bytes_of_string ''balance'')"

definition SelfDestructKey :: "('s, 'tx) kaia \<Rightarrow> hash" where
  "SelfDestructKey K = cm_BytesToHash K (bytes_of_string ''selfdestruct'')"

definition NonceKey :: "('s, 'tx) kaia \<Rightarrow> hash" where
  "NonceKey K = cm_BytesToHash K (bytes_of_string ''nonce'')"

lemmas reserved_key_defs = CodeCopyKey_def CodeHashKey_def CodeSizeKey_def BalanceKey_def
  SelfDestructKey_def NonceKey_def

definition ToStorageKey :: "('s, 'tx) kaia \<Rightarrow> address \<Rightarrow> hash \<Rightarrow> StorageKey" where
  "ToStorageKey K addr slot = cm_Address_String K addr @ '':'' @ cm_Hash_String K slot"

text \<open>
  A byte slice is \<open>None\<close> when nil. The conversion of a string, even the empty one, is never nil.
\<close>

definition StorageKey_Bytes :: "StorageKey \<Rightarrow> byte list option" where
  "StorageKey_Bytes k = Some (bytes_of_string k)"

text \<open>\<open>strings.Split\<close> with a separator of one byte.\<close>

fun strings_Split :: "string \<Rightarrow> char \<Rightarrow> string list" where
  "strings_Split [] sep = [[]]"
| "strings_Split (c # cs) sep =
     (if c = sep then [] # strings_Split cs sep
      else case strings_Split cs sep of [] \<Rightarrow> [[c]] | w # ws \<Rightarrow> (c # w) # ws)"

definition StorageKey_Address :: "('s, 'tx) kaia \<Rightarrow> StorageKey \<Rightarrow> address" where
  "StorageKey_Address K k =
     (let split = strings_Split k CHR '':'' in
      if length split < 1 then 0 else cm_HexToAddress K (split ! 0))"

definition StorageKey_Slot :: "('s, 'tx) kaia \<Rightarrow> StorageKey \<Rightarrow> hash" where
  "StorageKey_Slot K k =
     (let split = strings_Split k CHR '':'' in
      if length split < 2 then 0 else cm_HexToHash K (split ! 1))"

definition StorageKey_String :: "StorageKey \<Rightarrow> string" where
  "StorageKey_String k = k"

section \<open>Values\<close>

text \<open>
  \<open>big.NewInt(int64(nonce))\<close> reads the 64 bits of the nonce as a signed integer.
\<close>

definition StorageKey_GetValue :: "('s, 'tx) kaia \<Rightarrow> StorageKey \<Rightarrow> 's \<Rightarrow> hash" where
  "StorageKey_GetValue K k stateDB =
     (let slot = StorageKey_Slot K k; addr = StorageKey_Address K k in
      if slot = CodeCopyKey K \<or> slot = CodeHashKey K then sdb_GetCodeHash K stateDB addr
      else if slot = CodeSizeKey K then cm_BigToHash K (sdb_GetCodeSize K stateDB addr)
      else if slot = BalanceKey K then cm_BigToHash K (sdb_GetBalance K stateDB addr)
      else if slot = NonceKey K then cm_BigToHash K (sint (sdb_GetNonce K stateDB addr))
      else if slot = SelfDestructKey K then 0
      else sdb_GetState K stateDB addr slot)"

text \<open>What the program can see of a state database: the value of every key.\<close>

definition state_values :: "('s, 'tx) kaia \<Rightarrow> 's \<Rightarrow> StorageKey \<Rightarrow> hash" where
  "state_values K st k = StorageKey_GetValue K k st"

text \<open>\<open>uint64(value.Big().Int64())\<close> keeps the low 64 bits of the value.\<close>

definition StorageKey_SetValue :: "('s, 'tx) kaia \<Rightarrow> StorageKey \<Rightarrow> 's \<Rightarrow> hash \<Rightarrow> 's" where
  "StorageKey_SetValue K k stateDB value =
     (let slot = StorageKey_Slot K k; addr = StorageKey_Address K k in
      if slot = BalanceKey K then sdb_SetBalance K stateDB addr (uint value)
      else if slot = NonceKey K then sdb_SetNonce K stateDB addr (ucast value)
      else sdb_SetState K stateDB addr slot value)"

section \<open>Lemmas\<close>

lemma strings_Split_nonempty [simp]: "strings_Split s sep \<noteq> []"
  by (induction s) (auto split: list.splits)

lemma strings_Split_no_sep: "sep \<notin> set s \<Longrightarrow> strings_Split s sep = [s]"
  by (induction s) auto

lemma strings_Split_append:
  "sep \<notin> set s \<Longrightarrow> strings_Split (s @ sep # t) sep = s # strings_Split t sep"
  by (induction s) auto

text \<open>The reserved slots are pairwise distinct hashes.\<close>

context common_spec
begin

lemma reserved_keys_values:
  "CodeCopyKey K = 0x636f6465636f7079"
  "CodeHashKey K = 0x636f646568617368"
  "CodeSizeKey K = 0x636f646573697a65"
  "BalanceKey K = 0x62616c616e6365"
  "SelfDestructKey K = 0x73656c666465737472756374"
  "NonceKey K = 0x6e6f6e6365"
  by (simp_all add: reserved_key_defs BytesToHash_spec big_SetBytes_def bytes_of_string_def)

lemma split_ToStorageKey:
  "strings_Split (ToStorageKey K a l) CHR '':'' = [cm_Address_String K a, cm_Hash_String K l]"
  by (simp add: ToStorageKey_def strings_Split_append strings_Split_no_sep Address_String_no_colon
      Hash_String_no_colon)

lemma Address_ToStorageKey [simp]: "StorageKey_Address K (ToStorageKey K a l) = a"
  by (simp add: StorageKey_Address_def split_ToStorageKey HexToAddress_String)

lemma Slot_ToStorageKey [simp]: "StorageKey_Slot K (ToStorageKey K a l) = l"
  by (simp add: StorageKey_Slot_def split_ToStorageKey HexToHash_String)

lemma ToStorageKey_inject [simp]: "ToStorageKey K a l = ToStorageKey K b k \<longleftrightarrow> a = b \<and> l = k"
  by (metis Address_ToStorageKey Slot_ToStorageKey)

lemma uint_BigToHash: "0 \<le> n \<Longrightarrow> n < 2 ^ 256 \<Longrightarrow> uint (cm_BigToHash K n) = n"
  by (simp add: BigToHash_spec uint_word_of_int)

lemma BigToHash_uint [simp]: "cm_BigToHash K (uint v) = v"
  by (simp add: BigToHash_spec)

end

section \<open>Reading back a written value\<close>

text \<open>
  A canonical key is one that \<open>ToStorageKey\<close> made. A data slot is one whose value \<open>SetValue\<close>
  stores where \<open>GetValue\<close> looks: every slot but the three code slots and the selfdestruct slot. A
  value is storable when it is not a nonce beyond 63 bits.
\<close>

definition canonical_key :: "('s, 'tx) kaia \<Rightarrow> StorageKey \<Rightarrow> bool" where
  "canonical_key K k \<longleftrightarrow> k = ToStorageKey K (StorageKey_Address K k) (StorageKey_Slot K k)"

definition data_key :: "('s, 'tx) kaia \<Rightarrow> StorageKey \<Rightarrow> bool" where
  "data_key K k \<longleftrightarrow> canonical_key K k \<and>
     StorageKey_Slot K k \<notin> {CodeCopyKey K, CodeHashKey K, CodeSizeKey K, SelfDestructKey K}"

definition storable :: "('s, 'tx) kaia \<Rightarrow> StorageKey \<Rightarrow> hash \<Rightarrow> bool" where
  "storable K k v \<longleftrightarrow> (StorageKey_Slot K k = NonceKey K \<longrightarrow> uint v < 2 ^ 63)"

lemma sint_ucast_nonce:
  fixes v :: hash
  assumes "uint v < 2 ^ 63"
  shows "sint (ucast v :: 64 word) = uint v"
proof -
  have "sint (ucast v :: 64 word) = signed_take_bit 63 (uint v)"
    by (simp add: sint_uint unsigned_ucast_eq signed_take_bit_take_bit min_def)
  also have "\<dots> = uint v"
    by (rule signed_take_bit_int_eq_self) (use assms in \<open>simp_all add: order_trans [OF _ uint_ge_0]\<close>)
  finally show ?thesis .
qed

context kaia_spec
begin

lemma canonical_key_eq_iff:
  "canonical_key K k \<Longrightarrow> canonical_key K k' \<Longrightarrow>
   k = k' \<longleftrightarrow> StorageKey_Address K k = StorageKey_Address K k' \<and> StorageKey_Slot K k = StorageKey_Slot K k'"
  by (metis canonical_key_def)

lemma canonical_ToStorageKey [simp]: "canonical_key K (ToStorageKey K a l)"
  by (simp add: canonical_key_def)

lemma get_set_value:
  assumes "canonical_key K k" "data_key K k'" "storable K k v"
  shows "StorageKey_GetValue K k' (StorageKey_SetValue K k st v) =
    (if k = k' then v else StorageKey_GetValue K k' st)"
proof -
  have iff: "k = k' \<longleftrightarrow> StorageKey_Address K k = StorageKey_Address K k' \<and>
      StorageKey_Slot K k = StorageKey_Slot K k'"
    using assms(1,2) by (intro canonical_key_eq_iff) (simp_all add: data_key_def)
  show ?thesis
    using assms(2,3) unfolding iff
    by (auto simp: StorageKey_GetValue_def StorageKey_SetValue_def Let_def data_key_def storable_def
        GetState_SetState GetBalance_SetBalance GetNonce_SetNonce sint_ucast_nonce reserved_keys_values)
qed

end

section \<open>Properties\<close>

text \<open>
  (C29) The address and the slot of a key are read back from its printed form, so two keys are equal
  only when both their address and their slot are.
\<close>

theorem storage_key_roundtrip:
  assumes "common_spec K"
  shows "StorageKey_Address K (ToStorageKey K a l) = a \<and> StorageKey_Slot K (ToStorageKey K a l) = l \<and>
    (ToStorageKey K a l = ToStorageKey K b k \<longleftrightarrow> a = b \<and> l = k)"
  using common_spec.Address_ToStorageKey [OF assms] common_spec.Slot_ToStorageKey [OF assms]
    common_spec.ToStorageKey_inject [OF assms] by blast

theorem storage_key_roundtrip_witness:
  "common_spec ref_kaia \<and> ToStorageKey ref_kaia 171 18 = ''ab:12'' \<and>
   StorageKey_Address ref_kaia ''ab:12'' = 171 \<and> StorageKey_Slot ref_kaia ''ab:12'' = 18"
proof -
  have "ToStorageKey ref_kaia 171 18 = ''ab:12''" by code_simp
  then show ?thesis
    using storage_key_roundtrip [OF refk.common_spec_axioms, of 171 18]
    by (simp add: refk.common_spec_axioms)
qed

text \<open>
  (C30) A value written with \<open>SetValue\<close> is what \<open>GetValue\<close> returns for the same key, and the value of
  every other key is unchanged: for storage slots, balances (any 256-bit value) and nonces (below
  2 to the power of 63, as \<open>GetValue\<close> reads a nonce as a signed integer).
\<close>

theorem storage_key_get_set:
  assumes "kaia_spec K" "canonical_key K k" "data_key K k'" "storable K k v"
  shows "StorageKey_GetValue K k' (StorageKey_SetValue K k st v) =
    (if k = k' then v else StorageKey_GetValue K k' st)"
  using assms by (rule kaia_spec.get_set_value)

definition empty_state :: ref_state where
  "empty_state = \<lparr>rs_storage = (\<lambda>_ _. 0), rs_balance = (\<lambda>_. 0), rs_nonce = (\<lambda>_. 0)\<rparr>"

theorem storage_key_get_set_witness:
  "kaia_spec ref_kaia \<and>
   canonical_key ref_kaia (ToStorageKey ref_kaia 1 (NonceKey ref_kaia)) \<and>
   data_key ref_kaia (ToStorageKey ref_kaia 1 (NonceKey ref_kaia)) \<and>
   storable ref_kaia (ToStorageKey ref_kaia 1 (NonceKey ref_kaia)) 5 \<and>
   StorageKey_GetValue ref_kaia (ToStorageKey ref_kaia 1 (NonceKey ref_kaia))
     (StorageKey_SetValue ref_kaia (ToStorageKey ref_kaia 1 (NonceKey ref_kaia)) empty_state 5) = 5"
proof -
  have h: "canonical_key ref_kaia (ToStorageKey ref_kaia 1 (NonceKey ref_kaia))"
    "data_key ref_kaia (ToStorageKey ref_kaia 1 (NonceKey ref_kaia))"
    "storable ref_kaia (ToStorageKey ref_kaia 1 (NonceKey ref_kaia)) 5"
    by (simp_all add: data_key_def storable_def refk.reserved_keys_values)
  show ?thesis
    using h storage_key_get_set [OF refk.kaia_spec_axioms h, of empty_state]
    by (simp add: refk.kaia_spec_axioms)
qed

end
