(* ===== verification/Store.thy ===== *)
theory Store
  imports Data_Structure Storage_Key
begin

text \<open>
  The multi-version store, \<open>multiversion/store.go\<close>: for every storage key the versions the
  transactions of a block wrote, for every transaction the keys of its writeset and its readset,
  and the parent state. The theory models every method of the store, states the contract of the
  Go interface \<open>MultiVersionStore\<close> as a locale over the columns of the store (what one transaction
  has written) and shows that the store meets it.
\<close>

section \<open>State\<close>

type_synonym WriteSet = "(StorageKey, hash) fmap"
type_synonym ReadSet = "(StorageKey, hash list) fmap"

text \<open>
  The \<open>sync.Map\<close> fields are finite maps, each of whose methods is atomic. \<open>txIterateSets\<close> is
  created and never used; it has no counterpart. \<open>parentStore\<close> is the value of the state database
  the store points to.
\<close>

record ('s, 't) Store =
  multiVersionMap :: "(StorageKey, 't multiVersionItem) fmap"
  txWritesetKeys :: "(int, StorageKey list) fmap"
  txReadSets :: "(int, ReadSet) fmap"
  parentStore :: 's

definition NewMultiVersionStore :: "'s \<Rightarrow> ('s, 't) Store" where
  "NewMultiVersionStore parent =
     \<lparr>multiVersionMap = fmempty, txWritesetKeys = fmempty, txReadSets = fmempty, parentStore = parent\<rparr>"

definition Store_GetParentState :: "('s, 't) Store \<Rightarrow> 's" where
  "Store_GetParentState s = parentStore s"

section \<open>Lookups\<close>

definition Store_GetLatest :: "'t vtree \<Rightarrow> ('s, 't) Store \<Rightarrow> StorageKey \<Rightarrow> valueItem option" where
  "Store_GetLatest B s key =
     (case fmlookup (multiVersionMap s) key of
        None \<Rightarrow> None
      | Some mvVal \<Rightarrow> item_GetLatest B mvVal)"

definition Store_GetLatestBeforeIndex ::
  "'t vtree \<Rightarrow> ('s, 't) Store \<Rightarrow> int \<Rightarrow> StorageKey \<Rightarrow> valueItem option" where
  "Store_GetLatestBeforeIndex B s index key =
     (case fmlookup (multiVersionMap s) key of
        None \<Rightarrow> None
      | Some mvVal \<Rightarrow> item_GetLatestBeforeIndex B mvVal index)"

definition Store_Has :: "'t vtree \<Rightarrow> ('s, 't) Store \<Rightarrow> int \<Rightarrow> StorageKey \<Rightarrow> bool" where
  "Store_Has B s index key =
     (case fmlookup (multiVersionMap s) key of
        None \<Rightarrow> False
      | Some mvVal \<Rightarrow> item_GetLatestBeforeIndex B mvVal index \<noteq> None)"

section \<open>Writesets\<close>

text \<open>One pass of the loop that removes the keys of an old writeset.\<close>

definition removeOldKey ::
  "'t vtree \<Rightarrow> int \<Rightarrow> WriteSet \<Rightarrow> StorageKey \<Rightarrow>
   (StorageKey, 't multiVersionItem) fmap \<Rightarrow> (StorageKey, 't multiVersionItem) fmap" where
  "removeOldKey B index writeset key m =
     (if fmlookup writeset key \<noteq> None then m
      else case fmlookup m key of
        None \<Rightarrow> m
      | Some mvVal \<Rightarrow> fmupd key (item_Remove B mvVal index) m)"

definition removeOldWriteset ::
  "'t vtree \<Rightarrow> ('s, 't) Store \<Rightarrow> int \<Rightarrow> WriteSet option \<Rightarrow> ('s, 't) Store" where
  "removeOldWriteset B s index newWriteSet =
     (let writeset = (case newWriteSet of None \<Rightarrow> fmempty | Some ws \<Rightarrow> ws) in
      case fmlookup (txWritesetKeys s) index of
        None \<Rightarrow> s
      | Some keys \<Rightarrow>
          s\<lparr>txWritesetKeys := fmdrop index (txWritesetKeys s),
            multiVersionMap := fold (removeOldKey B index writeset) keys (multiVersionMap s)\<rparr>)"

text \<open>\<open>LoadOrStore(key, NewMultiVersionItem())\<close> followed by an update of the loaded item.\<close>

definition updateOrNew ::
  "'t vtree \<Rightarrow> StorageKey \<Rightarrow> ('t multiVersionItem \<Rightarrow> 't multiVersionItem) \<Rightarrow>
   (StorageKey, 't multiVersionItem) fmap \<Rightarrow> (StorageKey, 't multiVersionItem) fmap" where
  "updateOrNew B key f m =
     fmupd key (f (case fmlookup m key of None \<Rightarrow> NewMultiVersionItem B | Some mvVal \<Rightarrow> mvVal)) m"

definition writeKey ::
  "'t vtree \<Rightarrow> int \<Rightarrow> int \<Rightarrow> WriteSet \<Rightarrow> StorageKey \<Rightarrow>
   (StorageKey, 't multiVersionItem) fmap \<Rightarrow> (StorageKey, 't multiVersionItem) fmap" where
  "writeKey B index incarnation writeset key m =
     (case fmlookup writeset key of
        None \<Rightarrow> m
      | Some value \<Rightarrow>
          updateOrNew B key (\<lambda>mvVal. if value = 0 then item_Delete B mvVal index incarnation
                                     else item_Set B mvVal index incarnation value) m)"

definition estimateKey ::
  "'t vtree \<Rightarrow> int \<Rightarrow> int \<Rightarrow> StorageKey \<Rightarrow>
   (StorageKey, 't multiVersionItem) fmap \<Rightarrow> (StorageKey, 't multiVersionItem) fmap" where
  "estimateKey B index incarnation key m =
     updateOrNew B key (\<lambda>mvVal. item_SetEstimate B mvVal index incarnation) m"

text \<open>
  \<open>SetWriteset\<close> and \<open>SetEstimatedWriteset\<close> with the enumeration \<open>ks\<close> of the writeset's keys that
  the \<open>range\<close> loop follows; the keys are sorted before they are stored.
\<close>

definition SetWriteset_in_order ::
  "'t vtree \<Rightarrow> StorageKey list \<Rightarrow> ('s, 't) Store \<Rightarrow> int \<Rightarrow> int \<Rightarrow> WriteSet \<Rightarrow> ('s, 't) Store" where
  "SetWriteset_in_order B ks s index incarnation writeset =
     (let s1 = removeOldWriteset B s index (Some writeset) in
      s1\<lparr>multiVersionMap := fold (writeKey B index incarnation writeset) ks (multiVersionMap s1),
         txWritesetKeys := fmupd index (sort ks) (txWritesetKeys s1)\<rparr>)"

definition SetWriteset ::
  "'t vtree \<Rightarrow> ('s, 't) Store \<Rightarrow> int \<Rightarrow> int \<Rightarrow> WriteSet \<Rightarrow> ('s, 't) Store" where
  "SetWriteset B s index incarnation writeset =
     SetWriteset_in_order B (fmkeys writeset) s index incarnation writeset"

definition SetEstimatedWriteset_in_order ::
  "'t vtree \<Rightarrow> StorageKey list \<Rightarrow> ('s, 't) Store \<Rightarrow> int \<Rightarrow> int \<Rightarrow> WriteSet \<Rightarrow> ('s, 't) Store" where
  "SetEstimatedWriteset_in_order B ks s index incarnation writeset =
     (let s1 = removeOldWriteset B s index (Some writeset) in
      s1\<lparr>multiVersionMap := fold (estimateKey B index incarnation) ks (multiVersionMap s1),
         txWritesetKeys := fmupd index (sort ks) (txWritesetKeys s1)\<rparr>)"

definition SetEstimatedWriteset ::
  "'t vtree \<Rightarrow> ('s, 't) Store \<Rightarrow> int \<Rightarrow> int \<Rightarrow> WriteSet \<Rightarrow> ('s, 't) Store" where
  "SetEstimatedWriteset B s index incarnation writeset =
     SetEstimatedWriteset_in_order B (fmkeys writeset) s index incarnation writeset"

definition InvalidateWriteset :: "'t vtree \<Rightarrow> ('s, 't) Store \<Rightarrow> int \<Rightarrow> int \<Rightarrow> ('s, 't) Store" where
  "InvalidateWriteset B s index incarnation =
     (case fmlookup (txWritesetKeys s) index of
        None \<Rightarrow> s
      | Some keys \<Rightarrow>
          s\<lparr>multiVersionMap := fold (estimateKey B index incarnation) keys (multiVersionMap s)\<rparr>)"

definition GetAllWritesetKeys :: "('s, 't) Store \<Rightarrow> (int, StorageKey list) fmap" where
  "GetAllWritesetKeys s =
     fold (\<lambda>index acc. case fmlookup (txWritesetKeys s) index of
                         None \<Rightarrow> acc | Some keys \<Rightarrow> fmupd index keys acc)
       (fmkeys (txWritesetKeys s)) fmempty"

section \<open>Readsets and validation\<close>

definition SetReadset :: "('s, 't) Store \<Rightarrow> int \<Rightarrow> ReadSet \<Rightarrow> ('s, 't) Store" where
  "SetReadset s index readset = s\<lparr>txReadSets := fmupd index readset (txReadSets s)\<rparr>"

definition GetReadset :: "('s, 't) Store \<Rightarrow> int \<Rightarrow> ReadSet option" where
  "GetReadset s index = fmlookup (txReadSets s) index"

definition ClearReadset :: "('s, 't) Store \<Rightarrow> int \<Rightarrow> ('s, 't) Store" where
  "ClearReadset s index = s\<lparr>txReadSets := fmdrop index (txReadSets s)\<rparr>"

text \<open>
  One pass of the validation loop: the flag \<open>valid\<close> and the set of conflicting indices.
\<close>

definition checkRead ::
  "'t vtree \<Rightarrow> ('s, 'tx) kaia \<Rightarrow> ('s, 't) Store \<Rightarrow> int \<Rightarrow> ReadSet \<Rightarrow> StorageKey \<Rightarrow>
   bool \<times> (int, unit) fmap \<Rightarrow> bool \<times> (int, unit) fmap" where
  "checkRead B K s index readset key acc =
     (case acc of (valid, conflictSet) \<Rightarrow>
      case fmlookup readset key of
        None \<Rightarrow> acc
      | Some valueArr \<Rightarrow>
          if length valueArr \<noteq> 1 then (False, conflictSet)
          else
            let value = valueArr ! 0 in
            case Store_GetLatestBeforeIndex B s index key of
              None \<Rightarrow>
                (if StorageKey_GetValue K key (parentStore s) \<noteq> value then (False, conflictSet) else acc)
            | Some latestValue \<Rightarrow>
                if valueItem_IsEstimate latestValue then
                  (False, fmupd (valueItem_Index latestValue) () conflictSet)
                else if valueItem_IsDeleted latestValue then
                  (if value \<noteq> 0 then (False, fmupd (valueItem_Index latestValue) () conflictSet) else acc)
                else if valueItem_Value (Some latestValue) \<noteq> value then
                  (False, fmupd (valueItem_Index latestValue) () conflictSet)
                else acc)"

definition checkReadsetAtIndex_in_order ::
  "'t vtree \<Rightarrow> ('s, 'tx) kaia \<Rightarrow> StorageKey list \<Rightarrow> ('s, 't) Store \<Rightarrow> int \<Rightarrow> ReadSet \<Rightarrow> bool \<times> int list" where
  "checkReadsetAtIndex_in_order B K ks s index readset =
     (case fold (checkRead B K s index readset) ks (True, fmempty) of
        (valid, conflictSet) \<Rightarrow> (valid, sort (fmkeys conflictSet)))"

definition checkReadsetAtIndex ::
  "'t vtree \<Rightarrow> ('s, 'tx) kaia \<Rightarrow> ('s, 't) Store \<Rightarrow> int \<Rightarrow> bool \<times> int list" where
  "checkReadsetAtIndex B K s index =
     (case fmlookup (txReadSets s) index of
        None \<Rightarrow> (True, [])
      | Some readset \<Rightarrow> checkReadsetAtIndex_in_order B K (fmkeys readset) s index readset)"

definition ValidateTransactionState ::
  "'t vtree \<Rightarrow> ('s, 'tx) kaia \<Rightarrow> ('s, 't) Store \<Rightarrow> int \<Rightarrow> bool \<times> int list" where
  "ValidateTransactionState B K s index = checkReadsetAtIndex B K s index"

section \<open>Writing back\<close>

text \<open>
  The body of the two write-back loops; \<open>inRange\<close> is the additional test of the index that
  \<open>WriteLatestToStoreUntil\<close> makes.
\<close>

definition writeBackKey ::
  "'t vtree \<Rightarrow> ('s, 'tx) kaia \<Rightarrow> (int \<Rightarrow> bool) \<Rightarrow> ('s, 't) Store \<Rightarrow> StorageKey \<Rightarrow> 's \<Rightarrow> go_panic + 's" where
  "writeBackKey B K inRange s key finalState =
     (case fmlookup (multiVersionMap s) key of
        None \<Rightarrow> Inr finalState
      | Some val \<Rightarrow>
        (case item_GetLatestNonEstimate B val of
           None \<Rightarrow> Inr finalState
         | Some mvValue \<Rightarrow>
             if valueItem_IsEstimate mvValue then
               Inl (PanicMsg ''should not have any estimate values when writing to parent store'')
             else if \<not> inRange (valueItem_Index mvValue) then Inr finalState
             else if valueItem_IsDeleted mvValue then Inr (StorageKey_SetValue K key finalState 0)
             else if valueItem_Value (Some mvValue) \<noteq> 0 then
               Inr (StorageKey_SetValue K key finalState (valueItem_Value (Some mvValue)))
             else Inr finalState))"

definition WriteLatestToStoreUntil ::
  "'t vtree \<Rightarrow> ('s, 'tx) kaia \<Rightarrow> ('s, 't) Store \<Rightarrow> int \<Rightarrow> int \<Rightarrow> 's \<Rightarrow> go_panic + 's" where
  "WriteLatestToStoreUntil B K s lastStoreIndex startIndex finalState =
     pbind (pfold (writeBackKey B K (\<lambda>valIdx. \<not> (valIdx < lastStoreIndex \<or> valIdx \<ge> startIndex)) s)
              (sort (fmkeys (multiVersionMap s))) finalState)
       (\<lambda>st. Inr (sdb_Finalise K st True False))"

definition WriteLatestToStore ::
  "'t vtree \<Rightarrow> ('s, 'tx) kaia \<Rightarrow> ('s, 't) Store \<Rightarrow> 's \<Rightarrow> go_panic + 's" where
  "WriteLatestToStore B K s finalState =
     pbind (pfold (writeBackKey B K (\<lambda>_. True) s) (sort (fmkeys (multiVersionMap s))) finalState)
       (\<lambda>st. Inr (sdb_Finalise K st True False))"

section \<open>The columns of the store\<close>

text \<open>
  The specification view of the store: for a key, its versions; for a transaction, its column, the
  version it wrote of each key. \<open>written\<close> is the item a writeset entry becomes.
\<close>

definition map_versions ::
  "'t vtree \<Rightarrow> (StorageKey, 't multiVersionItem) fmap \<Rightarrow> StorageKey \<Rightarrow> versions" where
  "map_versions B m k = (case fmlookup m k of None \<Rightarrow> Map.empty | Some it \<Rightarrow> item_versions B it)"

definition store_versions :: "'t vtree \<Rightarrow> ('s, 't) Store \<Rightarrow> StorageKey \<Rightarrow> versions" where
  "store_versions B s = map_versions B (multiVersionMap s)"

definition column :: "'t vtree \<Rightarrow> ('s, 't) Store \<Rightarrow> int \<Rightarrow> StorageKey \<rightharpoonup> valueItem" where
  "column B s i k = store_versions B s k i"

definition written :: "int \<Rightarrow> int \<Rightarrow> hash \<Rightarrow> valueItem" where
  "written i inc v = (if v = 0 then NewDeletedItem i inc else NewValueItem i inc v)"

text \<open>
  The invariant: the recorded writeset keys of a transaction are exactly the keys its column has a
  version of, in ascending order.
\<close>

definition recorded_keys :: "('s, 't) Store \<Rightarrow> int \<Rightarrow> StorageKey set" where
  "recorded_keys s i = (case fmlookup (txWritesetKeys s) i of None \<Rightarrow> {} | Some ks \<Rightarrow> set ks)"

definition store_inv :: "'t vtree \<Rightarrow> ('s, 't) Store \<Rightarrow> bool" where
  "store_inv B s \<longleftrightarrow>
     (\<forall>i k. column B s i k = None \<longleftrightarrow> k \<notin> recorded_keys s i) \<and>
     (\<forall>i ks. fmlookup (txWritesetKeys s) i = Some ks \<longrightarrow> sorted ks \<and> distinct ks)"

lemma written_simps [simp]:
  "vi_index (written i inc v) = i" "vi_value (written i inc v) = v" "\<not> vi_estimate (written i inc v)"
  by (simp_all add: written_def valueItem_defs)

lemma column_new [simp]: "column B (NewMultiVersionStore parent) i k = None"
  by (simp add: column_def store_versions_def map_versions_def NewMultiVersionStore_def)

lemma removeOldWriteset_frame [simp]:
  "txReadSets (removeOldWriteset B s i ws) = txReadSets s"
  "parentStore (removeOldWriteset B s i ws) = parentStore s"
  by (simp_all add: removeOldWriteset_def Let_def split: option.splits)

lemma store_writers_frame [simp]:
  "txReadSets (SetWriteset B s i inc ws) = txReadSets s"
  "parentStore (SetWriteset B s i inc ws) = parentStore s"
  "txReadSets (SetEstimatedWriteset B s i inc ws) = txReadSets s"
  "parentStore (SetEstimatedWriteset B s i inc ws) = parentStore s"
  "txReadSets (InvalidateWriteset B s i inc) = txReadSets s"
  "parentStore (InvalidateWriteset B s i inc) = parentStore s"
  by (simp_all add: SetWriteset_def SetWriteset_in_order_def SetEstimatedWriteset_def
      SetEstimatedWriteset_in_order_def InvalidateWriteset_def Let_def split: option.splits)

lemma txWritesetKeys_set [simp]:
  "txWritesetKeys (SetWriteset B s i inc ws) = fmupd i (fmkeys ws) (txWritesetKeys s)"
  "txWritesetKeys (SetEstimatedWriteset B s i inc ws) = fmupd i (fmkeys ws) (txWritesetKeys s)"
  "txWritesetKeys (InvalidateWriteset B s i inc) = txWritesetKeys s"
  by (auto simp: SetWriteset_def SetWriteset_in_order_def SetEstimatedWriteset_def
      SetEstimatedWriteset_in_order_def InvalidateWriteset_def removeOldWriteset_def Let_def
      sorted_sort_id intro: fmap_ext split: option.splits)

lemma store_versions_readsets [simp]:
  "store_versions B (SetReadset s i rs) = store_versions B s"
  "store_versions B (ClearReadset s i) = store_versions B s"
  "store_versions B (s\<lparr>parentStore := st\<rparr>) = store_versions B s"
  by (simp_all add: store_versions_def SetReadset_def ClearReadset_def)

context value_tree
begin

lemma map_versions_removeOldKey:
  "map_versions B (removeOldKey B i ws key m) k =
   (if k = key \<and> fmlookup ws k = None then (map_versions B m k)(i := None) else map_versions B m k)"
  by (auto simp: map_versions_def removeOldKey_def item_versions_simps split: option.splits)

lemma map_versions_writeKey:
  "map_versions B (writeKey B i inc ws key m) k =
   (case fmlookup ws key of
      Some v \<Rightarrow> if k = key then (map_versions B m k)(i \<mapsto> written i inc v) else map_versions B m k
    | None \<Rightarrow> map_versions B m k)"
  by (auto simp: writeKey_def updateOrNew_def map_versions_def written_def item_versions_simps
      split: option.splits)

lemma map_versions_estimateKey:
  "map_versions B (estimateKey B i inc key m) k =
   (if k = key then (map_versions B m k)(i \<mapsto> NewEstimateItem i inc) else map_versions B m k)"
  by (auto simp: estimateKey_def updateOrNew_def map_versions_def item_versions_simps
      split: option.splits)

lemma map_versions_fold_removeOldKey:
  "map_versions B (fold (removeOldKey B i ws) ks m) k =
   (if k \<in> set ks \<and> fmlookup ws k = None then (map_versions B m k)(i := None) else map_versions B m k)"
  by (induction ks arbitrary: m) (auto simp: map_versions_removeOldKey)

lemma map_versions_fold_writeKey:
  "map_versions B (fold (writeKey B i inc ws) ks m) k =
   (case fmlookup ws k of
      Some v \<Rightarrow> if k \<in> set ks then (map_versions B m k)(i \<mapsto> written i inc v) else map_versions B m k
    | None \<Rightarrow> map_versions B m k)"
  by (induction ks arbitrary: m) (auto simp: map_versions_writeKey split: option.splits)

lemma map_versions_fold_estimateKey:
  "map_versions B (fold (estimateKey B i inc) ks m) k =
   (if k \<in> set ks then (map_versions B m k)(i \<mapsto> NewEstimateItem i inc) else map_versions B m k)"
  by (induction ks arbitrary: m) (auto simp: map_versions_estimateKey)

lemma store_invD:
  "store_inv B s \<Longrightarrow> store_versions B s k i = None \<longleftrightarrow> k \<notin> recorded_keys s i"
  by (simp add: store_inv_def column_def)

text \<open>After the removal of the old writeset the column has only keys the new writeset will write.\<close>

lemma store_versions_removeOldWriteset:
  assumes "store_inv B s"
  shows "store_versions B (removeOldWriteset B s i (Some ws)) k =
    (if fmlookup ws k = None then (store_versions B s k)(i := None) else store_versions B s k)"
proof (cases "fmlookup (txWritesetKeys s) i")
  case None
  then have "store_versions B s k i = None" using store_invD [OF assms] by (simp add: recorded_keys_def)
  with None show ?thesis by (simp add: removeOldWriteset_def fun_upd_idem)
next
  case (Some ks)
  then have "k \<notin> set ks \<Longrightarrow> store_versions B s k i = None" using store_invD [OF assms] by (simp add: recorded_keys_def)
  with Some show ?thesis
    by (auto simp: removeOldWriteset_def store_versions_def map_versions_fold_removeOldKey fun_upd_idem)
qed

lemma store_versions_SetWriteset:
  assumes "store_inv B s"
  shows "store_versions B (SetWriteset B s i inc ws) k =
    (store_versions B s k)(i := map_option (written i inc) (fmlookup ws k))"
  using store_versions_removeOldWriteset [OF assms, of i ws k]
  by (auto simp: SetWriteset_def SetWriteset_in_order_def Let_def store_versions_def
      map_versions_fold_writeKey in_fmdom_iff split: option.splits)

lemma store_versions_SetEstimatedWriteset:
  assumes "store_inv B s"
  shows "store_versions B (SetEstimatedWriteset B s i inc ws) k =
    (store_versions B s k)(i := map_option (\<lambda>_. NewEstimateItem i inc) (fmlookup ws k))"
  using store_versions_removeOldWriteset [OF assms, of i ws k]
  by (auto simp: SetEstimatedWriteset_def SetEstimatedWriteset_in_order_def Let_def store_versions_def
      map_versions_fold_estimateKey in_fmdom_iff split: option.splits)

lemma store_versions_InvalidateWriteset:
  assumes "store_inv B s"
  shows "store_versions B (InvalidateWriteset B s i inc) k =
    (store_versions B s k)(i := map_option (\<lambda>_. NewEstimateItem i inc) (store_versions B s k i))"
proof (cases "fmlookup (txWritesetKeys s) i")
  case None
  then have "store_versions B s k i = None" using store_invD [OF assms] by (simp add: recorded_keys_def)
  with None show ?thesis by (simp add: InvalidateWriteset_def fun_upd_idem)
next
  case (Some ks)
  then have "k \<in> set ks \<longleftrightarrow> store_versions B s k i \<noteq> None" using store_invD [OF assms] by (simp add: recorded_keys_def)
  with Some show ?thesis
    by (auto simp: InvalidateWriteset_def store_versions_def map_versions_fold_estimateKey fun_upd_idem)
qed

lemmas store_versions_writers = store_versions_SetWriteset store_versions_SetEstimatedWriteset
  store_versions_InvalidateWriteset

lemma store_inv_new: "store_inv B (NewMultiVersionStore parent)"
  by (simp add: store_inv_def NewMultiVersionStore_def column_def store_versions_def map_versions_def
      recorded_keys_def)

lemma recorded_keys_SetWriteset:
  "recorded_keys (SetWriteset B s i inc ws) j = (if j = i then fset (fmdom ws) else recorded_keys s j)"
  "recorded_keys (SetEstimatedWriteset B s i inc ws) j =
     (if j = i then fset (fmdom ws) else recorded_keys s j)"
  "recorded_keys (InvalidateWriteset B s i inc) j = recorded_keys s j"
  by (simp_all add: recorded_keys_def)

lemma store_inv_SetWriteset: "store_inv B s \<Longrightarrow> store_inv B (SetWriteset B s i inc ws)"
  by (auto simp: store_inv_def column_def store_versions_SetWriteset store_invD recorded_keys_SetWriteset
      in_fmdom_iff)

lemma store_inv_SetEstimatedWriteset:
  "store_inv B s \<Longrightarrow> store_inv B (SetEstimatedWriteset B s i inc ws)"
  by (auto simp: store_inv_def column_def store_versions_SetEstimatedWriteset recorded_keys_SetWriteset
      store_invD in_fmdom_iff)

lemma store_inv_InvalidateWriteset: "store_inv B s \<Longrightarrow> store_inv B (InvalidateWriteset B s i inc)"
  by (auto simp: store_inv_def column_def store_versions_InvalidateWriteset recorded_keys_SetWriteset
      store_invD)

lemma store_inv_readsets:
  "store_inv B (SetReadset s i rs) \<longleftrightarrow> store_inv B s"
  "store_inv B (ClearReadset s i) \<longleftrightarrow> store_inv B s"
  "store_inv B (s\<lparr>parentStore := st\<rparr>) \<longleftrightarrow> store_inv B s"
  by (simp_all add: store_inv_def column_def recorded_keys_def SetReadset_def ClearReadset_def
      store_versions_def)

lemmas store_inv_ops = store_inv_new store_inv_SetWriteset store_inv_SetEstimatedWriteset
  store_inv_InvalidateWriteset

lemma store_latest_before_Some:
  "Store_GetLatestBeforeIndex B s j k = Some v \<longleftrightarrow>
   column B s (vi_index v) k = Some v \<and> vi_index v < j \<and>
     (\<forall>i. vi_index v < i \<and> i < j \<longrightarrow> column B s i k = None)"
  by (auto simp: Store_GetLatestBeforeIndex_def column_def store_versions_def map_versions_def
      item_latest_before_Some split: option.splits)

lemma store_latest_before_None:
  "Store_GetLatestBeforeIndex B s j k = None \<longleftrightarrow> (\<forall>i<j. column B s i k = None)"
  by (auto simp: Store_GetLatestBeforeIndex_def column_def store_versions_def map_versions_def
      item_latest_before_None split: option.splits)

lemma column_index: "column B s i k = Some v \<Longrightarrow> vi_index v = i"
  by (auto simp: column_def store_versions_def map_versions_def item_versions_index split: option.splits)

lemma column_writers:
  assumes "store_inv B s"
  shows "column B (SetWriteset B s i inc ws) =
      (column B s)(i := \<lambda>k. map_option (written i inc) (fmlookup ws k))"
    and "column B (SetEstimatedWriteset B s i inc ws) =
      (column B s)(i := \<lambda>k. map_option (\<lambda>_. NewEstimateItem i inc) (fmlookup ws k))"
    and "column B (InvalidateWriteset B s i inc) =
      (column B s)(i := \<lambda>k. map_option (\<lambda>_. NewEstimateItem i inc) (column B s i k))"
  by (auto simp: column_def fun_eq_iff store_versions_writers [OF assms])

end

section \<open>The store interface\<close>

text \<open>
  The part of the Go interface \<open>MultiVersionStore\<close> its clients (the tracer and the scheduler) rely
  on: each writer replaces the column of one transaction, and a lookup returns the version of the
  nearest lower column that has one.
\<close>

locale multi_version_store =
  fixes getLatestBeforeIndex :: "'st \<Rightarrow> int \<Rightarrow> StorageKey \<Rightarrow> valueItem option"
    and setWriteset :: "'st \<Rightarrow> int \<Rightarrow> int \<Rightarrow> WriteSet \<Rightarrow> 'st"
    and setEstimatedWriteset :: "'st \<Rightarrow> int \<Rightarrow> int \<Rightarrow> WriteSet \<Rightarrow> 'st"
    and invalidateWriteset :: "'st \<Rightarrow> int \<Rightarrow> int \<Rightarrow> 'st"
    and col :: "'st \<Rightarrow> int \<Rightarrow> StorageKey \<rightharpoonup> valueItem"
    and invar :: "'st \<Rightarrow> bool"
  assumes col_index: "col s i k = Some v \<Longrightarrow> vi_index v = i"
    and col_set: "invar s \<Longrightarrow> col (setWriteset s i inc ws) =
      (col s)(i := \<lambda>k. map_option (written i inc) (fmlookup ws k))"
    and col_estimate: "invar s \<Longrightarrow> col (setEstimatedWriteset s i inc ws) =
      (col s)(i := \<lambda>k. map_option (\<lambda>_. NewEstimateItem i inc) (fmlookup ws k))"
    and col_invalidate: "invar s \<Longrightarrow> col (invalidateWriteset s i inc) =
      (col s)(i := \<lambda>k. map_option (\<lambda>_. NewEstimateItem i inc) (col s i k))"
    and invar_set: "invar s \<Longrightarrow> invar (setWriteset s i inc ws)"
    and invar_estimate: "invar s \<Longrightarrow> invar (setEstimatedWriteset s i inc ws)"
    and invar_invalidate: "invar s \<Longrightarrow> invar (invalidateWriteset s i inc)"
    and before_Some: "getLatestBeforeIndex s j k = Some v \<longleftrightarrow>
      col s (vi_index v) k = Some v \<and> vi_index v < j \<and>
        (\<forall>i. vi_index v < i \<and> i < j \<longrightarrow> col s i k = None)"
    and before_None: "getLatestBeforeIndex s j k = None \<longleftrightarrow> (\<forall>i<j. col s i k = None)"
begin

lemmas col_writers = col_set col_estimate col_invalidate

lemma before_cong:
  assumes "\<And>i. i < j \<Longrightarrow> col s i k = col s' i k"
  shows "getLatestBeforeIndex s j k = getLatestBeforeIndex s' j k"
proof (cases "getLatestBeforeIndex s j k")
  case None
  with assms show ?thesis by (metis before_None)
next
  case (Some v)
  moreover have "\<forall>i<j. col s i k = col s' i k" using assms by blast
  ultimately have "getLatestBeforeIndex s' j k = Some v" by (auto simp: before_Some)
  with Some show ?thesis by simp
qed

lemma writers_isolated:
  assumes "invar s" "j \<le> i"
  shows "getLatestBeforeIndex (setWriteset s i inc ws) j k = getLatestBeforeIndex s j k"
    and "getLatestBeforeIndex (setEstimatedWriteset s i inc ws) j k = getLatestBeforeIndex s j k"
    and "getLatestBeforeIndex (invalidateWriteset s i inc) j k = getLatestBeforeIndex s j k"
  using assms by (auto intro: before_cong simp: col_writers)

lemma written_next:
  assumes "invar s" "fmlookup ws k = Some v"
  shows "getLatestBeforeIndex (setWriteset s i inc ws) (i + 1) k = Some (written i inc v)"
  using assms by (simp add: before_Some col_set)

text \<open>A reader above \<open>i\<close> that saw no version above \<open>i\<close> of a key sees the estimate \<open>i\<close> leaves of it.\<close>

lemma estimate_visible:
  assumes "invar s" "getLatestBeforeIndex s j k = Some v" "vi_index v = i"
  shows "getLatestBeforeIndex (invalidateWriteset s i inc) j k = Some (NewEstimateItem i inc)"
  using assms by (auto simp: before_Some col_invalidate)

lemma unwritten_key:
  assumes "invar s" "fmlookup ws k = None"
  shows "getLatestBeforeIndex (setWriteset s i inc ws) (i + 1) k = getLatestBeforeIndex s i k"
proof -
  have "getLatestBeforeIndex (setWriteset s i inc ws) (i + 1) k =
      getLatestBeforeIndex (setWriteset s i inc ws) i k"
  proof (cases "getLatestBeforeIndex (setWriteset s i inc ws) i k")
    case None
    then have "getLatestBeforeIndex (setWriteset s i inc ws) (i + 1) k = None"
      using assms by (auto simp: before_None col_set)
    with None show ?thesis by simp
  next
    case (Some v)
    then have "getLatestBeforeIndex (setWriteset s i inc ws) (i + 1) k = Some v"
      using assms by (auto simp: before_Some col_set split: if_splits)
    with Some show ?thesis by simp
  qed
  with writers_isolated(1) [OF assms(1) order_refl] show ?thesis by simp
qed

end

sublocale value_tree \<subseteq> mvs: multi_version_store "Store_GetLatestBeforeIndex B" "SetWriteset B"
    "SetEstimatedWriteset B" "InvalidateWriteset B" "column B" "store_inv B"
  by unfold_locales
    (simp_all add: column_index column_writers store_inv_ops store_latest_before_Some
      store_latest_before_None)

context value_tree
begin

lemmas store_estimate_visible = mvs.estimate_visible
lemmas store_writers_isolated = mvs.writers_isolated
lemmas store_written_next = mvs.written_next
lemmas store_unwritten_key = mvs.unwritten_key

end

section \<open>What validation decides\<close>

text \<open>
  \<open>store_view\<close> is the value transaction \<open>j\<close> should have read of a key: the nearest lower version,
  the parent's value where there is none, and no value at all where that version is an estimate. A
  read conflicts with the transaction whose version differs from the value read or is an estimate.
\<close>

definition store_view ::
  "'t vtree \<Rightarrow> ('s, 'tx) kaia \<Rightarrow> ('s, 't) Store \<Rightarrow> int \<Rightarrow> StorageKey \<Rightarrow> hash option" where
  "store_view B K s j k =
     (case Store_GetLatestBeforeIndex B s j k of
        None \<Rightarrow> Some (StorageKey_GetValue K k (parentStore s))
      | Some it \<Rightarrow> if vi_estimate it then None else Some (vi_value it))"

definition read_valid ::
  "'t vtree \<Rightarrow> ('s, 'tx) kaia \<Rightarrow> ('s, 't) Store \<Rightarrow> int \<Rightarrow> ReadSet \<Rightarrow> StorageKey \<Rightarrow> bool" where
  "read_valid B K s j rs k \<longleftrightarrow>
     (case fmlookup rs k of None \<Rightarrow> True | Some vs \<Rightarrow> length vs = 1 \<and> store_view B K s j k = Some (vs ! 0))"

definition read_conflict ::
  "'t vtree \<Rightarrow> ('s, 't) Store \<Rightarrow> int \<Rightarrow> ReadSet \<Rightarrow> StorageKey \<Rightarrow> int option" where
  "read_conflict B s j rs k =
     (case fmlookup rs k of
        None \<Rightarrow> None
      | Some vs \<Rightarrow>
          if length vs \<noteq> 1 then None
          else case Store_GetLatestBeforeIndex B s j k of
            None \<Rightarrow> None
          | Some it \<Rightarrow> if vi_estimate it \<or> vi_value it \<noteq> vs ! 0 then Some (vi_index it) else None)"

lemma read_valid_iff:
  "read_valid B K s j rs k \<longleftrightarrow>
   (\<forall>vs. fmlookup rs k = Some vs \<longrightarrow> (\<exists>v. vs = [v] \<and> store_view B K s j k = Some v))"
  by (cases "fmlookup rs k") (auto simp: read_valid_def length_Suc_conv)

lemma read_conflict_iff:
  "read_conflict B s j rs k = Some c \<longleftrightarrow>
   (\<exists>v it. fmlookup rs k = Some [v] \<and> Store_GetLatestBeforeIndex B s j k = Some it \<and>
      (vi_estimate it \<or> vi_value it \<noteq> v) \<and> vi_index it = c)"
proof (cases "\<exists>v. fmlookup rs k = Some [v]")
  case True
  then show ?thesis
    by (auto simp: read_conflict_def split: option.splits)
next
  case False
  then have "length vs \<noteq> 1" if "fmlookup rs k = Some vs" for vs
    using that by (cases vs) auto
  with False show ?thesis
    by (auto simp: read_conflict_def split: option.splits)
qed

lemma checkRead_eq:
  "checkRead B K s j rs k (valid, cs) =
   (valid \<and> read_valid B K s j rs k,
    case read_conflict B s j rs k of None \<Rightarrow> cs | Some c \<Rightarrow> fmupd c () cs)"
  by (auto simp: checkRead_def read_valid_def read_conflict_def store_view_def valueItem_defs Let_def
      split: option.splits)

lemma fold_checkRead:
  "fold (checkRead B K s j rs) ks (valid, cs) = (valid', cs') \<Longrightarrow>
   (valid' \<longleftrightarrow> valid \<and> (\<forall>k\<in>set ks. read_valid B K s j rs k)) \<and>
   fset (fmdom cs') = fset (fmdom cs) \<union> {c. \<exists>k\<in>set ks. read_conflict B s j rs k = Some c}"
proof (induction ks arbitrary: valid cs)
  case Nil
  then show ?case by simp
next
  case (Cons k ks)
  from Cons.prems
  have "fold (checkRead B K s j rs) ks (valid \<and> read_valid B K s j rs k,
      case read_conflict B s j rs k of None \<Rightarrow> cs | Some c \<Rightarrow> fmupd c () cs) = (valid', cs')"
    by (simp add: checkRead_eq)
  from Cons.IH [OF this] show ?case
    by (auto split: option.splits)
qed

lemma checkReadset_in_order_eq:
  assumes "distinct ks" "set ks = fset (fmdom rs)"
  shows "checkReadsetAtIndex_in_order B K ks s j rs =
    ((\<forall>k. read_valid B K s j rs k), sorted_list_of_set {c. \<exists>k. read_conflict B s j rs k = Some c})"
proof -
  obtain valid cs where vc: "fold (checkRead B K s j rs) ks (True, fmempty) = (valid, cs)"
    by fastforce
  have outside: "read_valid B K s j rs k" "read_conflict B s j rs k = None" if "k \<notin> set ks" for k
    using that assms(2) by (auto simp: read_valid_def read_conflict_def in_fmdom_iff split: option.splits)
  have "valid \<longleftrightarrow> (\<forall>k. read_valid B K s j rs k)"
    using fold_checkRead [OF vc] outside(1) by blast
  moreover have "fset (fmdom cs) = {c. \<exists>k. read_conflict B s j rs k = Some c}"
    using fold_checkRead [OF vc, THEN conjunct2] outside(2) by (auto, metis option.distinct(1))
  ultimately show ?thesis
    by (simp add: checkReadsetAtIndex_in_order_def vc fmkeys_alt sorted_sort_id)
qed

lemma ValidateTransactionState_eq:
  "ValidateTransactionState B K s j =
   (case fmlookup (txReadSets s) j of
      None \<Rightarrow> (True, [])
    | Some rs \<Rightarrow> ((\<forall>k. read_valid B K s j rs k),
                  sorted_list_of_set {c. \<exists>k. read_conflict B s j rs k = Some c}))"
  by (simp add: ValidateTransactionState_def checkReadsetAtIndex_def checkReadset_in_order_eq
      split: option.splits)

lemma finite_read_conflicts: "finite {c. \<exists>k. read_conflict B s j rs k = Some c}"
proof -
  have "{c. \<exists>k. read_conflict B s j rs k = Some c} \<subseteq>
      (\<lambda>k. the (read_conflict B s j rs k)) ` fset (fmdom rs)"
    by (force simp: read_conflict_def in_fmdom_iff split: option.splits)
  then show ?thesis by (rule finite_subset) simp
qed

lemma read_conflict_invalid: "read_conflict B s j rs k = Some c \<Longrightarrow> \<not> read_valid B K s j rs k"
  by (auto simp: read_conflict_def read_valid_def store_view_def split: option.splits if_splits)

context value_tree
begin

lemma read_conflict_less: "read_conflict B s j rs k = Some c \<Longrightarrow> c < j"
  by (auto simp: read_conflict_def store_latest_before_Some split: option.splits if_splits)

lemma reads_cong:
  assumes "\<And>i k. i < j \<Longrightarrow> column B s i k = column B s' i k" and "parentStore s = parentStore s'"
  shows "read_valid B K s j rs = read_valid B K s' j rs" "read_conflict B s j rs = read_conflict B s' j rs"
proof -
  have "Store_GetLatestBeforeIndex B s j k = Store_GetLatestBeforeIndex B s' j k" for k
    using assms(1) by (rule mvs.before_cong)
  then show "read_valid B K s j rs = read_valid B K s' j rs" "read_conflict B s j rs = read_conflict B s' j rs"
    by (auto simp: fun_eq_iff read_valid_def read_conflict_def store_view_def assms(2) split: option.splits)
qed

lemma ValidateTransactionState_cong:
  assumes "\<And>i k. i < j \<Longrightarrow> column B s i k = column B s' i k"
    and "fmlookup (txReadSets s) j = fmlookup (txReadSets s') j" and "parentStore s = parentStore s'"
  shows "ValidateTransactionState B K s j = ValidateTransactionState B K s' j"
  using reads_cong(1) [where K = K, OF assms(1,3)] reads_cong(2) [OF assms(1,3)]
  by (simp add: ValidateTransactionState_eq assms(2) split: option.split)

end

section \<open>What writing back stores\<close>

text \<open>
  \<open>final_version\<close> is the version of a key that counts for the final state: the one of the greatest
  index that is not an estimate.
\<close>

definition final_version :: "'t vtree \<Rightarrow> ('s, 't) Store \<Rightarrow> StorageKey \<Rightarrow> valueItem option" where
  "final_version B s k =
     (case fmlookup (multiVersionMap s) k of None \<Rightarrow> None | Some it \<Rightarrow> item_GetLatestNonEstimate B it)"

definition flushed_value :: "'t vtree \<Rightarrow> (int \<Rightarrow> bool) \<Rightarrow> ('s, 't) Store \<Rightarrow> StorageKey \<Rightarrow> hash option" where
  "flushed_value B inRange s k =
     (case final_version B s k of
        None \<Rightarrow> None
      | Some it \<Rightarrow> if inRange (vi_index it) then Some (vi_value it) else None)"

text \<open>Every key of the store is canonical and every version of it storable.\<close>

definition store_storable :: "'t vtree \<Rightarrow> ('s, 'tx) kaia \<Rightarrow> ('s, 't) Store \<Rightarrow> bool" where
  "store_storable B K s \<longleftrightarrow>
     (\<forall>k\<in>fset (fmdom (multiVersionMap s)). canonical_key K k \<and>
        (\<forall>it. final_version B s k = Some it \<longrightarrow> storable K k (vi_value it)))"

context value_tree
begin

lemma final_version_Some:
  "final_version B s k = Some v \<longleftrightarrow>
   column B s (vi_index v) k = Some v \<and> \<not> vi_estimate v \<and>
     (\<forall>i w. vi_index v < i \<longrightarrow> column B s i k = Some w \<longrightarrow> vi_estimate w)"
  by (auto simp: final_version_def column_def store_versions_def map_versions_def
      item_latest_non_estimate_Some split: option.splits)

lemma final_version_None:
  "final_version B s k = None \<longleftrightarrow> (\<forall>i w. column B s i k = Some w \<longrightarrow> vi_estimate w)"
  by (auto simp: final_version_def column_def store_versions_def map_versions_def
      item_latest_non_estimate_None split: option.splits)

lemma writeBackKey_eq:
  "writeBackKey B K inRange s k st =
   Inr (case flushed_value B inRange s k of None \<Rightarrow> st | Some v \<Rightarrow> StorageKey_SetValue K k st v)"
proof -
  have "\<not> vi_estimate v" if "item_GetLatestNonEstimate B it = Some v" for it v
    using that by (simp add: item_latest_non_estimate_Some)
  then show ?thesis
    by (auto simp: writeBackKey_def flushed_value_def final_version_def valueItem_defs split: option.splits)
qed

lemma writeBack_eq:
  "pfold (writeBackKey B K inRange s) ks st =
   Inr (fold (\<lambda>k st. case flushed_value B inRange s k of None \<Rightarrow> st | Some v \<Rightarrow> StorageKey_SetValue K k st v)
          ks st)"
  by (rule pfold_Inr) (simp add: writeBackKey_eq)

end

lemma fold_SetValue:
  assumes "kaia_spec K" "distinct ks" "data_key K k'"
    and "\<And>k. k \<in> set ks \<Longrightarrow> canonical_key K k \<and> (\<forall>v. f k = Some v \<longrightarrow> storable K k v)"
  shows "StorageKey_GetValue K k'
      (fold (\<lambda>k st. case f k of None \<Rightarrow> st | Some v \<Rightarrow> StorageKey_SetValue K k st v) ks st) =
    (case if k' \<in> set ks then f k' else None of None \<Rightarrow> StorageKey_GetValue K k' st | Some v \<Rightarrow> v)"
  using assms(2,4)
proof (induction ks arbitrary: st)
  case Nil
  then show ?case by simp
next
  case (Cons k ks)
  have "StorageKey_GetValue K k' (case f k of None \<Rightarrow> st | Some v \<Rightarrow> StorageKey_SetValue K k st v) =
      (case f k of None \<Rightarrow> StorageKey_GetValue K k' st
       | Some v \<Rightarrow> if k = k' then v else StorageKey_GetValue K k' st)"
    using Cons.prems(2) [of k] kaia_spec.get_set_value [OF assms(1) _ assms(3)]
    by (simp split: option.splits)
  with Cons show ?case by (auto split: option.splits if_splits)
qed

lemma write_back_values:
  assumes "value_tree B" "kaia_spec K" "store_storable B K s"
  shows "\<exists>st'. pfold (writeBackKey B K inRange s) (sort (fmkeys (multiVersionMap s))) st = Inr st' \<and>
    (\<forall>k. data_key K k \<longrightarrow> StorageKey_GetValue K k st' =
      (case flushed_value B inRange s k of None \<Rightarrow> StorageKey_GetValue K k st | Some v \<Rightarrow> v))"
proof -
  let ?ks = "sort (fmkeys (multiVersionMap s))"
  let ?st = "fold (\<lambda>k st. case flushed_value B inRange s k of
      None \<Rightarrow> st | Some v \<Rightarrow> StorageKey_SetValue K k st v) ?ks st"
  have "StorageKey_GetValue K k ?st =
      (case flushed_value B inRange s k of None \<Rightarrow> StorageKey_GetValue K k st | Some v \<Rightarrow> v)"
    if "data_key K k" for k
  proof -
    have "StorageKey_GetValue K k ?st =
        (case if k \<in> set ?ks then flushed_value B inRange s k else None of
           None \<Rightarrow> StorageKey_GetValue K k st | Some v \<Rightarrow> v)"
      using assms(3) by (intro fold_SetValue [OF assms(2) _ that])
        (auto simp: store_storable_def flushed_value_def split: option.splits if_splits)
    moreover have "k \<notin> set ?ks \<Longrightarrow> flushed_value B inRange s k = None"
      by (auto simp: flushed_value_def final_version_def in_fmdom_iff split: option.splits)
    ultimately show ?thesis by (simp split: if_splits)
  qed
  then show ?thesis
    by (intro exI [of _ ?st] conjI allI impI) (rule value_tree.writeBack_eq [OF assms(1)])
qed

lemma write_until_values:
  assumes "value_tree B" "kaia_spec K" "store_storable B K s"
  shows "\<exists>st'. WriteLatestToStoreUntil B K s lo hi st = Inr (sdb_Finalise K st' True False) \<and>
    (\<forall>k. data_key K k \<longrightarrow> StorageKey_GetValue K k st' =
      (case final_version B s k of
         None \<Rightarrow> StorageKey_GetValue K k st
       | Some it \<Rightarrow> if lo \<le> vi_index it \<and> vi_index it < hi then vi_value it else StorageKey_GetValue K k st))"
proof -
  let ?in = "\<lambda>valIdx. \<not> (valIdx < lo \<or> valIdx \<ge> hi)"
  obtain st' where st': "pfold (writeBackKey B K ?in s) (sort (fmkeys (multiVersionMap s))) st = Inr st'"
    and val: "\<And>k. data_key K k \<Longrightarrow> StorageKey_GetValue K k st' =
      (case flushed_value B ?in s k of None \<Rightarrow> StorageKey_GetValue K k st | Some v \<Rightarrow> v)"
    using write_back_values [OF assms, of ?in st] by blast
  have "WriteLatestToStoreUntil B K s lo hi st = Inr (sdb_Finalise K st' True False)"
    unfolding WriteLatestToStoreUntil_def st' by simp
  with val show ?thesis
    by (intro exI [of _ st']) (auto simp: flushed_value_def split: option.splits)
qed

section \<open>Enumeration orders\<close>

lemma updateOrNew_commute:
  "a \<noteq> b \<Longrightarrow> updateOrNew B a f (updateOrNew B b g m) = updateOrNew B b g (updateOrNew B a f m)"
  by (simp add: updateOrNew_def fmupd_reorder_neq)

lemma writeKey_commute:
  "writeKey B i inc ws a \<circ> writeKey B i inc ws b = writeKey B i inc ws b \<circ> writeKey B i inc ws a"
  by (cases "a = b") (auto simp: fun_eq_iff writeKey_def updateOrNew_commute split: option.splits)

lemma estimateKey_commute:
  "estimateKey B i inc a \<circ> estimateKey B i inc b = estimateKey B i inc b \<circ> estimateKey B i inc a"
  by (cases "a = b") (auto simp: fun_eq_iff estimateKey_def updateOrNew_commute)

section \<open>Properties\<close>

text \<open>
  (C2) The store refines its column specification: after \<open>SetWriteset\<close> the column of the transaction is
  exactly the new writeset (whatever an earlier incarnation had written is gone, zero values are
  deletions), after \<open>SetEstimatedWriteset\<close> exactly the estimates of its keys, after
  \<open>InvalidateWriteset\<close> exactly estimates of the keys it had; no other column changes, and a lookup
  below an index finds the version of the nearest lower column.
\<close>

theorem store_refines_columns:
  assumes "value_tree B" "store_inv B s"
  shows "column B (SetWriteset B s i inc ws) =
      (column B s)(i := \<lambda>k. map_option (written i inc) (fmlookup ws k)) \<and>
    column B (SetEstimatedWriteset B s i inc ws) =
      (column B s)(i := \<lambda>k. map_option (\<lambda>_. NewEstimateItem i inc) (fmlookup ws k)) \<and>
    column B (InvalidateWriteset B s i inc) =
      (column B s)(i := \<lambda>k. map_option (\<lambda>_. NewEstimateItem i inc) (column B s i k)) \<and>
    (Store_GetLatestBeforeIndex B s j k = Some v \<longleftrightarrow>
      column B s (vi_index v) k = Some v \<and> vi_index v < j \<and>
        (\<forall>i. vi_index v < i \<and> i < j \<longrightarrow> column B s i k = None))"
  using value_tree.column_writers [OF assms] value_tree.store_latest_before_Some [OF assms(1)]
  by simp

text \<open>A store with a writeset of transaction 1 and one of transaction 2 that shares a key.\<close>

definition sample_store :: "(ref_state, (int, valueItem) fmap) Store" where
  "sample_store =
     SetWriteset map_btree
       (SetWriteset map_btree (NewMultiVersionStore empty_state) 1 0
          (fmap_of_list [(''1:2'', 7), (''1:3'', 0)]))
       2 0 (fmap_of_list [(''1:2'', 8)])"

lemma sample_store_inv: "store_inv map_btree sample_store"
  by (simp add: sample_store_def ref.store_inv_ops)

lemma sample_store_column:
  "column map_btree sample_store =
   (\<lambda>i k. if i = 2 then map_option (written 2 0) (fmlookup (fmap_of_list [(''1:2'', 8)]) k)
          else if i = 1 then map_option (written 1 0) (fmlookup (fmap_of_list [(''1:2'', 7), (''1:3'', 0)]) k)
          else None)"
  by (simp add: sample_store_def ref.column_writers ref.store_inv_ops fun_eq_iff)

theorem store_refines_columns_witness:
  "value_tree map_btree \<and> store_inv map_btree sample_store \<and>
   column map_btree (SetWriteset map_btree sample_store 1 1 (fmap_of_list [(''1:4'', 9)])) 1 ''1:2'' = None \<and>
   column map_btree (SetWriteset map_btree sample_store 1 1 (fmap_of_list [(''1:4'', 9)])) 2 ''1:2'' =
     Some (NewValueItem 2 0 8) \<and>
   column map_btree (InvalidateWriteset map_btree sample_store 1 0) 1 ''1:3'' = Some (NewEstimateItem 1 0)"
proof -
  note cols = store_refines_columns [OF ref.value_tree_axioms sample_store_inv]
  show ?thesis
    using cols [of 1 1 "fmap_of_list [(''1:4'', 9)]"] cols [of 1 0]
    by (simp add: ref.value_tree_axioms sample_store_inv sample_store_column written_def)
qed

text \<open>
  (C21) The store invariant (the recorded writeset keys of a transaction are the sorted keys of its
  column) holds of a new store and is kept by every operation of the store.
\<close>

theorem store_inv_preserved:
  assumes "value_tree B"
  shows "store_inv B (NewMultiVersionStore parent) \<and>
    (store_inv B s \<longrightarrow>
      store_inv B (SetWriteset B s i inc ws) \<and> store_inv B (SetEstimatedWriteset B s i inc ws) \<and>
      store_inv B (InvalidateWriteset B s i inc) \<and> store_inv B (SetReadset s i rs) \<and>
      store_inv B (ClearReadset s i))"
  by (intro conjI impI) (simp_all add: value_tree.store_inv_ops [OF assms] value_tree.store_inv_readsets [OF assms])

theorem store_inv_preserved_witness:
  "value_tree map_btree \<and> store_inv map_btree sample_store \<and>
   store_inv map_btree (InvalidateWriteset map_btree sample_store 2 0)"
  using store_inv_preserved [OF ref.value_tree_axioms, of empty_state sample_store]
  by (simp add: ref.value_tree_axioms sample_store_inv)

text \<open>
  (C32) The random order in which Go ranges over a writeset or a readset does not matter: any
  enumeration of the keys gives the same store, and the same verdict and conflicts.
\<close>

theorem range_order_irrelevant:
  assumes "distinct ks" "set ks = fset (fmdom ws)" and "distinct rks" "set rks = fset (fmdom rs)"
  shows "SetWriteset_in_order B ks s i inc ws = SetWriteset B s i inc ws \<and>
    SetEstimatedWriteset_in_order B ks s i inc ws = SetEstimatedWriteset B s i inc ws \<and>
    checkReadsetAtIndex_in_order B K rks s j rs = checkReadsetAtIndex_in_order B K (fmkeys rs) s j rs"
proof -
  have perm: "mset ks = mset (fmkeys ws)" and sort: "sort ks = fmkeys ws"
    by (rule mset_enumeration [OF assms(1,2)], rule sort_enumeration [OF assms(1,2)])
  have "fold (writeKey B i inc ws) ks = fold (writeKey B i inc ws) (fmkeys ws)"
    by (rule fold_multiset_equiv [OF writeKey_commute perm])
  moreover have "fold (estimateKey B i inc) ks = fold (estimateKey B i inc) (fmkeys ws)"
    by (rule fold_multiset_equiv [OF estimateKey_commute perm])
  moreover have "checkReadsetAtIndex_in_order B K rks s j rs =
      checkReadsetAtIndex_in_order B K (fmkeys rs) s j rs"
    by (simp add: checkReadset_in_order_eq [OF assms(3,4)] checkReadset_in_order_eq)
  ultimately show ?thesis
    by (simp add: SetWriteset_def SetWriteset_in_order_def SetEstimatedWriteset_def sorted_sort_id
        SetEstimatedWriteset_in_order_def Let_def sort)
qed

theorem range_order_irrelevant_witness:
  "SetWriteset_in_order map_btree [''1:3'', ''1:2''] sample_store 4 0 (fmap_of_list [(''1:2'', 7), (''1:3'', 0)]) =
   SetWriteset map_btree sample_store 4 0 (fmap_of_list [(''1:2'', 7), (''1:3'', 0)])"
  using range_order_irrelevant [of "[''1:3'', ''1:2'']" "fmap_of_list [(''1:2'', 7 :: hash), (''1:3'', 0)]"
      "[]" fmempty map_btree sample_store 4 0]
  by (auto simp: fmdom_of_list)


text \<open>
  Transaction 3 read the latest value of one key of the sample store and an outdated value of the
  other (the parent's zero instead of the 8 of transaction 2).
\<close>

definition sample_reads :: "(ref_state, (int, valueItem) fmap) Store" where
  "sample_reads = SetReadset sample_store 3 (fmap_of_list [(''1:2'', [0]), (''1:3'', [0])])"

lemma sample_reads_validate: "ValidateTransactionState map_btree ref_kaia sample_reads 3 = (False, [2])"
  by code_simp


text \<open>
  (C18) The verdict on a transaction cannot be changed by the transactions at its own index or above:
  whatever writeset, estimates or invalidation they store, its validation gives the same result.
\<close>

theorem validation_isolated:
  assumes "value_tree B" "store_inv B s" "j \<le> i"
  shows "ValidateTransactionState B K (SetWriteset B s i inc ws) j = ValidateTransactionState B K s j \<and>
    ValidateTransactionState B K (SetEstimatedWriteset B s i inc ws) j = ValidateTransactionState B K s j \<and>
    ValidateTransactionState B K (InvalidateWriteset B s i inc) j = ValidateTransactionState B K s j"
  using assms(3)
  by (intro conjI value_tree.ValidateTransactionState_cong [OF assms(1)])
    (simp_all add: value_tree.column_writers [OF assms(1,2)])

lemma sample_reads_inv: "store_inv map_btree sample_reads"
  by (simp add: sample_reads_def ref.store_inv_readsets sample_store_inv)

theorem validation_isolated_witness:
  "value_tree map_btree \<and> store_inv map_btree sample_reads \<and> (3::int) \<le> 3 \<and>
   ValidateTransactionState map_btree ref_kaia
     (SetWriteset map_btree sample_reads 3 0 (fmap_of_list [(''1:2'', 0)])) 3 = (False, [2])"
  using validation_isolated [OF ref.value_tree_axioms sample_reads_inv, of 3 3 ref_kaia]
  by (simp add: ref.value_tree_axioms sample_reads_inv sample_reads_validate)



text \<open>
  (C19) Writing back never panics and stores, for every key, the value of the version of the greatest
  index that is not an estimate; keys that have only estimates, or no version, keep the value they
  had. The state finally gets \<open>Finalise(true, false)\<close>.
\<close>

theorem write_latest_correct:
  assumes "value_tree B" "kaia_spec K" "store_storable B K s"
  shows "\<exists>st'. WriteLatestToStore B K s st = Inr (sdb_Finalise K st' True False) \<and>
    (\<forall>k. data_key K k \<longrightarrow>
      (\<forall>it. column B s (vi_index it) k = Some it \<longrightarrow> \<not> vi_estimate it \<longrightarrow>
         (\<forall>i w. vi_index it < i \<longrightarrow> column B s i k = Some w \<longrightarrow> vi_estimate w) \<longrightarrow>
         StorageKey_GetValue K k st' = vi_value it) \<and>
      ((\<forall>i w. column B s i k = Some w \<longrightarrow> vi_estimate w) \<longrightarrow>
         StorageKey_GetValue K k st' = StorageKey_GetValue K k st))"
proof -
  obtain st' where st': "pfold (writeBackKey B K (\<lambda>_. True) s) (sort (fmkeys (multiVersionMap s))) st = Inr st'"
    and val: "\<And>k. data_key K k \<Longrightarrow> StorageKey_GetValue K k st' =
      (case flushed_value B (\<lambda>_. True) s k of None \<Rightarrow> StorageKey_GetValue K k st | Some v \<Rightarrow> v)"
    using write_back_values [OF assms, of "\<lambda>_. True" st] by blast
  have "WriteLatestToStore B K s st = Inr (sdb_Finalise K st' True False)"
    by (simp add: WriteLatestToStore_def st')
  moreover have "StorageKey_GetValue K k st' = vi_value it"
    if "data_key K k" "final_version B s k = Some it" for k it
    using that by (simp add: val flushed_value_def)
  moreover have "StorageKey_GetValue K k st' = StorageKey_GetValue K k st"
    if "data_key K k" "final_version B s k = None" for k
    using that by (simp add: val flushed_value_def)
  ultimately show ?thesis
    by (intro exI [of _ st'])
      (simp add: value_tree.final_version_Some [OF assms(1)] value_tree.final_version_None [OF assms(1)])
qed

lemma sample_store_storable: "store_storable map_btree ref_kaia sample_store"
proof -
  have "fmkeys (multiVersionMap sample_store) = [''1:2'', ''1:3'']"
    "canonical_key ref_kaia ''1:2''" "canonical_key ref_kaia ''1:3''"
    "StorageKey_Slot ref_kaia ''1:2'' \<noteq> NonceKey ref_kaia" "StorageKey_Slot ref_kaia ''1:3'' \<noteq> NonceKey ref_kaia"
    by code_simp+
  then show ?thesis
    by (simp add: store_storable_def storable_def flip: set_fmkeys)
qed

theorem write_latest_correct_witness:
  "value_tree map_btree \<and> kaia_spec ref_kaia \<and> store_storable map_btree ref_kaia sample_store \<and>
   (\<exists>st'. WriteLatestToStore map_btree ref_kaia sample_store empty_state =
      Inr (sdb_Finalise ref_kaia st' True False) \<and> StorageKey_GetValue ref_kaia ''1:2'' st' = 8)"
proof -
  have k: "data_key ref_kaia ''1:2''" by code_simp
  have c: "column map_btree sample_store (vi_index (written 2 0 8)) ''1:2'' = Some (written 2 0 8)"
    "\<And>i w. 2 < i \<Longrightarrow> column map_btree sample_store i ''1:2'' = Some w \<Longrightarrow> vi_estimate w"
    by (simp_all add: sample_store_column)
  obtain st' where "WriteLatestToStore map_btree ref_kaia sample_store empty_state =
      Inr (sdb_Finalise ref_kaia st' True False)" "StorageKey_GetValue ref_kaia ''1:2'' st' = vi_value (written 2 0 8)"
    using write_latest_correct [OF ref.value_tree_axioms refk.kaia_spec_axioms sample_store_storable,
        of empty_state] k c(1) c(2) written_simps(1,3) [of 2 0 8] by metis
  then show ?thesis
    by (intro conjI exI [of _ st'] ref.value_tree_axioms refk.kaia_spec_axioms sample_store_storable) simp_all
qed

text \<open>
  (C20) The partial write-back between rounds never panics and stores a key's value just when the
  version of the greatest index that is not an estimate lies in the range \<open>[lo, hi)\<close>; every other
  key keeps its value.
\<close>

theorem write_until_correct:
  assumes "value_tree B" "kaia_spec K" "store_storable B K s"
  shows "\<exists>st'. WriteLatestToStoreUntil B K s lo hi st = Inr (sdb_Finalise K st' True False) \<and>
    (\<forall>k. data_key K k \<longrightarrow> StorageKey_GetValue K k st' =
      (case final_version B s k of
         None \<Rightarrow> StorageKey_GetValue K k st
       | Some it \<Rightarrow> if lo \<le> vi_index it \<and> vi_index it < hi then vi_value it else StorageKey_GetValue K k st))"
  using assms by (rule write_until_values)

lemma sample_final_version: "final_version map_btree sample_store ''1:2'' = Some (NewValueItem 2 0 8)"
  by code_simp

lemma sample_data_key: "data_key ref_kaia ''1:2''"
  by code_simp

theorem write_until_correct_witness:
  "value_tree map_btree \<and> kaia_spec ref_kaia \<and> store_storable map_btree ref_kaia sample_store \<and>
   (\<exists>st'. WriteLatestToStoreUntil map_btree ref_kaia sample_store 1 3 empty_state =
      Inr (sdb_Finalise ref_kaia st' True False) \<and> StorageKey_GetValue ref_kaia ''1:2'' st' = 8)"
proof -
  obtain st' where "WriteLatestToStoreUntil map_btree ref_kaia sample_store 1 3 empty_state =
      Inr (sdb_Finalise ref_kaia st' True False)" "StorageKey_GetValue ref_kaia ''1:2'' st' = 8"
    using write_until_correct [OF ref.value_tree_axioms refk.kaia_spec_axioms sample_store_storable,
        of 1 3 empty_state] sample_data_key sample_final_version
    by (auto simp: NewValueItem_def)
  then show ?thesis
    by (intro conjI exI [of _ st'] ref.value_tree_axioms refk.kaia_spec_axioms sample_store_storable)
qed

text \<open>
  (C37) The partial write-back skips a key that a later transaction has also written: if some
  transaction at or above \<open>hi\<close> has a version of the key that is not an estimate, the value an
  earlier transaction in \<open>[lo, hi)\<close> wrote is not stored and the key keeps its old value.
\<close>

theorem write_until_skips_overwritten:
  assumes "value_tree B" "kaia_spec K" "store_storable B K s" "data_key K k"
    and "column B s i k = Some w" "\<not> vi_estimate w" "hi \<le> i"
  shows "\<exists>st'. WriteLatestToStoreUntil B K s lo hi st = Inr (sdb_Finalise K st' True False) \<and>
    StorageKey_GetValue K k st' = StorageKey_GetValue K k st"
proof -
  obtain it where it: "final_version B s k = Some it"
    using value_tree.final_version_None [OF assms(1), of s k] assms(5,6) by fastforce
  then have "\<not> vi_index it < i"
    using value_tree.final_version_Some [OF assms(1), of s k it] assms(5,6) by auto
  then have "\<not> vi_index it < hi" using assms(7) by simp
  moreover obtain st' where "WriteLatestToStoreUntil B K s lo hi st = Inr (sdb_Finalise K st' True False)"
    and "StorageKey_GetValue K k st' =
      (case final_version B s k of
         None \<Rightarrow> StorageKey_GetValue K k st
       | Some it \<Rightarrow> if lo \<le> vi_index it \<and> vi_index it < hi then vi_value it else StorageKey_GetValue K k st)"
    using write_until_values [OF assms(1-3)] assms(4) by blast
  ultimately show ?thesis using it by (auto split: if_splits)
qed

theorem write_until_skips_overwritten_witness:
  "value_tree map_btree \<and> kaia_spec ref_kaia \<and> store_storable map_btree ref_kaia sample_store \<and>
   data_key ref_kaia ''1:2'' \<and> column map_btree sample_store 1 ''1:2'' = Some (NewValueItem 1 0 7) \<and>
   column map_btree sample_store 2 ''1:2'' = Some (NewValueItem 2 0 8) \<and>
   \<not> vi_estimate (NewValueItem 2 0 8) \<and> (2::int) \<le> 2 \<and>
   (\<exists>st'. WriteLatestToStoreUntil map_btree ref_kaia sample_store 0 2 empty_state =
      Inr (sdb_Finalise ref_kaia st' True False) \<and>
      StorageKey_GetValue ref_kaia ''1:2'' st' = StorageKey_GetValue ref_kaia ''1:2'' empty_state)"
proof -
  have h: "column map_btree sample_store 2 ''1:2'' = Some (NewValueItem 2 0 8)"
    "\<not> vi_estimate (NewValueItem 2 0 8)" "column map_btree sample_store 1 ''1:2'' = Some (NewValueItem 1 0 7)"
    by (simp_all add: sample_store_column written_def NewValueItem_def)
  show ?thesis
    using write_until_skips_overwritten [OF ref.value_tree_axioms refk.kaia_spec_axioms
        sample_store_storable sample_data_key h(1,2), of 2 0 empty_state] h
    by (simp add: ref.value_tree_axioms refk.kaia_spec_axioms sample_store_storable sample_data_key)
qed

end
