(* ===== verification/Tracer.thy ===== *)
theory Tracer
  imports Store
begin

text \<open>
  The access-list tracer, \<open>multiversion/tracer.go\<close>: attached to the execution of one transaction, it
  collects what the transaction reads and writes. The theory models every method of the tracer,
  shows that a tracer behaves as an overlay of its writeset over the parent state, that its readset
  is always consistent with that state, and what its balance and nonce bookkeeping adds up to.
\<close>

section \<open>State\<close>

datatype tracer_error = ErrReadEstimate | ErrNeedSequentialExecution

record Abort =
  ab_DependentTxIdx :: int
  ab_Err :: tracer_error

definition NewEstimateAbort :: "int \<Rightarrow> Abort" where
  "NewEstimateAbort dependentTxIdx = \<lparr>ab_DependentTxIdx = dependentTxIdx, ab_Err = ErrReadEstimate\<rparr>"

text \<open>
  \<open>gasPrice\<close> and \<open>abortedChannel\<close> are pointers that may be nil. The field \<open>excl\<close>, the set of
  precompiled contracts, is filled and never read; it has no counterpart. The store the tracer
  points to is shared with the scheduler and is an argument of the methods that consult it; no
  hook changes it.
\<close>

record 'tx AccessListTracer =
  tr_readset :: ReadSet
  tr_writeset :: WriteSet
  tr_msg :: 'tx
  tr_gasPrice :: "int option"
  tr_transactionIndex :: int
  tr_incarnation :: int
  tr_abortedChannel :: "Abort chan option"

definition NewAccessListTracer :: "'tx \<Rightarrow> int \<Rightarrow> int \<Rightarrow> Abort chan option \<Rightarrow> 'tx AccessListTracer" where
  "NewAccessListTracer msg transactionIndex incarnation abortedChannel =
     \<lparr>tr_readset = fmempty, tr_writeset = fmempty, tr_msg = msg, tr_gasPrice = None,
      tr_transactionIndex = transactionIndex, tr_incarnation = incarnation,
      tr_abortedChannel = abortedChannel\<rparr>"

definition VersionedIndexedStore :: "'tx \<Rightarrow> int \<Rightarrow> int \<Rightarrow> Abort chan option \<Rightarrow> 'tx AccessListTracer" where
  "VersionedIndexedStore msg index incarnation abortChannel =
     NewAccessListTracer msg index incarnation abortChannel"

definition Tracer_GetReadset :: "'tx AccessListTracer \<Rightarrow> ReadSet" where
  "Tracer_GetReadset a = tr_readset a"

definition Tracer_GetWriteset :: "'tx AccessListTracer \<Rightarrow> WriteSet" where
  "Tracer_GetWriteset a = tr_writeset a"

text \<open>
  \<open>WriteAbort\<close> sends without blocking: on a nil or full channel the \<open>select\<close> takes its default and
  the value is discarded; a send on a closed channel panics.
\<close>

definition WriteAbort :: "'tx AccessListTracer \<Rightarrow> Abort \<Rightarrow> go_panic + 'tx AccessListTracer" where
  "WriteAbort a abort =
     (case tr_abortedChannel a of
        None \<Rightarrow> Inr a
      | Some c \<Rightarrow>
          if ch_closed c then Inl (PanicMsg ''send on closed channel'')
          else case try_send c abort of
            Some c' \<Rightarrow> Inr (a\<lparr>tr_abortedChannel := Some c'\<rparr>)
          | None \<Rightarrow> Inr a)"

section \<open>Reading and writing\<close>

definition UpdateReadSet :: "'tx AccessListTracer \<Rightarrow> StorageKey \<Rightarrow> hash \<Rightarrow> 'tx AccessListTracer" where
  "UpdateReadSet a key value =
     (let rs = (case fmlookup (tr_readset a) key of
                  None \<Rightarrow> fmupd key [] (tr_readset a) | Some _ \<Rightarrow> tr_readset a);
          vals = (case fmlookup rs key of None \<Rightarrow> [] | Some vals \<Rightarrow> vals) in
      if value \<in> set vals then a\<lparr>tr_readset := rs\<rparr>
      else a\<lparr>tr_readset := fmupd key (vals @ [value]) rs\<rparr>)"

definition Tracer_setValue :: "'tx AccessListTracer \<Rightarrow> StorageKey \<Rightarrow> hash \<Rightarrow> 'tx AccessListTracer" where
  "Tracer_setValue a key value =
     (if StorageKey_Bytes key = None then a else a\<lparr>tr_writeset := fmupd key value (tr_writeset a)\<rparr>)"

definition Tracer_Set :: "'tx AccessListTracer \<Rightarrow> StorageKey \<Rightarrow> hash \<Rightarrow> 'tx AccessListTracer" where
  "Tracer_Set a key value = (if StorageKey_Bytes key = None then a else Tracer_setValue a key value)"

definition Tracer_Delete :: "'tx AccessListTracer \<Rightarrow> StorageKey \<Rightarrow> 'tx AccessListTracer" where
  "Tracer_Delete a key = (if StorageKey_Bytes key = None then a else Tracer_setValue a key 0)"

definition Tracer_Get ::
  "'t vtree \<Rightarrow> ('s, 'tx) kaia \<Rightarrow> ('s, 't) Store \<Rightarrow> StorageKey \<Rightarrow> 'tx AccessListTracer \<Rightarrow>
   go_panic + hash \<times> 'tx AccessListTracer" where
  "Tracer_Get B K s key a =
     (if StorageKey_Bytes key = None then Inr (0, a)
      else case fmlookup (tr_writeset a) key of
        Some cacheValue \<Rightarrow> Inr (cacheValue, a)
      | None \<Rightarrow>
        (case fmlookup (tr_readset a) key of
           Some readsetVal \<Rightarrow> (case readsetVal of [] \<Rightarrow> Inl IndexOutOfRange | v # _ \<Rightarrow> Inr (v, a))
         | None \<Rightarrow>
             pbind
               (case Store_GetLatestBeforeIndex B s (tr_transactionIndex a) key of
                  None \<Rightarrow> Inr a
                | Some mvsValue \<Rightarrow>
                    if valueItem_IsEstimate mvsValue
                    then WriteAbort a (NewEstimateAbort (valueItem_Index mvsValue))
                    else Inr a)
               (\<lambda>a. let parentValue = StorageKey_GetValue K key (Store_GetParentState s) in
                    Inr (parentValue, UpdateReadSet a key parentValue))))"

definition Tracer_Has ::
  "'t vtree \<Rightarrow> ('s, 'tx) kaia \<Rightarrow> ('s, 't) Store \<Rightarrow> StorageKey \<Rightarrow> 'tx AccessListTracer \<Rightarrow>
   go_panic + bool \<times> 'tx AccessListTracer" where
  "Tracer_Has B K s key a = pbind (Tracer_Get B K s key a) (\<lambda>(v, a). Inr (v \<noteq> 0, a))"

definition Tracer_ValidGet ::
  "'t vtree \<Rightarrow> ('s, 't) Store \<Rightarrow> StorageKey \<Rightarrow> 'tx AccessListTracer \<Rightarrow> go_panic + 'tx AccessListTracer" where
  "Tracer_ValidGet B s key a =
     (if StorageKey_Bytes key = None then Inr a
      else case Store_GetLatestBeforeIndex B s (tr_transactionIndex a) key of
        None \<Rightarrow> Inr a
      | Some mvsValue \<Rightarrow>
          if valueItem_IsEstimate mvsValue
          then pbind (WriteAbort a (NewEstimateAbort (valueItem_Index mvsValue)))
                 (\<lambda>_. Inl (PanicMsg ''abort''))
          else Inr a)"

definition parseValueAndUpdateReadset ::
  "'tx AccessListTracer \<Rightarrow> StorageKey \<Rightarrow> valueItem \<Rightarrow> hash \<times> 'tx AccessListTracer" where
  "parseValueAndUpdateReadset a key mvsValue =
     (let value = (if valueItem_IsDeleted mvsValue then 0 else valueItem_Value (Some mvsValue)) in
      (value, UpdateReadSet a key value))"

section \<open>Publishing\<close>

definition WriteEstimatesToMultiVersionStore ::
  "'t vtree \<Rightarrow> 'tx AccessListTracer \<Rightarrow> ('s, 't) Store \<Rightarrow> ('s, 't) Store" where
  "WriteEstimatesToMultiVersionStore B a s =
     SetEstimatedWriteset B s (tr_transactionIndex a) (tr_incarnation a) (tr_writeset a)"

definition WriteToMultiVersionStore ::
  "'t vtree \<Rightarrow> 'tx AccessListTracer \<Rightarrow> ('s, 't) Store \<Rightarrow> ('s, 't) Store" where
  "WriteToMultiVersionStore B a s =
     SetReadset (SetWriteset B s (tr_transactionIndex a) (tr_incarnation a) (tr_writeset a))
       (tr_transactionIndex a) (tr_readset a)"

section \<open>Balances and nonces\<close>

definition hashToBig :: "hash \<Rightarrow> int" where
  "hashToBig h = uint h"

definition updateAndSetBalance ::
  "'t vtree \<Rightarrow> ('s, 'tx) kaia \<Rightarrow> ('s, 't) Store \<Rightarrow> address \<Rightarrow> int \<Rightarrow> 'tx AccessListTracer \<Rightarrow>
   go_panic + 'tx AccessListTracer" where
  "updateAndSetBalance B K s address value a =
     pbind (Tracer_Get B K s (ToStorageKey K address (BalanceKey K)) a)
       (\<lambda>(h, a). let newBalance = hashToBig h - value in
                 Inr (Tracer_Set a (ToStorageKey K address (BalanceKey K)) (cm_BigToHash K newBalance)))"

definition updateAndSetNonce ::
  "'t vtree \<Rightarrow> ('s, 'tx) kaia \<Rightarrow> ('s, 't) Store \<Rightarrow> address \<Rightarrow> 'tx AccessListTracer \<Rightarrow>
   go_panic + 'tx AccessListTracer" where
  "updateAndSetNonce B K s address a =
     pbind (Tracer_Get B K s (ToStorageKey K address (NonceKey K)) a)
       (\<lambda>(h, a). Inr (Tracer_Set a (ToStorageKey K address (NonceKey K)) (cm_BigToHash K (hashToBig h + 1))))"

definition handleRatioTransaction ::
  "'t vtree \<Rightarrow> ('s, 'tx) kaia \<Rightarrow> ('s, 't) Store \<Rightarrow> address \<Rightarrow> address \<Rightarrow> 8 word \<Rightarrow> int \<Rightarrow>
   'tx AccessListTracer \<Rightarrow> go_panic + 'tx AccessListTracer" where
  "handleRatioTransaction B K s feePayer sender feeRatio gasFee a =
     (case ty_CalcFeeWithRatio K feeRatio gasFee of (feePayerFee, senderFee) \<Rightarrow>
        pbind (updateAndSetBalance B K s feePayer feePayerFee a)
          (updateAndSetBalance B K s sender senderFee))"

definition handleRegularTransaction ::
  "'t vtree \<Rightarrow> ('s, 'tx) kaia \<Rightarrow> ('s, 't) Store \<Rightarrow> address \<Rightarrow> int \<Rightarrow>
   'tx AccessListTracer \<Rightarrow> go_panic + 'tx AccessListTracer" where
  "handleRegularTransaction B K s feePayer gasFee a = updateAndSetBalance B K s feePayer gasFee a"

section \<open>Hooks\<close>

text \<open>What the hooks use of \<open>vm.EVM\<close> and of \<open>vm.ScopeContext\<close>; the last stack entry is the top.\<close>

record 's vm_EVM =
  evm_GasPrice :: int
  evm_StateDB :: 's

record vm_ScopeContext =
  scope_Stack :: "256 word list"
  scope_Address :: address
  scope_CallerAddress :: address
  scope_Value :: int

datatype vm_OpCode = SLOAD | SSTORE | EXTCODECOPY | EXTCODEHASH | EXTCODESIZE | BALANCE | CALL
  | CALLCODE | SELFDESTRUCT | OtherOpCode byte

definition CaptureStart ::
  "'t vtree \<Rightarrow> ('s, 'tx) kaia \<Rightarrow> ('s, 't) Store \<Rightarrow> 's vm_EVM \<Rightarrow> address \<Rightarrow> address \<Rightarrow> bool \<Rightarrow> int \<Rightarrow>
   'tx AccessListTracer \<Rightarrow> go_panic + 'tx AccessListTracer" where
  "CaptureStart B K s env from to create value a0 =
     (let a = (if tr_gasPrice a0 = None then a0\<lparr>tr_gasPrice := Some (evm_GasPrice env)\<rparr> else a0);
          feePayer = msg_ValidatedFeePayer K (tr_msg a);
          sender = msg_ValidatedSender K (tr_msg a);
          (feeRatio, isRatioTx) = msg_FeeRatio K (tr_msg a);
          gasFee = uint (msg_Gas K (tr_msg a)) * the (tr_gasPrice a) in
      pbind (if isRatioTx then handleRatioTransaction B K s feePayer sender feeRatio gasFee a
             else handleRegularTransaction B K s feePayer gasFee a)
      (\<lambda>a. let isContractSender = sdb_GetCodeSize K (evm_StateDB env) sender > 0 in
       pbind (if isContractSender
              then (if create then updateAndSetNonce B K s sender a else Inr a)
              else updateAndSetNonce B K s sender a)
       (\<lambda>a. pbind (updateAndSetBalance B K s from value a)
              (updateAndSetBalance B K s to (- value)))))"

text \<open>A read whose value is not used.\<close>

definition Tracer_touch ::
  "'t vtree \<Rightarrow> ('s, 'tx) kaia \<Rightarrow> ('s, 't) Store \<Rightarrow> StorageKey \<Rightarrow> 'tx AccessListTracer \<Rightarrow>
   go_panic + 'tx AccessListTracer" where
  "Tracer_touch B K s key a = pbind (Tracer_Get B K s key a) (\<lambda>(v, a). Inr a)"

text \<open>The branch shared by \<open>CALL\<close> and \<open>CALLCODE\<close>.\<close>

definition CaptureCall ::
  "'t vtree \<Rightarrow> ('s, 'tx) kaia \<Rightarrow> ('s, 't) Store \<Rightarrow> vm_ScopeContext \<Rightarrow>
   'tx AccessListTracer \<Rightarrow> go_panic + 'tx AccessListTracer" where
  "CaptureCall B K s scope a =
     (let stackData = scope_Stack scope; stackLen = length stackData in
      if stackLen \<ge> 1 then
        let fromAddr = scope_CallerAddress scope;
            toAddr = u256_Bytes20 K (stackData ! (stackLen - 1));
            value = scope_Value scope in
        if value > 0 \<and> fromAddr \<noteq> toAddr then
          pbind (updateAndSetBalance B K s fromAddr value a)
            (updateAndSetBalance B K s toAddr (- value))
        else Inr a
      else Inr a)"

definition CaptureState ::
  "'t vtree \<Rightarrow> ('s, 'tx) kaia \<Rightarrow> ('s, 't) Store \<Rightarrow> vm_OpCode \<Rightarrow> vm_ScopeContext \<Rightarrow>
   'tx AccessListTracer \<Rightarrow> go_panic + 'tx AccessListTracer" where
  "CaptureState B K s op scope a =
     (let stackData = scope_Stack scope; stackLen = length stackData in
      case op of
        SLOAD \<Rightarrow>
          if stackLen \<ge> 1 then
            let slot = u256_Bytes32 K (stackData ! (stackLen - 1)) in
            Tracer_touch B K s (ToStorageKey K (scope_Address scope) slot) a
          else Inr a
      | SSTORE \<Rightarrow>
          if stackLen \<ge> 2 then
            let slot = u256_Bytes32 K (stackData ! (stackLen - 1));
                value = u256_Bytes K (stackData ! (stackLen - 2)) in
            Inr (Tracer_Set a (ToStorageKey K (scope_Address scope) slot) (cm_BytesToHash K value))
          else Inr a
      | EXTCODECOPY \<Rightarrow>
          if stackLen \<ge> 1 then
            Tracer_touch B K s
              (ToStorageKey K (u256_Bytes20 K (stackData ! (stackLen - 1))) (CodeCopyKey K)) a
          else Inr a
      | EXTCODEHASH \<Rightarrow>
          if stackLen \<ge> 1 then
            Tracer_touch B K s
              (ToStorageKey K (u256_Bytes20 K (stackData ! (stackLen - 1))) (CodeHashKey K)) a
          else Inr a
      | EXTCODESIZE \<Rightarrow>
          if stackLen \<ge> 1 then
            Tracer_touch B K s
              (ToStorageKey K (u256_Bytes20 K (stackData ! (stackLen - 1))) (CodeSizeKey K)) a
          else Inr a
      | BALANCE \<Rightarrow>
          if stackLen \<ge> 1 then
            Tracer_touch B K s
              (ToStorageKey K (u256_Bytes20 K (stackData ! (stackLen - 1))) (BalanceKey K)) a
          else Inr a
      | CALL \<Rightarrow> CaptureCall B K s scope a
      | CALLCODE \<Rightarrow> CaptureCall B K s scope a
      | SELFDESTRUCT \<Rightarrow>
          WriteAbort a \<lparr>ab_DependentTxIdx = tr_transactionIndex a, ab_Err = ErrNeedSequentialExecution\<rparr>
      | OtherOpCode _ \<Rightarrow> Inr a)"

definition CaptureTxEnd ::
  "'t vtree \<Rightarrow> ('s, 'tx) kaia \<Rightarrow> ('s, 't) Store \<Rightarrow> 64 word \<Rightarrow> 'tx AccessListTracer \<Rightarrow>
   go_panic + 'tx AccessListTracer" where
  "CaptureTxEnd B K s restGas a =
     (case tr_gasPrice a of
        None \<Rightarrow> Inl NilDereference
      | Some gasPrice \<Rightarrow>
          let remaining = uint restGas * gasPrice;
              validatedFeePayer = msg_ValidatedFeePayer K (tr_msg a);
              validatedSender = msg_ValidatedSender K (tr_msg a);
              (feeRatio, isRatioTx) = msg_FeeRatio K (tr_msg a) in
          if isRatioTx then
            (case ty_CalcFeeWithRatio K feeRatio remaining of (feePayer, feeSender) \<Rightarrow>
               pbind (updateAndSetBalance B K s validatedFeePayer (- feePayer) a)
                 (updateAndSetBalance B K s validatedSender (- feeSender)))
          else updateAndSetBalance B K s validatedFeePayer (- remaining) a)"

text \<open>
  The calls the EVM makes to its tracer. The remaining hooks (\<open>CaptureTxStart\<close>, \<open>CaptureFault\<close>,
  \<open>CaptureEnter\<close>, \<open>CaptureExit\<close>, \<open>CaptureEnd\<close>) have empty bodies.
\<close>

datatype 's hook =
    HookStart "'s vm_EVM" address address bool int
  | HookState vm_OpCode vm_ScopeContext
  | HookTxEnd "64 word"
  | HookEmpty

fun run_hook ::
  "'t vtree \<Rightarrow> ('s, 'tx) kaia \<Rightarrow> ('s, 't) Store \<Rightarrow> 's hook \<Rightarrow>
   'tx AccessListTracer \<Rightarrow> go_panic + 'tx AccessListTracer" where
  "run_hook B K s (HookStart env from to create value) a = CaptureStart B K s env from to create value a"
| "run_hook B K s (HookState op scope) a = CaptureState B K s op scope a"
| "run_hook B K s (HookTxEnd restGas) a = CaptureTxEnd B K s restGas a"
| "run_hook B K s HookEmpty a = Inr a"

definition run_hooks ::
  "'t vtree \<Rightarrow> ('s, 'tx) kaia \<Rightarrow> ('s, 't) Store \<Rightarrow> 's hook list \<Rightarrow>
   'tx AccessListTracer \<Rightarrow> go_panic + 'tx AccessListTracer" where
  "run_hooks B K s hs a = pfold (run_hook B K s) hs a"

section \<open>Validation by the tracer\<close>

fun validateReadsetLoop ::
  "'t vtree \<Rightarrow> ('s, 'tx) kaia \<Rightarrow> ('s, 't) Store \<Rightarrow> StorageKey list \<Rightarrow>
   'tx AccessListTracer \<Rightarrow> go_panic + bool \<times> 'tx AccessListTracer" where
  "validateReadsetLoop B K s [] a = Inr (True, a)"
| "validateReadsetLoop B K s (key # keys) a =
     (let valueArr = (case fmlookup (tr_readset a) key of None \<Rightarrow> [] | Some vals \<Rightarrow> vals) in
      if length valueArr \<noteq> 1 then Inr (False, a)
      else
        let value = valueArr ! 0 in
        case Store_GetLatestBeforeIndex B s (tr_transactionIndex a) key of
          Some mvsValue \<Rightarrow>
            if valueItem_IsEstimate mvsValue then
              pbind (WriteAbort a (NewEstimateAbort (valueItem_Index mvsValue))) (\<lambda>a. Inr (False, a))
            else if valueItem_IsDeleted mvsValue then
              (if value \<noteq> 0 then Inr (False, a) else validateReadsetLoop B K s keys a)
            else if value \<noteq> valueItem_Value (Some mvsValue) then Inr (False, a)
            else validateReadsetLoop B K s keys a
        | None \<Rightarrow>
            let parentValue = sdb_GetState K (Store_GetParentState s) (StorageKey_Address K key)
                                (StorageKey_Slot K key) in
            if parentValue \<noteq> value then
              Inl (PanicMsg ''we shouldn't ever have a readset conflict in parent store'')
            else validateReadsetLoop B K s keys a)"

definition Tracer_ValidateReadset ::
  "'t vtree \<Rightarrow> ('s, 'tx) kaia \<Rightarrow> ('s, 't) Store \<Rightarrow> 'tx AccessListTracer \<Rightarrow>
   go_panic + bool \<times> 'tx AccessListTracer" where
  "Tracer_ValidateReadset B K s a = validateReadsetLoop B K s (sort (fmkeys (tr_readset a))) a"

section \<open>Slices of call data\<close>

text \<open>
  \<open>getData\<close> computes with \<open>uint64\<close>; slicing with a lower bound above the upper one panics.
\<close>

definition getData :: "('s, 'tx) kaia \<Rightarrow> byte list \<Rightarrow> 64 word \<Rightarrow> 64 word \<Rightarrow> go_panic + byte list" where
  "getData K data start sz =
     (let len = (of_nat (length data) :: 64 word);
          start = (if start > len then len else start);
          end0 = start + sz;
          end1 = (if end0 > len then len else end0) in
      if start > end1 then Inl IndexOutOfRange
      else Inr (cm_RightPadBytes K (take (unat end1 - unat start) (drop (unat start) data)) (sint sz)))"

section \<open>The tracer as an overlay\<close>

text \<open>
  Seen through \<open>Get\<close>, a tracer is the parent state overlaid with its writeset. The invariant of a
  tracer at work: every key of the readset was read once, with the parent's value, and the abort
  channel is open. \<open>tracer_frame\<close> lists what no hook but the first changes.
\<close>

definition tracer_value :: "('s, 'tx) kaia \<Rightarrow> 's \<Rightarrow> 'tx AccessListTracer \<Rightarrow> StorageKey \<Rightarrow> hash" where
  "tracer_value K st a k =
     (case fmlookup (tr_writeset a) k of None \<Rightarrow> StorageKey_GetValue K k st | Some v \<Rightarrow> v)"

definition tracer_inv :: "('s, 'tx) kaia \<Rightarrow> 's \<Rightarrow> 'tx AccessListTracer \<Rightarrow> bool" where
  "tracer_inv K st a \<longleftrightarrow>
     (\<forall>k vs. fmlookup (tr_readset a) k = Some vs \<longrightarrow> vs = [StorageKey_GetValue K k st]) \<and>
     (\<forall>c. tr_abortedChannel a = Some c \<longrightarrow> \<not> ch_closed c)"

definition tracer_frame :: "'tx AccessListTracer \<Rightarrow> 'tx AccessListTracer \<Rightarrow> bool" where
  "tracer_frame a a' \<longleftrightarrow> tr_msg a' = tr_msg a \<and> tr_gasPrice a' = tr_gasPrice a \<and>
     tr_transactionIndex a' = tr_transactionIndex a \<and> tr_incarnation a' = tr_incarnation a"

lemma tracer_frame_refl [simp]: "tracer_frame a a"
  by (simp add: tracer_frame_def)

lemma tracer_frame_trans: "tracer_frame a b \<Longrightarrow> tracer_frame b c \<Longrightarrow> tracer_frame a c"
  by (simp add: tracer_frame_def)

lemma WriteAbort_ok:
  assumes "tracer_inv K st a"
  shows "\<exists>a'. WriteAbort a x = Inr a' \<and> tracer_inv K st a' \<and> tracer_frame a a' \<and>
    tr_writeset a' = tr_writeset a \<and> tr_readset a' = tr_readset a"
  using assms
  by (auto simp: WriteAbort_def tracer_inv_def tracer_frame_def try_send_def split: option.splits)

lemma Tracer_Set_eq [simp]: "Tracer_Set a k v = a\<lparr>tr_writeset := fmupd k v (tr_writeset a)\<rparr>"
  by (simp add: Tracer_Set_def Tracer_setValue_def StorageKey_Bytes_def)

lemma Tracer_Get_ok:
  assumes inv: "tracer_inv K (parentStore s) a"
  shows "\<exists>a'. Tracer_Get B K s k a = Inr (tracer_value K (parentStore s) a k, a') \<and>
    tracer_inv K (parentStore s) a' \<and> tracer_frame a a' \<and> tr_writeset a' = tr_writeset a \<and>
    tr_readset a' =
      (if fmlookup (tr_writeset a) k = None \<and> fmlookup (tr_readset a) k = None
       then fmupd k [StorageKey_GetValue K k (parentStore s)] (tr_readset a) else tr_readset a)"
proof (cases "fmlookup (tr_writeset a) k")
  case (Some v)
  with inv show ?thesis by (simp add: Tracer_Get_def StorageKey_Bytes_def tracer_value_def)
next
  case ws: None
  show ?thesis
  proof (cases "fmlookup (tr_readset a) k")
    case (Some vs)
    with inv have "vs = [StorageKey_GetValue K k (parentStore s)]" by (simp add: tracer_inv_def)
    with ws Some inv show ?thesis by (simp add: Tracer_Get_def StorageKey_Bytes_def tracer_value_def)
  next
    case rs: None
    let ?v = "StorageKey_GetValue K k (parentStore s)"
    let ?m = "case Store_GetLatestBeforeIndex B s (tr_transactionIndex a) k of
        None \<Rightarrow> Inr a
      | Some mvsValue \<Rightarrow> if valueItem_IsEstimate mvsValue
          then WriteAbort a (NewEstimateAbort (valueItem_Index mvsValue)) else Inr a"
    obtain b where b: "?m = Inr b" "tracer_inv K (parentStore s) b" "tracer_frame a b"
      "tr_writeset b = tr_writeset a" "tr_readset b = tr_readset a"
    proof (cases "Store_GetLatestBeforeIndex B s (tr_transactionIndex a) k")
      case None
      with inv that show ?thesis by simp
    next
      case (Some it)
      with inv that WriteAbort_ok [OF inv, of "NewEstimateAbort (valueItem_Index it)"] show ?thesis
        by (cases "valueItem_IsEstimate it") auto
    qed
    then have "Tracer_Get B K s k a = Inr (?v, UpdateReadSet b k ?v)"
      using ws rs by (simp add: Tracer_Get_def StorageKey_Bytes_def Store_GetParentState_def Let_def)
    moreover have "UpdateReadSet b k ?v = b\<lparr>tr_readset := fmupd k [?v] (tr_readset b)\<rparr>"
      using b(5) rs by (simp add: UpdateReadSet_def Let_def)
    ultimately show ?thesis
      using ws rs b by (simp add: tracer_value_def tracer_inv_def tracer_frame_def)
  qed
qed

lemma Tracer_Get_total:
  assumes "tracer_inv K (parentStore s) a"
  obtains a' where "Tracer_Get B K s k a = Inr (tracer_value K (parentStore s) a k, a')"
    "tracer_inv K (parentStore s) a'" "tracer_frame a a'" "tr_writeset a' = tr_writeset a"
  using Tracer_Get_ok [OF assms, of B k] by blast

lemma Tracer_touch_ok:
  assumes "tracer_inv K (parentStore s) a"
  shows "\<exists>a'. Tracer_touch B K s k a = Inr a' \<and> tracer_inv K (parentStore s) a' \<and> tracer_frame a a' \<and>
    tr_writeset a' = tr_writeset a"
  by (rule Tracer_Get_total [OF assms, of B k]) (simp add: Tracer_touch_def)

text \<open>An update of a balance or a nonce is one entry of the writeset.\<close>

lemma updateAndSetBalance_ok:
  assumes "tracer_inv K (parentStore s) a"
  shows "\<exists>a'. updateAndSetBalance B K s addr value a = Inr a' \<and> tracer_inv K (parentStore s) a' \<and>
    tracer_frame a a' \<and>
    tr_writeset a' = fmupd (ToStorageKey K addr (BalanceKey K))
      (cm_BigToHash K (uint (tracer_value K (parentStore s) a (ToStorageKey K addr (BalanceKey K))) - value))
      (tr_writeset a)"
  by (rule Tracer_Get_total [OF assms, of B "ToStorageKey K addr (BalanceKey K)"])
    (simp add: updateAndSetBalance_def hashToBig_def tracer_inv_def tracer_frame_def)

lemma updateAndSetNonce_ok:
  assumes "tracer_inv K (parentStore s) a"
  shows "\<exists>a'. updateAndSetNonce B K s addr a = Inr a' \<and> tracer_inv K (parentStore s) a' \<and>
    tracer_frame a a' \<and>
    tr_writeset a' = fmupd (ToStorageKey K addr (NonceKey K))
      (cm_BigToHash K (uint (tracer_value K (parentStore s) a (ToStorageKey K addr (NonceKey K))) + 1))
      (tr_writeset a)"
  by (rule Tracer_Get_total [OF assms, of B "ToStorageKey K addr (NonceKey K)"])
    (simp add: updateAndSetNonce_def hashToBig_def tracer_inv_def tracer_frame_def)

lemma tracer_value_fmupd:
  "tr_writeset a' = fmupd k v (tr_writeset a) \<Longrightarrow> tracer_value K st a' = (tracer_value K st a)(k := v)"
  by (simp add: tracer_value_def fun_eq_iff)

text \<open>The two bookkeeping updates as functions on the overlay.\<close>

definition debit :: "('s, 'tx) kaia \<Rightarrow> address \<Rightarrow> int \<Rightarrow> (StorageKey \<Rightarrow> hash) \<Rightarrow> StorageKey \<Rightarrow> hash" where
  "debit K addr amount V =
     (let k = ToStorageKey K addr (BalanceKey K) in V(k := cm_BigToHash K (uint (V k) - amount)))"

definition bump :: "('s, 'tx) kaia \<Rightarrow> address \<Rightarrow> (StorageKey \<Rightarrow> hash) \<Rightarrow> StorageKey \<Rightarrow> hash" where
  "bump K addr V = (let k = ToStorageKey K addr (NonceKey K) in V(k := cm_BigToHash K (uint (V k) + 1)))"

lemma balance_step:
  assumes "tracer_inv K (parentStore s) a"
  obtains a' where "updateAndSetBalance B K s addr amount a = Inr a'" "tracer_inv K (parentStore s) a'"
    "tracer_frame a a'" "tracer_value K (parentStore s) a' = debit K addr amount (tracer_value K (parentStore s) a)"
proof -
  from updateAndSetBalance_ok [OF assms, of B addr amount] obtain a' where
    a': "updateAndSetBalance B K s addr amount a = Inr a'" "tracer_inv K (parentStore s) a'" "tracer_frame a a'"
    and w: "tr_writeset a' = fmupd (ToStorageKey K addr (BalanceKey K))
      (cm_BigToHash K (uint (tracer_value K (parentStore s) a (ToStorageKey K addr (BalanceKey K))) - amount))
      (tr_writeset a)"
    by blast
  show thesis using that [OF a'] tracer_value_fmupd [OF w, of K "parentStore s"] by (simp add: debit_def Let_def)
qed

lemma nonce_step:
  assumes "tracer_inv K (parentStore s) a"
  obtains a' where "updateAndSetNonce B K s addr a = Inr a'" "tracer_inv K (parentStore s) a'"
    "tracer_frame a a'" "tracer_value K (parentStore s) a' = bump K addr (tracer_value K (parentStore s) a)"
proof -
  from updateAndSetNonce_ok [OF assms, of B addr] obtain a' where
    a': "updateAndSetNonce B K s addr a = Inr a'" "tracer_inv K (parentStore s) a'" "tracer_frame a a'"
    and w: "tr_writeset a' = fmupd (ToStorageKey K addr (NonceKey K))
      (cm_BigToHash K (uint (tracer_value K (parentStore s) a (ToStorageKey K addr (NonceKey K))) + 1))
      (tr_writeset a)"
    by blast
  show thesis using that [OF a'] tracer_value_fmupd [OF w, of K "parentStore s"] by (simp add: bump_def Let_def)
qed

section \<open>Hooks keep the invariant\<close>

text \<open>
  \<open>kept\<close> is the contract of a tracer step: it did not panic, the invariant holds after it, and it
  changed nothing but the readset, the writeset and the channel.
\<close>

definition kept ::
  "('s, 'tx) kaia \<Rightarrow> 's \<Rightarrow> 'tx AccessListTracer \<Rightarrow> go_panic + 'tx AccessListTracer \<Rightarrow> bool" where
  "kept K st a r \<longleftrightarrow> (\<exists>a'. r = Inr a' \<and> tracer_inv K st a' \<and> tracer_frame a a')"

named_theorems kept_intros

lemma kept_Inr [kept_intros]: "tracer_inv K st a \<Longrightarrow> kept K st a (Inr a)"
  by (simp add: kept_def)

lemma kept_pbind [kept_intros]:
  assumes "kept K st a r" and "\<And>a'. tracer_inv K st a' \<Longrightarrow> kept K st a' (g a')"
  shows "kept K st a (pbind r g)"
  using assms unfolding kept_def by (metis pbind_simps(2) tracer_frame_trans)

lemma kept_touch [kept_intros]:
  "tracer_inv K (parentStore s) a \<Longrightarrow> kept K (parentStore s) a (Tracer_touch B K s k a)"
  unfolding kept_def using Tracer_touch_ok by blast

lemma kept_Set [kept_intros]: "tracer_inv K st a \<Longrightarrow> kept K st a (Inr (a\<lparr>tr_writeset := w\<rparr>))"
  by (simp add: kept_def tracer_inv_def tracer_frame_def)

lemma kept_balance [kept_intros]:
  "tracer_inv K (parentStore s) a \<Longrightarrow> kept K (parentStore s) a (updateAndSetBalance B K s addr value a)"
  unfolding kept_def using updateAndSetBalance_ok by blast

lemma kept_nonce [kept_intros]:
  "tracer_inv K (parentStore s) a \<Longrightarrow> kept K (parentStore s) a (updateAndSetNonce B K s addr a)"
  unfolding kept_def using updateAndSetNonce_ok by blast

lemma kept_abort [kept_intros]: "tracer_inv K st a \<Longrightarrow> kept K st a (WriteAbort a x)"
  unfolding kept_def by (drule WriteAbort_ok [where x = x]) blast

lemma kept_call [kept_intros]:
  "tracer_inv K (parentStore s) a \<Longrightarrow> kept K (parentStore s) a (CaptureCall B K s scope a)"
  by (auto simp: CaptureCall_def Let_def intro!: kept_intros)

lemma kept_CaptureState:
  "tracer_inv K (parentStore s) a \<Longrightarrow> kept K (parentStore s) a (CaptureState B K s op scope a)"
  by (cases op) (auto simp: CaptureState_def Let_def intro!: kept_intros)

lemma kept_ratio [kept_intros]:
  "tracer_inv K (parentStore s) a \<Longrightarrow>
   kept K (parentStore s) a (handleRatioTransaction B K s p q r f a)"
  by (auto simp: handleRatioTransaction_def split_beta intro!: kept_intros)

lemma kept_regular [kept_intros]:
  "tracer_inv K (parentStore s) a \<Longrightarrow> kept K (parentStore s) a (handleRegularTransaction B K s p f a)"
  by (auto simp: handleRegularTransaction_def intro!: kept_intros)

text \<open>The gas price the first hook installs.\<close>

definition priced :: "'s vm_EVM \<Rightarrow> 'tx AccessListTracer \<Rightarrow> 'tx AccessListTracer" where
  "priced env a = (if tr_gasPrice a = None then a\<lparr>tr_gasPrice := Some (evm_GasPrice env)\<rparr> else a)"

lemma kept_CaptureStart:
  assumes "tracer_inv K (parentStore s) a"
  shows "kept K (parentStore s) (priced env a) (CaptureStart B K s env from to create value a)"
proof -
  have "tracer_inv K (parentStore s) (priced env a)"
    using assms by (simp add: priced_def tracer_inv_def)
  then show ?thesis
    unfolding CaptureStart_def priced_def [symmetric]
    by (auto simp: Let_def split_beta intro!: kept_intros)
qed

lemma kept_CaptureTxEnd:
  "tracer_inv K (parentStore s) a \<Longrightarrow> tr_gasPrice a \<noteq> None \<Longrightarrow>
   kept K (parentStore s) a (CaptureTxEnd B K s g a)"
  by (auto simp: CaptureTxEnd_def Let_def split_beta intro!: kept_intros)

text \<open>
  A hook sequence is well-formed when no \<open>CaptureTxEnd\<close> comes before the first \<open>CaptureStart\<close>
  (\<open>started\<close> says whether one has come already).
\<close>

fun well_formed_hooks :: "bool \<Rightarrow> 's hook list \<Rightarrow> bool" where
  "well_formed_hooks started [] = True"
| "well_formed_hooks started (h # hs) =
     (case h of
        HookStart _ _ _ _ _ \<Rightarrow> well_formed_hooks True hs
      | HookTxEnd _ \<Rightarrow> started \<and> well_formed_hooks started hs
      | _ \<Rightarrow> well_formed_hooks started hs)"

lemma run_hooks_ok:
  assumes "tracer_inv K (parentStore s) a" "well_formed_hooks (tr_gasPrice a \<noteq> None) hs"
  shows "\<exists>a'. run_hooks B K s hs a = Inr a' \<and> tracer_inv K (parentStore s) a' \<and>
    tr_msg a' = tr_msg a \<and> tr_transactionIndex a' = tr_transactionIndex a \<and>
    tr_incarnation a' = tr_incarnation a"
  using assms unfolding run_hooks_def
proof (induction hs arbitrary: a)
  case Nil
  then show ?case by simp
next
  case (Cons h hs)
  have "\<exists>b. run_hook B K s h a = Inr b \<and> tracer_inv K (parentStore s) b \<and> tr_msg b = tr_msg a \<and>
      tr_transactionIndex b = tr_transactionIndex a \<and> tr_incarnation b = tr_incarnation a \<and>
      well_formed_hooks (tr_gasPrice b \<noteq> None) hs"
  proof (cases h)
    case (HookStart env src dst create amount)
    with Cons.prems kept_CaptureStart [OF Cons.prems(1), of env B src dst create amount] show ?thesis
      by (auto simp: kept_def tracer_frame_def priced_def split: if_splits)
  next
    case (HookState op scope)
    with Cons.prems kept_CaptureState [OF Cons.prems(1), of B op scope] show ?thesis
      by (auto simp: kept_def tracer_frame_def)
  next
    case (HookTxEnd g)
    with Cons.prems kept_CaptureTxEnd [OF Cons.prems(1), of B g] show ?thesis
      by (auto simp: kept_def tracer_frame_def)
  next
    case HookEmpty
    with Cons.prems show ?thesis by simp
  qed
  then obtain b where b: "run_hook B K s h a = Inr b" "tracer_inv K (parentStore s) b"
    "tr_msg b = tr_msg a" "tr_transactionIndex b = tr_transactionIndex a"
    "tr_incarnation b = tr_incarnation a" "well_formed_hooks (tr_gasPrice b \<noteq> None) hs"
    by blast
  from Cons.IH [OF b(2,6)] b(1,3-5) show ?case by simp
qed

section \<open>What the tracer records depends on the parent state only\<close>

text \<open>
  The versions other transactions have put into the store decide only whether the tracer signals an
  abort. \<open>erase\<close> forgets the abort channel and who the tracer reports for; \<open>sim r r'\<close> says that two
  runs of a step, the second from the erased state, panic alike or end in states that agree up to
  what is erased.
\<close>

definition erase :: "'tx AccessListTracer \<Rightarrow> 'tx AccessListTracer" where
  "erase a = a\<lparr>tr_abortedChannel := None, tr_transactionIndex := 0, tr_incarnation := 0\<rparr>"

definition open_chan :: "'tx AccessListTracer \<Rightarrow> bool" where
  "open_chan a \<longleftrightarrow> (\<forall>c. tr_abortedChannel a = Some c \<longrightarrow> \<not> ch_closed c)"

definition sim :: "go_panic + 'tx AccessListTracer \<Rightarrow> go_panic + 'tx AccessListTracer \<Rightarrow> bool" where
  "sim r r' \<longleftrightarrow> (case r of Inl e \<Rightarrow> r' = Inl e | Inr b \<Rightarrow> open_chan b \<and> r' = Inr (erase b))"

lemma erase_simps [simp]:
  "tr_readset (erase a) = tr_readset a" "tr_writeset (erase a) = tr_writeset a"
  "tr_msg (erase a) = tr_msg a" "tr_gasPrice (erase a) = tr_gasPrice a"
  "tr_transactionIndex (erase a) = 0" "tr_incarnation (erase a) = 0"
  "tr_abortedChannel (erase a) = None"
  "(erase a)\<lparr>tr_writeset := w\<rparr> = erase (a\<lparr>tr_writeset := w\<rparr>)"
  "(erase a)\<lparr>tr_readset := r\<rparr> = erase (a\<lparr>tr_readset := r\<rparr>)"
  "(erase a)\<lparr>tr_gasPrice := p\<rparr> = erase (a\<lparr>tr_gasPrice := p\<rparr>)"
  by (simp_all add: erase_def)

lemma open_chan_updates [simp]:
  "open_chan (a\<lparr>tr_writeset := w\<rparr>) = open_chan a" "open_chan (a\<lparr>tr_readset := r\<rparr>) = open_chan a"
  "open_chan (a\<lparr>tr_gasPrice := p\<rparr>) = open_chan a"
  by (simp_all add: open_chan_def)

named_theorems sim_intros

lemma sim_Inr [sim_intros]: "open_chan a \<Longrightarrow> sim (Inr a) (Inr (erase a))"
  by (simp add: sim_def)

lemma sim_Inl [sim_intros]: "sim (Inl e) (Inl e)"
  by (simp add: sim_def)

lemma sim_pbind [sim_intros]:
  assumes "sim r r'" and "\<And>b. open_chan b \<Longrightarrow> sim (g b) (g' (erase b))"
  shows "sim (pbind r g) (pbind r' g')"
proof (cases r)
  case (Inl e)
  with assms(1) show ?thesis by (simp add: sim_def)
next
  case (Inr b)
  with assms(1) have "open_chan b" "r' = Inr (erase b)" by (simp_all add: sim_def)
  with Inr assms(2) show ?thesis by simp
qed

lemma sim_abort [sim_intros]: "open_chan a \<Longrightarrow> sim (WriteAbort a x) (WriteAbort (erase a) y)"
  by (auto simp: sim_def WriteAbort_def open_chan_def try_send_def erase_def split: option.splits)

lemma erase_UpdateReadSet [simp]: "UpdateReadSet (erase a) k v = erase (UpdateReadSet a k v)"
  by (cases "fmlookup (tr_readset a) k") (simp_all add: UpdateReadSet_def Let_def)

lemma open_chan_UpdateReadSet [simp]: "open_chan (UpdateReadSet a k v) = open_chan a"
  by (simp add: UpdateReadSet_def Let_def)

text \<open>A read, with what follows it, under two stores of the same parent.\<close>

lemma sim_Get:
  assumes "open_chan a" "state_values K (parentStore s) = state_values K (parentStore s')"
    and "\<And>v b. open_chan b \<Longrightarrow> sim (g (v, b)) (g' (v, erase b))"
  shows "sim (pbind (Tracer_Get B K s k a) g) (pbind (Tracer_Get B K s' k (erase a)) g')"
proof -
  have m: "sim (case Store_GetLatestBeforeIndex B s (tr_transactionIndex a) k of
        None \<Rightarrow> Inr a
      | Some it \<Rightarrow> if valueItem_IsEstimate it then WriteAbort a (NewEstimateAbort (valueItem_Index it)) else Inr a)
      (case Store_GetLatestBeforeIndex B s' 0 k of
        None \<Rightarrow> Inr (erase a)
      | Some it \<Rightarrow> if valueItem_IsEstimate it then WriteAbort (erase a) (NewEstimateAbort (valueItem_Index it))
          else Inr (erase a))"
    using assms(1) by (auto simp: sim_def WriteAbort_def open_chan_def try_send_def erase_def
        split: option.splits)
  have v: "StorageKey_GetValue K k (parentStore s) = StorageKey_GetValue K k (parentStore s')"
    using fun_cong [OF assms(2), of k] by (simp add: state_values_def)
  show ?thesis
  proof (cases "fmlookup (tr_writeset a) k = None \<and> fmlookup (tr_readset a) k = None")
    case True
    then show ?thesis
      using assms(3) by (auto simp: Tracer_Get_def StorageKey_Bytes_def Store_GetParentState_def v
          pbind_assoc Let_def simp del: option.case_eq_if intro!: sim_pbind [OF m])
  next
    case False
    then show ?thesis
      using assms(1,3) by (auto simp: Tracer_Get_def StorageKey_Bytes_def sim_Inl split: option.splits list.splits)
  qed
qed

lemma sim_touch [sim_intros]:
  "state_values K (parentStore s) = state_values K (parentStore s') \<Longrightarrow> open_chan a \<Longrightarrow>
   sim (Tracer_touch B K s k a) (Tracer_touch B K s' k (erase a))"
  unfolding Tracer_touch_def by (rule sim_Get) (auto intro!: sim_intros)

lemma sim_balance [sim_intros]:
  "state_values K (parentStore s) = state_values K (parentStore s') \<Longrightarrow> open_chan a \<Longrightarrow>
   sim (updateAndSetBalance B K s addr amount a) (updateAndSetBalance B K s' addr amount (erase a))"
  unfolding updateAndSetBalance_def by (rule sim_Get) (auto simp: Let_def intro!: sim_intros)

lemma sim_nonce [sim_intros]:
  "state_values K (parentStore s) = state_values K (parentStore s') \<Longrightarrow> open_chan a \<Longrightarrow>
   sim (updateAndSetNonce B K s addr a) (updateAndSetNonce B K s' addr (erase a))"
  unfolding updateAndSetNonce_def by (rule sim_Get) (auto simp: Let_def intro!: sim_intros)

lemma sim_call [sim_intros]:
  "state_values K (parentStore s) = state_values K (parentStore s') \<Longrightarrow> open_chan a \<Longrightarrow>
   sim (CaptureCall B K s scope a) (CaptureCall B K s' scope (erase a))"
  by (auto simp: CaptureCall_def Let_def intro!: sim_intros)

lemma sim_CaptureState [sim_intros]:
  "state_values K (parentStore s) = state_values K (parentStore s') \<Longrightarrow> open_chan a \<Longrightarrow>
   sim (CaptureState B K s op scope a) (CaptureState B K s' op scope (erase a))"
  by (cases op) (auto simp: CaptureState_def Let_def intro!: sim_intros)

lemma sim_CaptureStart [sim_intros]:
  "state_values K (parentStore s) = state_values K (parentStore s') \<Longrightarrow> open_chan a \<Longrightarrow>
   sim (CaptureStart B K s env src dst create amount a)
     (CaptureStart B K s' env src dst create amount (erase a))"
  by (auto simp: CaptureStart_def handleRatioTransaction_def handleRegularTransaction_def Let_def
      split_beta intro!: sim_intros)

lemma sim_CaptureTxEnd [sim_intros]:
  "state_values K (parentStore s) = state_values K (parentStore s') \<Longrightarrow> open_chan a \<Longrightarrow>
   sim (CaptureTxEnd B K s g a) (CaptureTxEnd B K s' g (erase a))"
  by (auto simp: CaptureTxEnd_def Let_def split_beta intro!: sim_intros split: option.splits)

lemma sim_run_hook [sim_intros]:
  "state_values K (parentStore s) = state_values K (parentStore s') \<Longrightarrow> open_chan a \<Longrightarrow>
   sim (run_hook B K s h a) (run_hook B K s' h (erase a))"
  by (cases h) (auto intro!: sim_intros)

lemma sim_run_hooks:
  "state_values K (parentStore s) = state_values K (parentStore s') \<Longrightarrow> open_chan a \<Longrightarrow>
   sim (run_hooks B K s hs a) (run_hooks B K s' hs (erase a))"
  unfolding run_hooks_def
  by (induction hs arbitrary: a) (auto intro!: sim_intros)

section \<open>Whom an abort names\<close>

text \<open>
  What a tracer can report. \<open>signals Q i\<close>: after the step the tracer of transaction \<open>i\<close> still has its
  channel, in a state that satisfies \<open>Q\<close>. An abort is sent for an estimate found below the
  transaction (\<open>warns\<close>) or, for the transaction itself, at a \<open>SELFDESTRUCT\<close>.
\<close>

definition chan_sat :: "(Abort chan \<Rightarrow> bool) \<Rightarrow> 'tx AccessListTracer \<Rightarrow> bool" where
  "chan_sat Q a \<longleftrightarrow> (\<exists>c. tr_abortedChannel a = Some c \<and> Q c)"

definition accepts :: "(Abort chan \<Rightarrow> bool) \<Rightarrow> Abort \<Rightarrow> bool" where
  "accepts Q x \<longleftrightarrow> (\<forall>c c'. Q c \<longrightarrow> try_send c x = Some c' \<longrightarrow> Q c')"

definition warns :: "'t vtree \<Rightarrow> ('s, 't) Store \<Rightarrow> int \<Rightarrow> (Abort chan \<Rightarrow> bool) \<Rightarrow> bool" where
  "warns B s i Q \<longleftrightarrow>
     (\<forall>k it. Store_GetLatestBeforeIndex B s i k = Some it \<longrightarrow> vi_estimate it \<longrightarrow>
        accepts Q (NewEstimateAbort (vi_index it)))"

definition self_abort :: "int \<Rightarrow> Abort" where
  "self_abort i = \<lparr>ab_DependentTxIdx = i, ab_Err = ErrNeedSequentialExecution\<rparr>"

definition signals :: "(Abort chan \<Rightarrow> bool) \<Rightarrow> int \<Rightarrow> go_panic + 'tx AccessListTracer \<Rightarrow> bool" where
  "signals Q i r \<longleftrightarrow> (\<forall>b. r = Inr b \<longrightarrow> chan_sat Q b \<and> tr_transactionIndex b = i)"

named_theorems signals_intros

lemma signals_Inr [signals_intros]:
  "chan_sat Q a \<Longrightarrow> tr_transactionIndex a = i \<Longrightarrow> signals Q i (Inr a)"
  by (simp add: signals_def)

lemma signals_Inl [signals_intros]: "signals Q i (Inl e)"
  by (simp add: signals_def)

lemma signals_then:
  assumes "signals Q i r"
    and "\<And>b. chan_sat Q b \<Longrightarrow> tr_transactionIndex b = i \<Longrightarrow> signals Q' i (g b)"
  shows "signals Q' i (pbind r g)"
  using assms by (cases r) (auto simp: signals_def)

lemmas signals_pbind [signals_intros] = signals_then [where Q = Q and Q' = Q for Q]

lemma chan_sat_updates [simp]:
  "chan_sat Q (a\<lparr>tr_writeset := w\<rparr>) = chan_sat Q a" "chan_sat Q (a\<lparr>tr_readset := r\<rparr>) = chan_sat Q a"
  "chan_sat Q (a\<lparr>tr_gasPrice := p\<rparr>) = chan_sat Q a"
  "chan_sat Q (UpdateReadSet a k v) = chan_sat Q a"
  "tr_transactionIndex (UpdateReadSet a k v) = tr_transactionIndex a"
  by (simp_all add: chan_sat_def UpdateReadSet_def Let_def)

lemma signals_abort [signals_intros]:
  "chan_sat Q a \<Longrightarrow> tr_transactionIndex a = i \<Longrightarrow> accepts Q x \<Longrightarrow> signals Q i (WriteAbort a x)"
  by (auto simp: signals_def WriteAbort_def chan_sat_def accepts_def split: option.splits if_splits)

lemma signals_Get:
  assumes w: "warns B s i Q" and a: "chan_sat Q a" "tr_transactionIndex a = i"
    and g: "\<And>v b. chan_sat Q b \<Longrightarrow> tr_transactionIndex b = i \<Longrightarrow> signals Q i (g (v, b))"
  shows "signals Q i (pbind (Tracer_Get B K s k a) g)"
proof -
  have m: "signals Q i (case Store_GetLatestBeforeIndex B s (tr_transactionIndex a) k of
        None \<Rightarrow> Inr a
      | Some it \<Rightarrow> if valueItem_IsEstimate it then WriteAbort a (NewEstimateAbort (valueItem_Index it)) else Inr a)"
    using w a signals_abort [OF a]
    by (auto simp: signals_Inr warns_def valueItem_Index_def valueItem_IsEstimate_def split: option.splits)
  show ?thesis
  proof (cases "fmlookup (tr_writeset a) k = None \<and> fmlookup (tr_readset a) k = None")
    case True
    then show ?thesis
      using g by (auto simp: Tracer_Get_def StorageKey_Bytes_def pbind_assoc Let_def
          simp del: option.case_eq_if intro!: signals_pbind [OF m])
  next
    case False
    then show ?thesis
      using a g by (auto simp: Tracer_Get_def StorageKey_Bytes_def signals_Inl split: option.splits list.splits)
  qed
qed

lemma signals_updates [signals_intros]:
  assumes "warns B s i Q" "chan_sat Q a" "tr_transactionIndex a = i"
  shows "signals Q i (Tracer_touch B K s k a)"
    "signals Q i (updateAndSetBalance B K s addr amount a)"
    "signals Q i (updateAndSetNonce B K s addr a)"
  unfolding Tracer_touch_def updateAndSetBalance_def updateAndSetNonce_def
  using assms by (auto simp: Let_def intro!: signals_Get signals_intros)

lemma signals_run_hook:
  assumes "warns B s i Q" "chan_sat Q a" "tr_transactionIndex a = i"
    and "\<And>scope. h = HookState SELFDESTRUCT scope \<Longrightarrow> accepts Q (self_abort i)"
  shows "signals Q i (run_hook B K s h a)"
proof (cases h)
  case (HookStart env src dst create amount)
  with assms(1-3) show ?thesis
    by (auto simp: CaptureStart_def handleRatioTransaction_def handleRegularTransaction_def Let_def
        split_beta intro!: signals_intros)
next
  case (HookState op scope)
  with assms show ?thesis
    by (cases op) (auto simp: CaptureState_def CaptureCall_def Let_def self_abort_def intro!: signals_intros)
next
  case (HookTxEnd g)
  with assms(1-3) show ?thesis
    by (auto simp: CaptureTxEnd_def Let_def split_beta intro!: signals_intros split: option.splits)
next
  case HookEmpty
  with assms(2,3) show ?thesis by (simp add: signals_Inr)
qed

fun is_selfdestruct :: "'s hook \<Rightarrow> bool" where
  "is_selfdestruct (HookState op scope) = (op = SELFDESTRUCT)"
| "is_selfdestruct _ = False"

lemma signals_run_hooks:
  assumes "warns B s i Q" "chan_sat Q a" "tr_transactionIndex a = i"
    and "list_ex is_selfdestruct hs \<Longrightarrow> accepts Q (self_abort i)"
  shows "signals Q i (run_hooks B K s hs a)"
  unfolding run_hooks_def using assms(2-)
proof (induction hs arbitrary: a)
  case Nil
  then show ?case by (simp add: signals_def)
next
  case (Cons h hs)
  have "signals Q i (run_hook B K s h a)"
    using Cons.prems by (intro signals_run_hook [OF assms(1)]) auto
  with Cons show ?case by (auto intro: signals_pbind)
qed

text \<open>
  The aborts a transaction can find in its channel: one for itself if it selfdestructs, others for
  the estimates below it in the store. A transaction that selfdestructs finds one.
\<close>

definition abort_target :: "'t vtree \<Rightarrow> ('s, 't) Store \<Rightarrow> int \<Rightarrow> bool \<Rightarrow> Abort \<Rightarrow> bool" where
  "abort_target B s i d x \<longleftrightarrow> d \<and> x = self_abort i \<or>
     (\<exists>k it. Store_GetLatestBeforeIndex B s i k = Some it \<and> vi_estimate it \<and> x = NewEstimateAbort (vi_index it))"

lemma accepts_all: "P x \<Longrightarrow> accepts (\<lambda>c. \<forall>x\<in>set (ch_buf c). P x) x"
  by (auto simp: accepts_def try_send_def split: if_splits)

lemma run_hooks_targets:
  assumes "chan_sat (\<lambda>c. \<forall>x\<in>set (ch_buf c). abort_target B s i d x) a" "tr_transactionIndex a = i"
    and "list_ex is_selfdestruct hs \<Longrightarrow> d"
  shows "signals (\<lambda>c. \<forall>x\<in>set (ch_buf c). abort_target B s i d x) i (run_hooks B K s hs a)"
  using assms by (intro signals_run_hooks) (auto simp: warns_def abort_target_def intro!: accepts_all)

lemma accepts_room: "accepts (\<lambda>c. ch_cap c = n) x" "accepts (\<lambda>c. ch_buf c \<noteq> []) x"
  by (auto simp: accepts_def try_send_def split: if_splits)

lemma run_hooks_eta: "run_hooks B K s hs = pfold (run_hook B K s) hs"
  by (rule ext) (simp add: run_hooks_def)

lemma run_hooks_loud:
  assumes "chan_sat (\<lambda>c. ch_cap c = 1) a" "tr_transactionIndex a = i" "list_ex is_selfdestruct hs"
  shows "signals (\<lambda>c. ch_buf c \<noteq> []) i (run_hooks B K s hs a)"
proof -
  from assms(3) obtain hs1 h hs2 where hs: "hs = hs1 @ h # hs2" and h: "is_selfdestruct h"
    by (auto simp: list_ex_iff in_set_conv_decomp)
  then obtain scope where hd: "h = HookState SELFDESTRUCT scope" by (cases h) auto
  have first: "signals (\<lambda>c. ch_cap c = 1) i (run_hooks B K s hs1 a)"
    using assms(1,2) by (intro signals_run_hooks) (auto simp: warns_def intro: accepts_room)
  have kept: "signals (\<lambda>c. ch_buf c \<noteq> []) i (run_hook B K s h b)"
    if "chan_sat (\<lambda>c. ch_cap c = 1) b" "tr_transactionIndex b = i" for b
    using that by (auto simp: hd CaptureState_def WriteAbort_def signals_def chan_sat_def try_send_def
        Let_def split: if_splits option.splits)
  have last: "signals (\<lambda>c. ch_buf c \<noteq> []) i (run_hooks B K s hs2 b)"
    if "chan_sat (\<lambda>c. ch_buf c \<noteq> []) b" "tr_transactionIndex b = i" for b
    using that by (intro signals_run_hooks) (auto simp: warns_def intro: accepts_room)
  have "run_hooks B K s hs a = pbind (run_hooks B K s hs1 a) (\<lambda>b. pbind (run_hook B K s h b) (run_hooks B K s hs2))"
    by (cases "run_hooks B K s hs1 a") (simp_all add: hs run_hooks_eta pfold_append)
  also have "signals (\<lambda>c. ch_buf c \<noteq> []) i \<dots>"
    by (rule signals_then [OF first], rule signals_then [OF kept], assumption, assumption, rule last)
  finally show ?thesis .
qed

section \<open>A write is never withdrawn\<close>

text \<open>\<open>holds k r\<close>: after the step the writeset has an entry for \<open>k\<close>.\<close>

definition holds :: "StorageKey \<Rightarrow> go_panic + 'tx AccessListTracer \<Rightarrow> bool" where
  "holds k r \<longleftrightarrow> (\<forall>b. r = Inr b \<longrightarrow> fmlookup (tr_writeset b) k \<noteq> None)"

named_theorems holds_intros

lemma holds_Inr [holds_intros]: "fmlookup (tr_writeset a) k \<noteq> None \<Longrightarrow> holds k (Inr a)"
  by (simp add: holds_def)

lemma holds_Inl [holds_intros]: "holds k (Inl e)"
  by (simp add: holds_def)

lemma holds_pbind [holds_intros]:
  assumes "holds k r" and "\<And>b. fmlookup (tr_writeset b) k \<noteq> None \<Longrightarrow> holds k (g b)"
  shows "holds k (pbind r g)"
  using assms by (cases r) (auto simp: holds_def)

lemma holds_abort [holds_intros]: "fmlookup (tr_writeset a) k \<noteq> None \<Longrightarrow> holds k (WriteAbort a x)"
  by (auto simp: holds_def WriteAbort_def split: option.splits)

lemma writeset_UpdateReadSet [simp]: "tr_writeset (UpdateReadSet a k v) = tr_writeset a"
  by (simp add: UpdateReadSet_def Let_def)

lemma holds_Get:
  assumes a: "fmlookup (tr_writeset a) k \<noteq> None"
    and g: "\<And>v b. fmlookup (tr_writeset b) k \<noteq> None \<Longrightarrow> holds k (g (v, b))"
  shows "holds k (pbind (Tracer_Get B K s key a) g)"
proof -
  have "holds k (case Store_GetLatestBeforeIndex B s (tr_transactionIndex a) key of
        None \<Rightarrow> Inr a
      | Some it \<Rightarrow> if valueItem_IsEstimate it then WriteAbort a (NewEstimateAbort (valueItem_Index it)) else Inr a)"
    using a holds_abort [OF a] by (auto simp: holds_Inr split: option.split)
  then show ?thesis
    using a g by (auto simp: Tracer_Get_def StorageKey_Bytes_def pbind_assoc Let_def holds_Inl
        split: option.split list.split intro!: holds_pbind)
qed

lemma holds_updates [holds_intros]:
  assumes "fmlookup (tr_writeset a) k \<noteq> None"
  shows "holds k (Tracer_touch B K s key a)"
    "holds k (updateAndSetBalance B K s addr amount a)"
    "holds k (updateAndSetNonce B K s addr a)"
  unfolding Tracer_touch_def updateAndSetBalance_def updateAndSetNonce_def
  using assms by (auto simp: Let_def intro!: holds_Get holds_intros)

lemma holds_run_hook:
  assumes "fmlookup (tr_writeset a) k \<noteq> None"
  shows "holds k (run_hook B K s h a)"
proof (cases h)
  case (HookStart env src dst create amount)
  with assms show ?thesis
    by (auto simp: CaptureStart_def handleRatioTransaction_def handleRegularTransaction_def Let_def
        split_beta intro!: holds_intros)
next
  case (HookState op scope)
  with assms show ?thesis
    by (cases op) (auto simp: CaptureState_def CaptureCall_def Let_def intro!: holds_intros)
next
  case (HookTxEnd g)
  with assms show ?thesis
    by (auto simp: CaptureTxEnd_def Let_def split_beta intro!: holds_intros split: option.splits)
next
  case HookEmpty
  with assms show ?thesis by (simp add: holds_def)
qed

lemma holds_run_hooks: "fmlookup (tr_writeset a) k \<noteq> None \<Longrightarrow> holds k (run_hooks B K s hs a)"
  unfolding run_hooks_def
proof (induction hs arbitrary: a)
  case Nil
  then show ?case by (simp add: holds_def)
next
  case (Cons h hs)
  have "holds k (run_hook B K s h a)" using Cons.prems by (rule holds_run_hook)
  then show ?case unfolding pfold.simps by (rule holds_pbind) (rule Cons.IH)
qed

text \<open>The hooks of a plain transfer, as the sequence of their bookkeeping updates.\<close>

lemma transfer_run:
  assumes "tracer_inv K (parentStore s) a" "tr_gasPrice a = None"
    and "snd (msg_FeeRatio K (tr_msg a)) = False"
    and "msg_ValidatedFeePayer K (tr_msg a) = p" "msg_ValidatedSender K (tr_msg a) = p"
    and "sdb_GetCodeSize K (evm_StateDB env) p = 0"
  shows "\<exists>a'. run_hooks B K s [HookStart env p q create amount, HookTxEnd rest] a = Inr a' \<and>
    tracer_value K (parentStore s) a' =
      debit K p (- (uint rest * evm_GasPrice env)) (debit K q (- amount) (debit K p amount (bump K p
        (debit K p (uint (msg_Gas K (tr_msg a)) * evm_GasPrice env) (tracer_value K (parentStore s) a)))))"
proof -
  let ?V = "tracer_value K (parentStore s)"
  let ?g = "uint (msg_Gas K (tr_msg a))" and ?price = "evm_GasPrice env"
  define b where "b = a\<lparr>tr_gasPrice := Some ?price\<rparr>"
  have b: "tracer_inv K (parentStore s) b" "?V b = ?V a" "tr_msg b = tr_msg a" "tr_gasPrice b = Some ?price"
    using assms(1) by (simp_all add: b_def tracer_inv_def tracer_value_def fun_eq_iff)
  obtain c where c: "updateAndSetBalance B K s p (?g * ?price) b = Inr c" "tracer_inv K (parentStore s) c"
    "tracer_frame b c" "?V c = debit K p (?g * ?price) (?V b)"
    by (rule balance_step [OF b(1)])
  obtain d where d: "updateAndSetNonce B K s p c = Inr d" "tracer_inv K (parentStore s) d"
    "tracer_frame c d" "?V d = bump K p (?V c)"
    by (rule nonce_step [OF c(2)])
  obtain e where e: "updateAndSetBalance B K s p amount d = Inr e" "tracer_inv K (parentStore s) e"
    "tracer_frame d e" "?V e = debit K p amount (?V d)"
    by (rule balance_step [OF d(2)])
  obtain f where f: "updateAndSetBalance B K s q (- amount) e = Inr f" "tracer_inv K (parentStore s) f"
    "tracer_frame e f" "?V f = debit K q (- amount) (?V e)"
    by (rule balance_step [OF e(2)])
  obtain h where h: "updateAndSetBalance B K s p (- (uint rest * ?price)) f = Inr h"
    "?V h = debit K p (- (uint rest * ?price)) (?V f)"
    by (rule balance_step [OF f(2)])
  have frame: "tr_msg f = tr_msg a" "tr_gasPrice f = Some ?price"
    using b(3,4) c(3) d(3) e(3) f(3) by (simp_all add: tracer_frame_def)
  have "CaptureStart B K s env p q create amount a = Inr f"
    using assms(2-6) c(1) d(1) e(1) f(1)
    by (simp add: CaptureStart_def handleRegularTransaction_def b_def [symmetric] b(3,4) Let_def split_beta)
  moreover have "CaptureTxEnd B K s rest f = Inr h"
    using assms(3-5) h(1) by (simp add: CaptureTxEnd_def frame Let_def split_beta)
  ultimately show ?thesis
    using b(2) c(4) d(4) e(4) f(4) h(2) by (simp add: run_hooks_def)
qed

section \<open>Properties\<close>

text \<open>
  (C13) Whatever the EVM does, tracing it is safe: on any sequence of hooks in which \<open>CaptureTxEnd\<close>
  comes after \<open>CaptureStart\<close>, a new tracer does not panic (no empty readset entry is indexed, no
  nil gas price is used, no closed channel is sent to), and at the end every key of its readset
  holds exactly one value, the one of the parent state.
\<close>

theorem tracer_hooks_safe:
  assumes "well_formed_hooks False hs"
  shows "\<exists>a. run_hooks B K s hs (NewAccessListTracer msg i inc (Some (make_chan n))) = Inr a \<and>
    (\<forall>k vs. fmlookup (tr_readset a) k = Some vs \<longrightarrow> vs = [StorageKey_GetValue K k (parentStore s)]) \<and>
    tr_transactionIndex a = i \<and> tr_incarnation a = inc"
proof -
  let ?a = "NewAccessListTracer msg i inc (Some (make_chan n))"
  have "tracer_inv K (parentStore s) ?a" and "tr_gasPrice ?a = None"
    by (simp_all add: tracer_inv_def NewAccessListTracer_def make_chan_def)
  with assms run_hooks_ok [of K s ?a hs B] show ?thesis
    by (auto simp: tracer_inv_def NewAccessListTracer_def)
qed

text \<open>A plain transfer by account 1 with gas limit 100, and the hooks of a run that also loads a slot.\<close>

definition sample_msg :: ref_msg where
  "sample_msg = \<lparr>rm_feePayer = 1, rm_sender = 1, rm_ratio = None, rm_gas = 100,
     rm_src = None, rm_dst = 0, rm_add = 0, rm_destroy = False\<rparr>"

definition funded_state :: ref_state where
  "funded_state = empty_state\<lparr>rs_balance := (\<lambda>a. if a = 1 then 1000 else 0)\<rparr>"

definition sample_env :: "ref_state vm_EVM" where
  "sample_env = \<lparr>evm_GasPrice = 2, evm_StateDB = funded_state\<rparr>"

definition sample_hooks :: "ref_state hook list" where
  "sample_hooks =
     [HookEmpty, HookStart sample_env 1 5 False 30,
      HookState SLOAD \<lparr>scope_Stack = [7], scope_Address = 9, scope_CallerAddress = 1, scope_Value = 0\<rparr>,
      HookTxEnd 40]"

theorem tracer_hooks_safe_witness:
  "well_formed_hooks False sample_hooks \<and>
   (\<exists>a. run_hooks map_btree ref_kaia (NewMultiVersionStore funded_state) sample_hooks
      (NewAccessListTracer sample_msg 3 0 (Some (make_chan 1))) = Inr a \<and> tr_transactionIndex a = 3)"
proof -
  have h: "well_formed_hooks False sample_hooks" by (simp add: sample_hooks_def)
  from h tracer_hooks_safe [OF h, of map_btree ref_kaia "NewMultiVersionStore funded_state" sample_msg 3 0 1]
  show ?thesis by blast
qed

text \<open>
  (C26) \<open>Get\<close> reads the transaction's own last write of a key if it has one and the parent state's value
  otherwise; it changes no write, and records a key in the readset, with the parent's value, just
  when it has neither been written nor read before.
\<close>

theorem tracer_get_overlay:
  assumes "tracer_inv K (parentStore s) a"
  shows "\<exists>a'. Tracer_Get B K s k a =
      Inr (case fmlookup (tr_writeset a) k of Some v \<Rightarrow> v | None \<Rightarrow> StorageKey_GetValue K k (parentStore s), a') \<and>
    tr_writeset a' = tr_writeset a \<and> tracer_inv K (parentStore s) a' \<and>
    tr_readset a' =
      (if fmlookup (tr_writeset a) k = None \<and> fmlookup (tr_readset a) k = None
       then fmupd k [StorageKey_GetValue K k (parentStore s)] (tr_readset a) else tr_readset a)"
  using Tracer_Get_ok [OF assms, of B k] unfolding tracer_value_def
  by (auto split: option.splits)

definition sample_parent :: "(ref_state, (int, valueItem) fmap) Store" where
  "sample_parent = NewMultiVersionStore funded_state"

definition sample_tracer :: "ref_msg AccessListTracer" where
  "sample_tracer = Tracer_Set (NewAccessListTracer sample_msg 3 0 (Some (make_chan 1))) ''9:1'' 77"

lemma sample_tracer_inv: "tracer_inv ref_kaia (parentStore sample_parent) sample_tracer"
  by (simp add: tracer_inv_def sample_tracer_def NewAccessListTracer_def make_chan_def)

theorem tracer_get_overlay_witness:
  "tracer_inv ref_kaia (parentStore sample_parent) sample_tracer \<and>
   (\<exists>a'. Tracer_Get map_btree ref_kaia sample_parent ''9:1'' sample_tracer = Inr (77, a') \<and>
      tr_readset a' = fmempty)"
proof -
  have "fmlookup (tr_writeset sample_tracer) ''9:1'' = Some 77" "tr_readset sample_tracer = fmempty"
    by (simp_all add: sample_tracer_def NewAccessListTracer_def)
  with tracer_get_overlay [OF sample_tracer_inv, of map_btree "''9:1''"] sample_tracer_inv show ?thesis
    by auto
qed

text \<open>
  (C16) The read and write sets of a transaction are a function of the parent state's values and of what
  the EVM did: run the same hooks over two stores whose parents have the same values, whatever other
  transactions have published in them, from tracers that differ at most in their index, incarnation
  and abort channel, and the tracers end equal up to these three.
\<close>

theorem tracer_ignores_versions:
  assumes "state_values K (parentStore s) = state_values K (parentStore s')" "open_chan a" "open_chan a'"
    and "erase a = erase a'"
  shows "map_sum id erase (run_hooks B K s hs a) = map_sum id erase (run_hooks B K s' hs a')"
  using sim_run_hooks [OF assms(1,2), of B hs] sim_run_hooks [where s = s' and s' = s' and K = K and B = B and hs = hs, OF refl assms(3)] assms(4)
  unfolding sim_def by (auto split: sum.splits)

theorem tracer_ignores_versions_witness:
  "state_values ref_kaia (parentStore sample_store) =
     state_values ref_kaia (parentStore (NewMultiVersionStore empty_state)) \<and>
   open_chan sample_tracer \<and> open_chan (sample_tracer\<lparr>tr_incarnation := 1\<rparr>) \<and>
   erase sample_tracer = erase (sample_tracer\<lparr>tr_incarnation := 1\<rparr>) \<and>
   map_sum id erase (run_hooks map_btree ref_kaia sample_store sample_hooks sample_tracer) =
   map_sum id erase (run_hooks map_btree ref_kaia (NewMultiVersionStore empty_state) sample_hooks
     (sample_tracer\<lparr>tr_incarnation := 1\<rparr>))"
proof -
  have h: "state_values ref_kaia (parentStore sample_store) =
      state_values ref_kaia (parentStore (NewMultiVersionStore empty_state))"
    "open_chan sample_tracer" "open_chan (sample_tracer\<lparr>tr_incarnation := 1\<rparr>)"
    "erase sample_tracer = erase (sample_tracer\<lparr>tr_incarnation := 1\<rparr>)"
    by (simp_all add: sample_store_def NewMultiVersionStore_def open_chan_def sample_tracer_def
        NewAccessListTracer_def make_chan_def erase_def)
  from h tracer_ignores_versions [OF h, of map_btree sample_hooks] show ?thesis by blast
qed

text \<open>
  The abort channel of capacity one keeps the first abort: after any sequence of aborts the task
  finds exactly the first of them, and sending never blocks or panics.
\<close>

lemma first_abort_kept:
  assumes "tr_abortedChannel a = Some (make_chan 1)"
  shows "pfold (\<lambda>x a. WriteAbort a x) xs a =
    Inr (a\<lparr>tr_abortedChannel := Some ((make_chan 1)\<lparr>ch_buf := take 1 xs\<rparr>)\<rparr>)"
proof (cases xs)
  case Nil
  with assms show ?thesis by (simp add: make_chan_def)
next
  case (Cons x ys)
  have full: "pfold (\<lambda>x a. WriteAbort a x) ys b = Inr b"
    if "tr_abortedChannel b = Some ((make_chan 1)\<lparr>ch_buf := [x]\<rparr>)" for b
    using that by (induction ys) (simp_all add: WriteAbort_def make_chan_def try_send_def)
  have "WriteAbort a x = Inr (a\<lparr>tr_abortedChannel := Some ((make_chan 1)\<lparr>ch_buf := [x]\<rparr>)\<rparr>)"
    using assms by (simp add: WriteAbort_def make_chan_def try_send_def)
  with Cons full [of "a\<lparr>tr_abortedChannel := Some ((make_chan 1)\<lparr>ch_buf := [x]\<rparr>)\<rparr>"] show ?thesis by simp
qed

text \<open>
  (C25) The bookkeeping of a plain value transfer adds up. For a transaction without fee ratio whose
  sender pays the fee, has no code and can afford gas limit times gas price plus the amount, the
  tracer ends (after \<open>CaptureStart\<close> and \<open>CaptureTxEnd\<close>) with the sender's balance reduced by the
  amount and the price of the gas used, the receiver's balance raised by the amount, and the
  sender's nonce raised by one.
\<close>

theorem transfer_accounting:
  assumes "common_spec K" "tracer_inv K (parentStore s) a" "tr_gasPrice a = None"
    and "snd (msg_FeeRatio K (tr_msg a)) = False"
    and "msg_ValidatedFeePayer K (tr_msg a) = p" "msg_ValidatedSender K (tr_msg a) = p" "p \<noteq> q"
    and "sdb_GetCodeSize K (evm_StateDB env) p = 0"
    and "0 \<le> evm_GasPrice env" "0 \<le> amount" "rest \<le> msg_Gas K (tr_msg a)"
    and "uint (msg_Gas K (tr_msg a)) * evm_GasPrice env + amount \<le>
      uint (tracer_value K (parentStore s) a (ToStorageKey K p (BalanceKey K)))"
    and "uint (tracer_value K (parentStore s) a (ToStorageKey K q (BalanceKey K))) + amount < 2 ^ 256"
    and "uint (tracer_value K (parentStore s) a (ToStorageKey K p (NonceKey K))) + 1 < 2 ^ 256"
  shows "\<exists>a'. run_hooks B K s [HookStart env p q create amount, HookTxEnd rest] a = Inr a' \<and>
    uint (tracer_value K (parentStore s) a' (ToStorageKey K p (BalanceKey K))) =
      uint (tracer_value K (parentStore s) a (ToStorageKey K p (BalanceKey K))) - amount -
        (uint (msg_Gas K (tr_msg a)) - uint rest) * evm_GasPrice env \<and>
    uint (tracer_value K (parentStore s) a' (ToStorageKey K q (BalanceKey K))) =
      uint (tracer_value K (parentStore s) a (ToStorageKey K q (BalanceKey K))) + amount \<and>
    uint (tracer_value K (parentStore s) a' (ToStorageKey K p (NonceKey K))) =
      uint (tracer_value K (parentStore s) a (ToStorageKey K p (NonceKey K))) + 1"
proof -
  let ?V = "tracer_value K (parentStore s)"
  let ?bp = "ToStorageKey K p (BalanceKey K)" and ?bq = "ToStorageKey K q (BalanceKey K)"
  let ?np = "ToStorageKey K p (NonceKey K)"
  let ?g = "uint (msg_Gas K (tr_msg a))" and ?price = "evm_GasPrice env"
  obtain h where run: "run_hooks B K s [HookStart env p q create amount, HookTxEnd rest] a = Inr h"
    and V: "?V h = debit K p (- (uint rest * ?price)) (debit K q (- amount) (debit K p amount (bump K p
        (debit K p (?g * ?price) (?V a)))))"
    using transfer_run [OF assms(2-6,8)] by blast
  have keys: "?bp \<noteq> ?np" "?bp \<noteq> ?bq" "?bq \<noteq> ?np"
    using assms(7) by (simp_all add: common_spec.ToStorageKey_inject [OF assms(1)]
        common_spec.reserved_keys_values [OF assms(1)])
  have range: "0 \<le> ?g * ?price" "0 \<le> uint rest * ?price" "uint rest * ?price \<le> ?g * ?price"
    using assms(9,11) by (simp_all add: mult_right_mono word_le_def)
  have bound: "uint (?V a ?bp) < 2 ^ 256"
    using uint_bounded [of "?V a ?bp"] by simp
  note H = common_spec.uint_BigToHash [OF assms(1)] debit_def bump_def Let_def
  have "uint (?V h ?np) = uint (?V a ?np) + 1"
    using assms(14) keys by (simp add: V H)
  moreover have "uint (?V h ?bq) = uint (?V a ?bq) + amount"
    using assms(10,13) keys by (simp add: V H)
  moreover have "uint (?V h ?bp) = uint (?V a ?bp) - ?g * ?price - amount + uint rest * ?price"
    using assms(10,12) range bound keys by (simp add: V H)
  ultimately show ?thesis
    using run by (simp add: left_diff_distrib)
qed

lemma sample_transfer_values:
  "tracer_value ref_kaia (parentStore sample_parent) sample_tracer
     (ToStorageKey ref_kaia 1 (BalanceKey ref_kaia)) = 1000"
  "tracer_value ref_kaia (parentStore sample_parent) sample_tracer
     (ToStorageKey ref_kaia 5 (BalanceKey ref_kaia)) = 0"
  "tracer_value ref_kaia (parentStore sample_parent) sample_tracer
     (ToStorageKey ref_kaia 1 (NonceKey ref_kaia)) = 0"
proof -
  have "''9:1'' = ToStorageKey ref_kaia 9 1" by code_simp
  then have w: "fmlookup (tr_writeset sample_tracer) (ToStorageKey ref_kaia a l) = (if a = 9 \<and> l = 1 then Some 77 else None)" for a l
    by (simp add: sample_tracer_def NewAccessListTracer_def)
  show "tracer_value ref_kaia (parentStore sample_parent) sample_tracer
     (ToStorageKey ref_kaia 1 (BalanceKey ref_kaia)) = 1000"
    "tracer_value ref_kaia (parentStore sample_parent) sample_tracer
     (ToStorageKey ref_kaia 5 (BalanceKey ref_kaia)) = 0"
    "tracer_value ref_kaia (parentStore sample_parent) sample_tracer
     (ToStorageKey ref_kaia 1 (NonceKey ref_kaia)) = 0"
    by (simp_all add: tracer_value_def w StorageKey_GetValue_def sample_parent_def NewMultiVersionStore_def Let_def
        refk.reserved_keys_values funded_state_def empty_state_def)
      (simp_all add: ref_kaia_def)
qed

theorem transfer_accounting_witness:
  "common_spec ref_kaia \<and> tracer_inv ref_kaia (parentStore sample_parent) sample_tracer \<and>
   (\<exists>a'. run_hooks map_btree ref_kaia sample_parent
        [HookStart sample_env 1 5 False 30, HookTxEnd 40] sample_tracer = Inr a' \<and>
      uint (tracer_value ref_kaia (parentStore sample_parent) a'
        (ToStorageKey ref_kaia 1 (BalanceKey ref_kaia))) = 850 \<and>
      uint (tracer_value ref_kaia (parentStore sample_parent) a'
        (ToStorageKey ref_kaia 5 (BalanceKey ref_kaia))) = 30 \<and>
      uint (tracer_value ref_kaia (parentStore sample_parent) a'
        (ToStorageKey ref_kaia 1 (NonceKey ref_kaia))) = 1)"
proof -
  have m: "tr_msg sample_tracer = sample_msg" "tr_gasPrice sample_tracer = None"
    "evm_GasPrice sample_env = 2" "msg_Gas ref_kaia sample_msg = 100"
    "snd (msg_FeeRatio ref_kaia sample_msg) = False" "msg_ValidatedFeePayer ref_kaia sample_msg = 1"
    "msg_ValidatedSender ref_kaia sample_msg = 1" "sdb_GetCodeSize ref_kaia (evm_StateDB sample_env) 1 = 0"
    by (simp_all add: sample_tracer_def NewAccessListTracer_def sample_env_def sample_msg_def ref_kaia_def)
  show ?thesis
    using transfer_accounting [OF refk.common_spec_axioms sample_tracer_inv, of 1 5 sample_env 30 40 map_btree False]
    by (simp add: m sample_transfer_values refk.common_spec_axioms sample_tracer_inv)
qed

text \<open>
  (C38) A write is never withdrawn: once an \<open>SSTORE\<close> has been traced, its slot is in the writeset of the
  transaction whatever hooks follow, the report of a fault or the end of a frame with an error
  included. The storage a reverted call wrote is published like any other.
\<close>

theorem reverted_write_kept:
  assumes "run_hooks B K s (HookState SSTORE scope # hs) a = Inr a'" "scope_Stack scope = stack @ [v, l]"
  shows "fmlookup (tr_writeset a') (ToStorageKey K (scope_Address scope) (u256_Bytes32 K l)) \<noteq> None"
proof -
  let ?k = "ToStorageKey K (scope_Address scope) (u256_Bytes32 K l)"
  have "CaptureState B K s SSTORE scope a =
      Inr (a\<lparr>tr_writeset := fmupd ?k (cm_BytesToHash K (u256_Bytes K v)) (tr_writeset a)\<rparr>)"
    using assms(2) by (simp add: CaptureState_def Let_def nth_append)
  with assms(1) have "run_hooks B K s hs
      (a\<lparr>tr_writeset := fmupd ?k (cm_BytesToHash K (u256_Bytes K v)) (tr_writeset a)\<rparr>) = Inr a'"
    by (simp add: run_hooks_def)
  moreover have "holds ?k (run_hooks B K s hs
      (a\<lparr>tr_writeset := fmupd ?k (cm_BytesToHash K (u256_Bytes K v)) (tr_writeset a)\<rparr>))"
    by (rule holds_run_hooks) simp
  ultimately show ?thesis by (simp add: holds_def)
qed

theorem reverted_write_kept_witness:
  "\<exists>a'. run_hooks map_btree ref_kaia sample_parent
      [HookState SSTORE \<lparr>scope_Stack = [5, 3], scope_Address = 9, scope_CallerAddress = 1, scope_Value = 0\<rparr>,
       HookEmpty] sample_tracer = Inr a' \<and>
    fmlookup (tr_writeset a') (ToStorageKey ref_kaia 9 (u256_Bytes32 ref_kaia 3)) \<noteq> None"
proof -
  let ?scope = "\<lparr>scope_Stack = [5, 3], scope_Address = 9, scope_CallerAddress = 1, scope_Value = 0\<rparr>"
  obtain a' where "run_hooks map_btree ref_kaia sample_parent [HookState SSTORE ?scope, HookEmpty] sample_tracer = Inr a'"
    by (simp add: run_hooks_def CaptureState_def Let_def)
  with reverted_write_kept [OF this, of "[]" 5 3] show ?thesis by auto
qed

text \<open>
  Storage and balances share one name space: an \<open>SSTORE\<close> to the slot whose number is the reserved
  \<open>BalanceKey\<close> is recorded under the key of the contract's balance, and writing that key back sets the
  balance of the contract to the stored word.
\<close>

lemma sstore_aliases_balance:
  assumes "common_spec K" "scope_Stack scope = stack @ [v, l]" "u256_Bytes32 K l = BalanceKey K"
  shows "\<exists>a' k. CaptureState B K s SSTORE scope a = Inr a' \<and>
    k = ToStorageKey K (scope_Address scope) (BalanceKey K) \<and>
    fmlookup (tr_writeset a') k = Some (cm_BytesToHash K (u256_Bytes K v)) \<and>
    StorageKey_SetValue K k st (cm_BytesToHash K (u256_Bytes K v)) =
      sdb_SetBalance K st (scope_Address scope) (uint (cm_BytesToHash K (u256_Bytes K v)))"
  using assms(2,3) by (simp add: CaptureState_def StorageKey_SetValue_def Let_def nth_append
      common_spec.Address_ToStorageKey [OF assms(1)] common_spec.Slot_ToStorageKey [OF assms(1)])

text \<open>
  (C40) A debit beyond the balance is not refused and not recorded as negative: the balance recorded is
  the amount that is missing, since a hash is made from the absolute value of an integer.
\<close>

theorem overdraft_recorded_positive:
  assumes "common_spec K" "tracer_inv K (parentStore s) a" "amount < 2 ^ 256"
    and "uint (tracer_value K (parentStore s) a (ToStorageKey K addr (BalanceKey K))) < amount"
  shows "\<exists>a'. updateAndSetBalance B K s addr amount a = Inr a' \<and>
    uint (tracer_value K (parentStore s) a' (ToStorageKey K addr (BalanceKey K))) =
      amount - uint (tracer_value K (parentStore s) a (ToStorageKey K addr (BalanceKey K)))"
proof -
  let ?b = "uint (tracer_value K (parentStore s) a (ToStorageKey K addr (BalanceKey K)))"
  obtain a' where a': "updateAndSetBalance B K s addr amount a = Inr a'"
    "tracer_value K (parentStore s) a' = debit K addr amount (tracer_value K (parentStore s) a)"
    by (rule balance_step [OF assms(2)])
  have "\<bar>?b - amount\<bar> = \<bar>amount - ?b\<bar>" "0 \<le> amount - ?b" "amount - ?b < 2 ^ 256"
    using assms(3,4) uint_ge_0 [of "tracer_value K (parentStore s) a (ToStorageKey K addr (BalanceKey K))"]
    by linarith+
  then have "uint (cm_BigToHash K (?b - amount)) = amount - ?b"
    using common_spec.uint_BigToHash [OF assms(1), of "amount - ?b"] common_spec.BigToHash_spec [OF assms(1)]
    by metis
  with a' show ?thesis by (simp add: debit_def Let_def)
qed

theorem overdraft_recorded_positive_witness:
  "common_spec ref_kaia \<and> tracer_inv ref_kaia (parentStore sample_parent) sample_tracer \<and>
   (\<exists>a'. updateAndSetBalance map_btree ref_kaia sample_parent 5 70 sample_tracer = Inr a' \<and>
      uint (tracer_value ref_kaia (parentStore sample_parent) a' (ToStorageKey ref_kaia 5 (BalanceKey ref_kaia))) = 70)"
  using overdraft_recorded_positive [OF refk.common_spec_axioms sample_tracer_inv, of 70 5 map_btree]
  by (simp add: sample_transfer_values refk.common_spec_axioms sample_tracer_inv)

text \<open>
  (C33) \<open>getData\<close> returns the requested slice, cut at the end of the data and padded to the requested
  size, except where the start (cut at the length) plus the size does not fit 64 bits: there the sum
  wraps around, the slice bounds are out of order and it panics.
\<close>

theorem getData_exact:
  assumes "length data < 2 ^ 64"
  shows "getData K data start sz =
    (if min (unat start) (length data) + unat sz < 2 ^ 64
     then Inr (cm_RightPadBytes K (take (unat sz) (drop (unat start) data)) (sint sz))
     else Inl IndexOutOfRange)"
proof -
  define len where "len = (of_nat (length data) :: 64 word)"
  have len: "unat len = length data" using assms by (simp add: len_def unat_of_nat)
  define st where "st = (if start > len then len else start)"
  have st: "unat st = min (unat start) (length data)"
    by (auto simp: st_def word_less_nat_alt len)
  define en where "en = (if st + sz > len then len else st + sz)"
  have g: "getData K data start sz = (if st > en then Inl IndexOutOfRange
      else Inr (cm_RightPadBytes K (take (unat en - unat st) (drop (unat st) data)) (sint sz)))"
    by (simp add: getData_def Let_def len_def st_def en_def)
  have sum: "unat (st + sz) = (unat st + unat sz) mod 2 ^ 64"
    using unat_word_ariths(1) [of st sz] by simp
  have sz: "unat sz < 2 ^ 64" using unsigned_less [of sz, where ?'a = nat] by simp
  show ?thesis
  proof (cases "min (unat start) (length data) + unat sz < 2 ^ 64")
    case True
    then have en: "unat en = min (unat st + unat sz) (length data)"
      by (auto simp: en_def word_less_nat_alt len sum st)
    then have "\<not> st > en" using st by (simp add: word_less_nat_alt)
    moreover have "take (unat en - unat st) (drop (unat st) data) = take (unat sz) (drop (unat start) data)"
      by (cases "unat start \<le> length data") (auto simp: en st min_def)
    ultimately show ?thesis using True g by simp
  next
    case False
    then have "unat st + unat sz \<ge> 2 ^ 64" by (simp only: st not_less)
    moreover have "unat st < 2 ^ 64" using unsigned_less [of st, where ?'a = nat] by simp
    ultimately have "unat (st + sz) = unat st + unat sz - 2 ^ 64"
      using sz unfolding sum by (intro mod_once) linarith+
    with sz \<open>unat st + unat sz \<ge> 2 ^ 64\<close> have "unat (st + sz) < unat st" by linarith
    then have "unat en < unat st" using st by (auto simp: en_def word_less_nat_alt len)
    with False g show ?thesis by (simp add: word_less_nat_alt)
  qed
qed

theorem getData_exact_witness:
  "length [1, 2, 3 :: byte] < 2 ^ 64 \<and> getData ref_kaia [1, 2, 3] 1 4 = Inr [2, 3, 0, 0] \<and>
   getData ref_kaia [1, 2, 3] 1 0xffffffffffffffff = Inl IndexOutOfRange"
proof -
  have len: "length [1, 2, 3 :: byte] < 2 ^ 64" by simp
  have "cm_RightPadBytes ref_kaia [2, 3] 4 = [2, 3, 0, 0]" by code_simp
  moreover have "sint (4 :: 64 word) = 4" "unat (4 :: 64 word) = 4" by code_simp+
  ultimately have "getData ref_kaia [1, 2, 3] 1 4 = Inr [2, 3, 0, 0]"
    using getData_exact [OF len, of ref_kaia 1 4] by simp
  moreover have "\<not> min (unat (1 :: 64 word)) (length [1, 2, 3 :: byte]) + unat (0xffffffffffffffff :: 64 word) < 2 ^ 64"
    by simp
  ultimately show ?thesis
    using getData_exact [OF len, of ref_kaia 1 "0xffffffffffffffff"] len by presburger
qed

text \<open>
  At a \<open>CALL\<close> with value in its frame the tracer moves the value of the frame from the frame's
  caller to the address read from the top of the stack, which at this opcode is the gas operand:
  the operand below it, the callee, does not matter.
\<close>

lemma call_credits_gas_operand:
  assumes "tracer_inv K (parentStore s) a" "scope_Stack scope = stack @ [callee, gas]" "0 < scope_Value scope"
    and "scope_CallerAddress scope \<noteq> u256_Bytes20 K gas"
  shows "\<exists>a'. CaptureState B K s CALL scope a = Inr a' \<and>
    tracer_value K (parentStore s) a' =
      debit K (u256_Bytes20 K gas) (- scope_Value scope)
        (debit K (scope_CallerAddress scope) (scope_Value scope) (tracer_value K (parentStore s) a))"
proof -
  obtain b where b: "updateAndSetBalance B K s (scope_CallerAddress scope) (scope_Value scope) a = Inr b"
    "tracer_inv K (parentStore s) b"
    "tracer_value K (parentStore s) b =
      debit K (scope_CallerAddress scope) (scope_Value scope) (tracer_value K (parentStore s) a)"
    by (rule balance_step [OF assms(1)])
  obtain c where c: "updateAndSetBalance B K s (u256_Bytes20 K gas) (- scope_Value scope) b = Inr c"
    "tracer_value K (parentStore s) c =
      debit K (u256_Bytes20 K gas) (- scope_Value scope) (tracer_value K (parentStore s) b)"
    by (rule balance_step [OF b(2)])
  have "CaptureState B K s CALL scope a = Inr c"
    using assms(2-4) b(1) c(1) by (simp add: CaptureState_def CaptureCall_def Let_def nth_append)
  with b(3) c(2) show ?thesis by simp
qed

section \<open>The check of the readset\<close>

text \<open>The keys of plain storage slots, for which \<open>GetValue\<close> reads the storage.\<close>

definition plain_key :: "('s, 'tx) kaia \<Rightarrow> StorageKey \<Rightarrow> bool" where
  "plain_key K k \<longleftrightarrow>
     StorageKey_Slot K k \<notin> {CodeCopyKey K, CodeHashKey K, CodeSizeKey K, BalanceKey K, SelfDestructKey K, NonceKey K}"

lemma plain_value:
  "plain_key K k \<Longrightarrow> StorageKey_GetValue K k st = sdb_GetState K st (StorageKey_Address K k) (StorageKey_Slot K k)"
  by (simp add: plain_key_def StorageKey_GetValue_def Let_def)

lemma validateReadsetLoop_cases:
  assumes "open_chan a" "\<forall>k\<in>set ks. plain_key K k \<and> fmlookup (tr_readset a) k \<noteq> None"
  shows "case validateReadsetLoop B K s ks a of
      Inl _ \<Rightarrow> \<exists>k\<in>set ks. \<not> read_valid B K s (tr_transactionIndex a) (tr_readset a) k
    | Inr (v, _) \<Rightarrow> v = (\<forall>k\<in>set ks. read_valid B K s (tr_transactionIndex a) (tr_readset a) k)"
  using assms(2)
proof (induction ks)
  case Nil
  then show ?case by simp
next
  case (Cons k ks)
  obtain vs where vs: "fmlookup (tr_readset a) k = Some vs" using Cons.prems by auto
  have ab: "\<exists>b. WriteAbort a x = Inr b" for x
    using assms(1) by (auto simp: WriteAbort_def open_chan_def split: option.splits)
  have valid: "read_valid B K s (tr_transactionIndex a) (tr_readset a) k \<longleftrightarrow> length vs = 1 \<and>
      (case Store_GetLatestBeforeIndex B s (tr_transactionIndex a) k of
         None \<Rightarrow> sdb_GetState K (parentStore s) (StorageKey_Address K k) (StorageKey_Slot K k) = vs ! 0
       | Some it \<Rightarrow> \<not> vi_estimate it \<and> vi_value it = vs ! 0)"
    using vs plain_value [of K k "parentStore s"] Cons.prems
    by (auto simp: read_valid_def store_view_def split: option.splits)
  show ?case
  proof (cases "read_valid B K s (tr_transactionIndex a) (tr_readset a) k")
    case True
    then have "validateReadsetLoop B K s (k # ks) a = validateReadsetLoop B K s ks a"
      using vs by (auto simp: valid Let_def Store_GetParentState_def valueItem_defs split: option.splits)
    with True Cons show ?thesis by (simp split: sum.splits prod.splits)
  next
    case False
    then have "validateReadsetLoop B K s (k # ks) a \<in> range Inl \<or> (\<exists>b. validateReadsetLoop B K s (k # ks) a = Inr (False, b))"
      using vs ab by (auto simp: valid Let_def Store_GetParentState_def valueItem_defs split: option.splits) (metis pbind_simps(2))+
    with False show ?thesis by (auto split: sum.splits prod.splits)
  qed
qed

text \<open>
  (C31) On plain storage keys the tracer's own check of its readset agrees with the store's validation: it
  returns the same verdict, or panics where the store finds the readset invalid (a value of the parent
  state has changed under the transaction).
\<close>

theorem validate_readset_agrees:
  assumes "open_chan a" "fmlookup (txReadSets s) (tr_transactionIndex a) = Some (tr_readset a)"
    and "\<forall>k\<in>fset (fmdom (tr_readset a)). plain_key K k"
  shows "case Tracer_ValidateReadset B K s a of
      Inl _ \<Rightarrow> \<not> fst (ValidateTransactionState B K s (tr_transactionIndex a))
    | Inr (v, _) \<Rightarrow> v = fst (ValidateTransactionState B K s (tr_transactionIndex a))"
proof -
  let ?ks = "sort (fmkeys (tr_readset a))"
  have "\<forall>k\<in>set ?ks. plain_key K k \<and> fmlookup (tr_readset a) k \<noteq> None"
    using assms(3) by (auto simp: in_fmdom_iff)
  note loop = validateReadsetLoop_cases [OF assms(1) this, of B s]
  have "read_valid B K s (tr_transactionIndex a) (tr_readset a) k" if "k \<notin> set ?ks" for k
    using that by (auto simp: read_valid_def in_fmdom_iff split: option.splits)
  then have "fst (ValidateTransactionState B K s (tr_transactionIndex a)) =
      (\<forall>k\<in>set ?ks. read_valid B K s (tr_transactionIndex a) (tr_readset a) k)"
    by (auto simp: ValidateTransactionState_eq assms(2))
  with loop show ?thesis by (auto simp: Tracer_ValidateReadset_def split: sum.splits prod.splits)
qed

definition reading_tracer :: "ReadSet \<Rightarrow> ref_msg AccessListTracer" where
  "reading_tracer rs = (NewAccessListTracer sample_msg 3 0 (Some (make_chan 1)))\<lparr>tr_readset := rs\<rparr>"

lemma reading_tracer_simps [simp]:
  "tr_readset (reading_tracer rs) = rs" "tr_transactionIndex (reading_tracer rs) = 3" "open_chan (reading_tracer rs)"
  by (simp_all add: reading_tracer_def NewAccessListTracer_def open_chan_def make_chan_def)

theorem validate_readset_agrees_witness:
  "open_chan (reading_tracer (fmupd ''9:1'' [0] fmempty)) \<and> plain_key ref_kaia ''9:1'' \<and>
   (case Tracer_ValidateReadset map_btree ref_kaia (SetReadset sample_parent 3 (fmupd ''9:1'' [0] fmempty))
        (reading_tracer (fmupd ''9:1'' [0] fmempty)) of
      Inl _ \<Rightarrow> \<not> fst (ValidateTransactionState map_btree ref_kaia (SetReadset sample_parent 3 (fmupd ''9:1'' [0] fmempty)) 3)
    | Inr (v, _) \<Rightarrow> v = fst (ValidateTransactionState map_btree ref_kaia (SetReadset sample_parent 3 (fmupd ''9:1'' [0] fmempty)) 3))"
proof -
  have p: "plain_key ref_kaia ''9:1''" by code_simp
  have "fmlookup (txReadSets (SetReadset sample_parent 3 (fmupd ''9:1'' [0] fmempty))) 3 = Some (fmupd ''9:1'' [0] fmempty)"
    by (simp add: SetReadset_def)
  with p validate_readset_agrees [of "reading_tracer (fmupd ''9:1'' [0] fmempty)"
      "SetReadset sample_parent 3 (fmupd ''9:1'' [0] fmempty)" ref_kaia map_btree] show ?thesis
    unfolding reading_tracer_simps by simp
qed

text \<open>
  (C39) On a balance the tracer's check reads the wrong place. A transaction that has read a balance, with no
  version of it in the store and an unchanged parent state, is valid for the store; the tracer compares
  the balance with the storage slot numbered \<open>BalanceKey\<close> of the account and panics.
\<close>

theorem validate_readset_balance_panics:
  assumes "common_spec K" "k = ToStorageKey K addr (BalanceKey K)"
    and "tr_readset a = fmupd k [StorageKey_GetValue K k (parentStore s)] fmempty"
    and "fmlookup (txReadSets s) (tr_transactionIndex a) = Some (tr_readset a)"
    and "Store_GetLatestBeforeIndex B s (tr_transactionIndex a) k = None"
    and "sdb_GetState K (parentStore s) addr (BalanceKey K) \<noteq> StorageKey_GetValue K k (parentStore s)"
  shows "Tracer_ValidateReadset B K s a =
      Inl (PanicMsg ''we shouldn't ever have a readset conflict in parent store'') \<and>
    ValidateTransactionState B K s (tr_transactionIndex a) = (True, [])"
proof -
  have "fmkeys (tr_readset a) = [k]" by (simp add: assms(3) fmkeys_alt)
  then have "Tracer_ValidateReadset B K s a =
      Inl (PanicMsg ''we shouldn't ever have a readset conflict in parent store'')"
    using assms(2,3,5,6) by (simp add: Tracer_ValidateReadset_def Let_def Store_GetParentState_def
        common_spec.Address_ToStorageKey [OF assms(1)] common_spec.Slot_ToStorageKey [OF assms(1)])
  moreover have "read_valid B K s (tr_transactionIndex a) (tr_readset a) k'"
    "read_conflict B s (tr_transactionIndex a) (tr_readset a) k' = None" for k'
    using assms(3,5) by (auto simp: read_valid_def read_conflict_def store_view_def)
  ultimately show ?thesis by (auto simp: ValidateTransactionState_eq assms(4))
qed

theorem validate_readset_balance_panics_witness:
  "common_spec ref_kaia \<and>
   Tracer_ValidateReadset map_btree ref_kaia
     (SetReadset sample_parent 3 (fmupd (ToStorageKey ref_kaia 1 (BalanceKey ref_kaia)) [1000] fmempty))
     (reading_tracer (fmupd (ToStorageKey ref_kaia 1 (BalanceKey ref_kaia)) [1000] fmempty)) =
       Inl (PanicMsg ''we shouldn't ever have a readset conflict in parent store'')"
proof -
  let ?k = "ToStorageKey ref_kaia 1 (BalanceKey ref_kaia)"
  let ?s = "SetReadset sample_parent 3 (fmupd ?k [1000] fmempty)"
  have v: "StorageKey_GetValue ref_kaia ?k (parentStore ?s) = 1000"
    "sdb_GetState ref_kaia (parentStore ?s) 1 (BalanceKey ref_kaia) = 0"
    "Store_GetLatestBeforeIndex map_btree ?s 3 ?k = None"
    "fmlookup (txReadSets ?s) 3 = Some (fmupd ?k [1000] fmempty)"
    by (simp_all add: SetReadset_def StorageKey_GetValue_def sample_parent_def NewMultiVersionStore_def Let_def
        Store_GetLatestBeforeIndex_def refk.reserved_keys_values funded_state_def empty_state_def)
      (simp_all add: ref_kaia_def)
  from validate_readset_balance_panics [OF refk.common_spec_axioms refl,
      where a = "reading_tracer (fmupd ?k [1000] fmempty)" and s = ?s and addr = 1 and B = map_btree,
      unfolded v reading_tracer_simps]
  show ?thesis using refk.common_spec_axioms by simp
qed

end
