(* ===== verification/Scheduler.thy ===== *)
theory Scheduler
  imports Tracer
begin

text \<open>
  The scheduler, \<open>scheduler/scheduler.go\<close>: it executes the transactions of a block optimistically in
  rounds, validates what they read against the multi-version store, re-executes those that fail and
  writes the result back. The theory models every method of the scheduler and of its tasks.
\<close>

section \<open>Tasks\<close>

datatype status = statusPending | statusExecuted | statusAborted | statusValidated | statusWaiting

primrec status_int :: "status \<Rightarrow> int" where
  "status_int statusPending = 0"
| "status_int statusExecuted = 1"
| "status_int statusAborted = 2"
| "status_int statusValidated = 3"
| "status_int statusWaiting = 4"

definition status_String :: "status \<Rightarrow> string" where
  "status_String s = [''pending'', ''executed'', ''aborted'', ''validated'', ''waiting''] ! nat (status_int s)"

definition maximumIterations :: nat where
  "maximumIterations = 10"

text \<open>The field \<open>err\<close> of a response is never set.\<close>

record ('rc, 'tc) Response =
  resp_Receipt :: 'rc
  resp_Trace :: 'tc
  resp_err :: "go_error option"

record 'tx DeliverTxEntry =
  en_Tx :: 'tx
  en_AbsoluteIndex :: int

record 'tx DeliverTxBatchRequest =
  br_TxEntries :: "'tx DeliverTxEntry list"

text \<open>The errors of \<open>scheduler/error.go\<close> with their texts; no code of the scheduler returns one.\<close>

datatype scheduler_error =
    Scheduler_ErrNeedSequentialExecution
  | ErrSchedulerNotReady
  | ErrSchedulerRunning
  | ErrSchedulerFinished
  | ErrSchedulerFailed
  | ErrPrepareHeader
  | ErrSchedulerTimeout
  | ErrSchedulerUnknownStatus

fun scheduler_error_Error :: "scheduler_error \<Rightarrow> string" where
  "scheduler_error_Error Scheduler_ErrNeedSequentialExecution = ''need sequential execution''"
| "scheduler_error_Error ErrSchedulerNotReady = ''scheduler not ready''"
| "scheduler_error_Error ErrSchedulerRunning = ''scheduler running''"
| "scheduler_error_Error ErrSchedulerFinished = ''scheduler finished''"
| "scheduler_error_Error ErrSchedulerFailed = ''scheduler failed''"
| "scheduler_error_Error ErrPrepareHeader = ''prepare header failed''"
| "scheduler_error_Error ErrSchedulerTimeout = ''scheduler timeout''"
| "scheduler_error_Error ErrSchedulerUnknownStatus = ''scheduler unknown status''"

lemma scheduler_error_texts_differ: "scheduler_error_Error e = scheduler_error_Error e' \<longleftrightarrow> e = e'"
  by (cases e; cases e') simp_all

text \<open>
  The channel \<open>AbortCh\<close> of a task is the one its tracer sends to, and the two are set and cleared
  together: the model keeps it in the tracer. \<open>Status\<close> is atomic and \<open>Dependencies\<close> is guarded by
  a lock; a map to \<open>struct{}\<close> is a finite map to unit.
\<close>

record ('s, 'tx, 'rc, 'tc) DeliverTxTask =
  t_State :: "'s option"
  t_Status :: status
  t_Dependencies :: "(int, unit) fmap"
  t_Abort :: "Abort option"
  t_Incarnation :: int
  t_Tx :: 'tx
  t_AbsoluteIndex :: int
  t_Response :: "('rc, 'tc) Response option"
  t_UsedGas :: "64 word"
  t_VersionStores :: "'tx AccessListTracer option"

definition AppendDependencies ::
  "int list \<Rightarrow> ('s, 'tx, 'rc, 'tc) DeliverTxTask \<Rightarrow> ('s, 'tx, 'rc, 'tc) DeliverTxTask" where
  "AppendDependencies deps dt =
     dt\<lparr>t_Dependencies := fold (\<lambda>taskIdx m. fmupd taskIdx () m) deps (t_Dependencies dt)\<rparr>"

definition IsStatus :: "('s, 'tx, 'rc, 'tc) DeliverTxTask \<Rightarrow> status \<Rightarrow> bool" where
  "IsStatus dt s \<longleftrightarrow> t_Status dt = s"

definition SetStatus ::
  "status \<Rightarrow> ('s, 'tx, 'rc, 'tc) DeliverTxTask \<Rightarrow> ('s, 'tx, 'rc, 'tc) DeliverTxTask" where
  "SetStatus s dt = dt\<lparr>t_Status := s\<rparr>"

definition IsValidated :: "('s, 'tx, 'rc, 'tc) DeliverTxTask \<Rightarrow> bool" where
  "IsValidated dt \<longleftrightarrow> t_Status dt = statusValidated"

definition Task_Reset :: "('s, 'tx, 'rc, 'tc) DeliverTxTask \<Rightarrow> ('s, 'tx, 'rc, 'tc) DeliverTxTask" where
  "Task_Reset dt =
     (SetStatus statusPending dt)\<lparr>t_Response := None, t_Abort := None, t_VersionStores := None, t_UsedGas := 0\<rparr>"

definition Increment :: "('s, 'tx, 'rc, 'tc) DeliverTxTask \<Rightarrow> ('s, 'tx, 'rc, 'tc) DeliverTxTask" where
  "Increment dt = dt\<lparr>t_Incarnation := t_Incarnation dt + 1\<rparr>"

section \<open>The scheduler's state\<close>

text \<open>
  A pointer to a task is its position in \<open>allTasks\<close>, the slice that \<open>ProcessAll\<close> allocates and never
  reorders. \<open>state\<close> is the state database the store has as its parent: the two fields are one
  pointer, so \<open>shareState\<close> changes them together. \<open>maxIncarnation\<close> is an \<open>int32\<close>.
\<close>

record ('s, 't, 'tx, 'rc, 'tc) scheduler =
  sc_workers :: int
  sc_multiVersionStores :: "('s, 't) Store option"
  sc_allTasksMap :: "(int, nat) fmap"
  sc_allTasks :: "('s, 'tx, 'rc, 'tc) DeliverTxTask list"
  sc_synchronous :: bool
  sc_maxIncarnation :: "32 word"
  sc_state :: 's

text \<open>
  \<open>deliverTx\<close> is the callback of the scheduler, applied to the chain configuration and the header,
  which never change: it runs the task over the store and returns a receipt and trace or an error,
  with the task as it leaves it and the state database of the scheduler after the call.
\<close>

type_synonym ('s, 't, 'tx, 'rc, 'tc) deliverTxFunc =
  "('s, 't) Store \<Rightarrow> ('s, 'tx, 'rc, 'tc) DeliverTxTask \<Rightarrow>
   go_panic + (go_error + 'rc \<times> 'tc) \<times> ('s, 'tx, 'rc, 'tc) DeliverTxTask \<times> 's"

definition NewScheduler :: "'s \<Rightarrow> int \<Rightarrow> ('s, 't, 'tx, 'rc, 'tc) scheduler" where
  "NewScheduler state workers =
     \<lparr>sc_workers = workers, sc_multiVersionStores = None, sc_allTasksMap = fmempty, sc_allTasks = [],
      sc_synchronous = False, sc_maxIncarnation = 0, sc_state = state\<rparr>"

definition task_at :: "('s, 't, 'tx, 'rc, 'tc) scheduler \<Rightarrow> nat \<Rightarrow> ('s, 'tx, 'rc, 'tc) DeliverTxTask" where
  "task_at sc i = sc_allTasks sc ! i"

definition updTask ::
  "nat \<Rightarrow> (('s, 'tx, 'rc, 'tc) DeliverTxTask \<Rightarrow> ('s, 'tx, 'rc, 'tc) DeliverTxTask) \<Rightarrow>
   ('s, 't, 'tx, 'rc, 'tc) scheduler \<Rightarrow> ('s, 't, 'tx, 'rc, 'tc) scheduler" where
  "updTask i f sc = sc\<lparr>sc_allTasks := (sc_allTasks sc)[i := f (task_at sc i)]\<rparr>"

definition shareState :: "'s \<Rightarrow> ('s, 't, 'tx, 'rc, 'tc) scheduler \<Rightarrow> ('s, 't, 'tx, 'rc, 'tc) scheduler" where
  "shareState st sc =
     sc\<lparr>sc_state := st, sc_multiVersionStores := map_option (\<lambda>s. s\<lparr>parentStore := st\<rparr>) (sc_multiVersionStores sc)\<rparr>"

text \<open>A call of a method of the store, nil before \<open>initMultiVersionStores\<close>.\<close>

definition withStore ::
  "('s, 't, 'tx, 'rc, 'tc) scheduler \<Rightarrow> (('s, 't) Store \<Rightarrow> go_panic + 'a) \<Rightarrow> go_panic + 'a" where
  "withStore sc f = (case sc_multiVersionStores sc of None \<Rightarrow> Inl NilDereference | Some s \<Rightarrow> f s)"

definition updStore ::
  "('s, 't) Store \<Rightarrow> ('s, 't, 'tx, 'rc, 'tc) scheduler \<Rightarrow> ('s, 't, 'tx, 'rc, 'tc) scheduler" where
  "updStore s sc = sc\<lparr>sc_multiVersionStores := Some s\<rparr>"

definition collectResponses ::
  "('s, 'tx, 'rc, 'tc) DeliverTxTask list \<Rightarrow> ('rc, 'tc) Response option list" where
  "collectResponses tasks = fold (\<lambda>t res. res @ [t_Response t]) tasks []"

definition invalidateTask ::
  "'t vtree \<Rightarrow> nat \<Rightarrow> ('s, 't, 'tx, 'rc, 'tc) scheduler \<Rightarrow> go_panic + ('s, 't, 'tx, 'rc, 'tc) scheduler" where
  "invalidateTask B i sc =
     withStore sc (\<lambda>s. let task = task_at sc i in
       Inr (updStore (ClearReadset (InvalidateWriteset B s (t_AbsoluteIndex task) (t_Incarnation task))
                        (t_AbsoluteIndex task)) sc))"

definition uniqueConflicts :: "int list \<Rightarrow> int list" where
  "uniqueConflicts mvConflicts =
     (case fold (\<lambda>c (conflicts, uniq :: (int, unit) fmap).
                   if fmlookup uniq c = None then (conflicts @ [c], fmupd c () uniq) else (conflicts, uniq))
             mvConflicts ([], fmempty) of (conflicts, uniq) \<Rightarrow> sort conflicts)"

definition findConflicts ::
  "'t vtree \<Rightarrow> ('s, 'tx) kaia \<Rightarrow> nat \<Rightarrow> ('s, 't, 'tx, 'rc, 'tc) scheduler \<Rightarrow> go_panic + bool \<times> int list" where
  "findConflicts B K i sc =
     withStore sc (\<lambda>s.
       case ValidateTransactionState B K s (t_AbsoluteIndex (task_at sc i)) of (ok, mvConflicts) \<Rightarrow>
       Inr (True \<and> ok, uniqueConflicts mvConflicts))"

definition newTask :: "'tx DeliverTxEntry \<Rightarrow> ('s, 'tx, 'rc, 'tc) DeliverTxTask" where
  "newTask r =
     \<lparr>t_State = None, t_Status = statusPending, t_Dependencies = fmempty, t_Abort = None,
      t_Incarnation = 0, t_Tx = en_Tx r, t_AbsoluteIndex = en_AbsoluteIndex r, t_Response = None,
      t_UsedGas = 0, t_VersionStores = None\<rparr>"

definition toTasks ::
  "'tx DeliverTxEntry list \<Rightarrow> ('s, 'tx, 'rc, 'tc) DeliverTxTask list \<times> (int, nat) fmap" where
  "toTasks reqs =
     fold (\<lambda>r (allTasks, tasksMap).
             (allTasks @ [newTask r], fmupd (en_AbsoluteIndex r) (length allTasks) tasksMap))
       reqs ([], fmempty)"

definition initMultiVersionStores ::
  "('s, 't, 'tx, 'rc, 'tc) scheduler \<Rightarrow> ('s, 't, 'tx, 'rc, 'tc) scheduler" where
  "initMultiVersionStores sc =
     (if sc_multiVersionStores sc \<noteq> None then sc
      else sc\<lparr>sc_multiVersionStores := Some (NewMultiVersionStore (sc_state sc))\<rparr>)"

text \<open>
  The loop over the dependencies, along an enumeration of the set: a dependency that is no task of
  the block is a nil pointer.
\<close>

fun depsValidated_in_order ::
  "('s, 't, 'tx, 'rc, 'tc) scheduler \<Rightarrow> int list \<Rightarrow> go_panic + bool" where
  "depsValidated_in_order sc [] = Inr True"
| "depsValidated_in_order sc (i # is) =
     (case fmlookup (sc_allTasksMap sc) i of
        None \<Rightarrow> Inl NilDereference
      | Some p \<Rightarrow> if \<not> IsValidated (task_at sc p) then Inr False else depsValidated_in_order sc is)"

definition dependenciesValidated ::
  "('s, 't, 'tx, 'rc, 'tc) scheduler \<Rightarrow> (int, unit) fmap \<Rightarrow> go_panic + bool" where
  "dependenciesValidated sc deps = depsValidated_in_order sc (fmkeys deps)"

definition filterTasks ::
  "('s, 'tx, 'rc, 'tc) DeliverTxTask list \<Rightarrow> (('s, 'tx, 'rc, 'tc) DeliverTxTask \<Rightarrow> bool) \<Rightarrow>
   ('s, 'tx, 'rc, 'tc) DeliverTxTask list" where
  "filterTasks tasks f = fold (\<lambda>t res. if f t then res @ [t] else res) tasks []"

primrec allValidated :: "('s, 'tx, 'rc, 'tc) DeliverTxTask list \<Rightarrow> bool" where
  "allValidated [] = True"
| "allValidated (t # ts) = (if \<not> IsValidated t then False else allValidated ts)"

primrec firstNonValidated :: "nat \<Rightarrow> ('s, 'tx, 'rc, 'tc) DeliverTxTask list \<Rightarrow> nat \<times> bool" where
  "firstNonValidated i [] = (0, False)"
| "firstNonValidated i (t # ts) = (if \<not> IsValidated t then (i, True) else firstNonValidated (i + 1) ts)"

definition findFirstNonValidated :: "('s, 't, 'tx, 'rc, 'tc) scheduler \<Rightarrow> nat \<times> bool" where
  "findFirstNonValidated sc = firstNonValidated 0 (sc_allTasks sc)"

text \<open>The number of workers that \<open>ProcessAll\<close> starts.\<close>

definition startedWorkers :: "int \<Rightarrow> nat \<Rightarrow> int" where
  "startedWorkers workers n = (if workers < 1 \<or> int n < workers then int n else workers)"

section \<open>Validation\<close>

definition rerunInvalid ::
  "'t vtree \<Rightarrow> nat \<Rightarrow> int list \<Rightarrow> ('s, 't, 'tx, 'rc, 'tc) scheduler \<Rightarrow>
   go_panic + bool \<times> ('s, 't, 'tx, 'rc, 'tc) scheduler" where
  "rerunInvalid B i conflicts sc =
     pbind (invalidateTask B i sc) (\<lambda>sc.
       let sc = updTask i (AppendDependencies conflicts) sc in
       pbind (dependenciesValidated sc (t_Dependencies (task_at sc i))) (\<lambda>ok.
         if ok then Inr (True, sc) else Inr (False, updTask i (SetStatus statusWaiting) sc)))"

definition shouldRerun ::
  "'t vtree \<Rightarrow> ('s, 'tx) kaia \<Rightarrow> nat \<Rightarrow> ('s, 't, 'tx, 'rc, 'tc) scheduler \<Rightarrow>
   go_panic + bool \<times> ('s, 't, 'tx, 'rc, 'tc) scheduler" where
  "shouldRerun B K i sc =
     (let task = task_at sc i in
      if t_Status task \<in> {statusAborted, statusPending} then Inr (True, sc)
      else if t_Status task \<in> {statusExecuted, statusValidated} then
        pbind (findConflicts B K i sc) (\<lambda>(valid, conflicts).
          if \<not> valid then rerunInvalid B i conflicts sc
          else if length conflicts = 0 then Inr (False, updTask i (SetStatus statusValidated) sc)
          else Inr (False, sc))
      else pbind (dependenciesValidated sc (t_Dependencies task)) (\<lambda>ok. Inr (ok, sc)))"

definition validateTask ::
  "'t vtree \<Rightarrow> ('s, 'tx) kaia \<Rightarrow> nat \<Rightarrow> ('s, 't, 'tx, 'rc, 'tc) scheduler \<Rightarrow>
   go_panic + bool \<times> ('s, 't, 'tx, 'rc, 'tc) scheduler" where
  "validateTask B K i sc =
     pbind (shouldRerun B K i sc) (\<lambda>(rerun, sc). if rerun then Inr (False, sc) else Inr (True, sc))"

text \<open>
  The closure that \<open>validateAll\<close> submits for a task; the tasks to re-execute are sent to a channel
  with room for all of them.
\<close>

definition validateOne ::
  "'t vtree \<Rightarrow> ('s, 'tx) kaia \<Rightarrow> nat \<Rightarrow> ('s, 't, 'tx, 'rc, 'tc) scheduler \<times> nat list \<Rightarrow>
   go_panic + ('s, 't, 'tx, 'rc, 'tc) scheduler \<times> nat list" where
  "validateOne B K i acc =
     (case acc of (sc, res) \<Rightarrow>
      pbind (validateTask B K i sc) (\<lambda>(valid, sc).
        if \<not> valid then
          let sc = updTask i (\<lambda>t. Increment (Task_Reset t)) sc;
              inc = t_Incarnation (task_at sc i) in
          Inr (if inc > sint (sc_maxIncarnation sc) then sc\<lparr>sc_maxIncarnation := word_of_int inc\<rparr> else sc,
               res @ [i])
        else Inr (sc, res)))"

text \<open>
  The worker goroutines take the submitted closures in some order. \<open>order\<close> gives the order in which
  they are carried out, each as one atomic step; a synchronous scheduler runs them as they come.
\<close>

definition workOrder ::
  "('s, 't, 'tx, 'rc, 'tc) scheduler \<Rightarrow> (nat list \<Rightarrow> nat list) \<Rightarrow> nat list \<Rightarrow> nat list" where
  "workOrder sc order tasks = (if sc_synchronous sc then tasks else order tasks)"

definition validateAll ::
  "'t vtree \<Rightarrow> ('s, 'tx) kaia \<Rightarrow> (nat list \<Rightarrow> nat list) \<Rightarrow> ('s, 't, 'tx, 'rc, 'tc) scheduler \<Rightarrow>
   go_panic + ('s, 't, 'tx, 'rc, 'tc) scheduler \<times> nat list" where
  "validateAll B K order sc =
     (case findFirstNonValidated sc of (startIdx, anyLeft) \<Rightarrow>
      if \<not> anyLeft then Inr (sc, [])
      else pfold (validateOne B K) (workOrder sc order [startIdx..<length (sc_allTasks sc)]) (sc, []))"

section \<open>Execution\<close>

definition prepareTask ::
  "nat \<Rightarrow> ('s, 't, 'tx, 'rc, 'tc) scheduler \<Rightarrow> go_panic + ('s, 't, 'tx, 'rc, 'tc) scheduler" where
  "prepareTask i sc =
     withStore sc (\<lambda>s. Inr (updTask i (\<lambda>task. task\<lparr>t_VersionStores :=
       Some (VersionedIndexedStore (t_Tx task) (t_AbsoluteIndex task) (t_Incarnation task)
               (Some (make_chan 1)))\<rparr>) sc))"

text \<open>
  What follows a call of \<open>deliverTx\<close> without error: the abort channel is closed and drained, the task
  takes its new status, and the writeset goes to the store, as estimates after an abort.
\<close>

definition concludeTask ::
  "'rc \<times> 'tc \<Rightarrow> nat \<Rightarrow> ('s, 't, 'tx, 'rc, 'tc) scheduler \<Rightarrow>
   go_panic + (bool \<times> 'tx AccessListTracer) \<times> ('s, 't, 'tx, 'rc, 'tc) scheduler" where
  "concludeTask out i sc =
     (case t_VersionStores (task_at sc i) of
        None \<Rightarrow> Inl (PanicMsg ''close of nil channel'')
      | Some a \<Rightarrow>
        (case tr_abortedChannel a of
           None \<Rightarrow> Inl (PanicMsg ''close of nil channel'')
         | Some c \<Rightarrow>
             if ch_closed c then Inl (PanicMsg ''close of closed channel'')
             else case recv_closed (close_chan c) of (msg, c') \<Rightarrow>
               let a = a\<lparr>tr_abortedChannel := Some c'\<rparr>;
                   sc = updTask i (\<lambda>t. t\<lparr>t_VersionStores := Some a\<rparr>) sc in
               Inr (case msg of
                 Some abort \<Rightarrow>
                   ((True, a), updTask i (\<lambda>t. AppendDependencies [ab_DependentTxIdx abort]
                      ((SetStatus statusAborted t)\<lparr>t_Abort := Some abort\<rparr>)) sc)
               | None \<Rightarrow>
                   ((False, a), updTask i (\<lambda>t. (SetStatus statusExecuted t)\<lparr>t_Response :=
                      Some \<lparr>resp_Receipt = fst out, resp_Trace = snd out, resp_err = None\<rparr>\<rparr>) sc))))"

definition finishTask ::
  "'t vtree \<Rightarrow> 'rc \<times> 'tc \<Rightarrow> nat \<Rightarrow> ('s, 't, 'tx, 'rc, 'tc) scheduler \<Rightarrow>
   go_panic + ('s, 't, 'tx, 'rc, 'tc) scheduler" where
  "finishTask B out i sc =
     pbind (concludeTask out i sc) (\<lambda>((aborted, a), sc).
       withStore sc (\<lambda>s. Inr (updStore
         (if aborted then WriteEstimatesToMultiVersionStore B a s else WriteToMultiVersionStore B a s) sc)))"

definition runTask ::
  "'t vtree \<Rightarrow> ('s, 'tx) kaia \<Rightarrow> ('s, 't, 'tx, 'rc, 'tc) deliverTxFunc \<Rightarrow> nat \<Rightarrow>
   ('s, 't, 'tx, 'rc, 'tc) scheduler \<Rightarrow> go_panic + ('s, 't, 'tx, 'rc, 'tc) scheduler" where
  "runTask B K deliverTx i sc =
     pbind (prepareTask i sc) (\<lambda>sc.
       let sc = updTask i (\<lambda>t. t\<lparr>t_State := Some (sdb_Copy K (sc_state sc))\<rparr>) sc in
       withStore sc (\<lambda>s.
         pbind (deliverTx s (task_at sc i)) (\<lambda>(out, task, st).
           let sc = shareState st (updTask i (\<lambda>_. task) sc) in
           case out of Inl err \<Rightarrow> Inr sc | Inr rt \<Rightarrow> finishTask B rt i sc)))"

text \<open>
  The prologue of \<open>executeTask\<close>: a synchronous scheduler validates a validated task once more and
  leaves it when it stays validated, and resets a task that is not pending. The flag says whether
  the task is to be run.
\<close>

definition resumeTask ::
  "'t vtree \<Rightarrow> ('s, 'tx) kaia \<Rightarrow> nat \<Rightarrow> ('s, 't, 'tx, 'rc, 'tc) scheduler \<Rightarrow>
   go_panic + bool \<times> ('s, 't, 'tx, 'rc, 'tc) scheduler" where
  "resumeTask B K i sc =
     (if \<not> sc_synchronous sc then Inr (True, sc)
      else
        pbind (if IsValidated (task_at sc i)
               then pbind (shouldRerun B K i sc) (\<lambda>(rerun, sc). Inr (IsValidated (task_at sc i), sc))
               else Inr (False, sc))
          (\<lambda>(done, sc).
             if done then Inr (False, sc)
             else if \<not> IsStatus (task_at sc i) statusPending
             then Inr (True, updTask i (\<lambda>t. Increment (Task_Reset t)) sc)
             else Inr (True, sc)))"

definition executeTask ::
  "'t vtree \<Rightarrow> ('s, 'tx) kaia \<Rightarrow> ('s, 't, 'tx, 'rc, 'tc) deliverTxFunc \<Rightarrow> nat \<Rightarrow>
   ('s, 't, 'tx, 'rc, 'tc) scheduler \<Rightarrow> go_panic + ('s, 't, 'tx, 'rc, 'tc) scheduler" where
  "executeTask B K deliverTx i sc =
     pbind (resumeTask B K i sc) (\<lambda>(run, sc). if run then runTask B K deliverTx i sc else Inr sc)"

definition executeAll ::
  "'t vtree \<Rightarrow> ('s, 'tx) kaia \<Rightarrow> ('s, 't, 'tx, 'rc, 'tc) deliverTxFunc \<Rightarrow> (nat list \<Rightarrow> nat list) \<Rightarrow>
   nat list \<Rightarrow> ('s, 't, 'tx, 'rc, 'tc) scheduler \<Rightarrow> go_panic + ('s, 't, 'tx, 'rc, 'tc) scheduler" where
  "executeAll B K deliverTx order tasks sc =
     (if length tasks = 0 then Inr sc
      else pfold (executeTask B K deliverTx) (workOrder sc order tasks) sc)"

section \<open>The main loop\<close>

definition flushUntil ::
  "'t vtree \<Rightarrow> ('s, 'tx) kaia \<Rightarrow> int \<Rightarrow> int \<Rightarrow> ('s, 't, 'tx, 'rc, 'tc) scheduler \<Rightarrow>
   go_panic + ('s, 't, 'tx, 'rc, 'tc) scheduler" where
  "flushUntil B K lastStoreIdx startIdx sc =
     withStore sc (\<lambda>s.
       pbind (WriteLatestToStoreUntil B K s lastStoreIdx startIdx (sc_state sc)) (\<lambda>st. Inr (shareState st sc)))"

definition syncOne ::
  "'t vtree \<Rightarrow> ('s, 'tx) kaia \<Rightarrow> ('s, 't, 'tx, 'rc, 'tc) deliverTxFunc \<Rightarrow> nat \<Rightarrow>
   ('s, 't, 'tx, 'rc, 'tc) scheduler \<times> int \<Rightarrow> go_panic + ('s, 't, 'tx, 'rc, 'tc) scheduler \<times> int" where
  "syncOne B K deliverTx i acc =
     (case acc of (sc, lastStoreIdx) \<Rightarrow>
      let index = t_AbsoluteIndex (task_at sc i) in
      pbind (flushUntil B K lastStoreIdx index sc) (\<lambda>sc.
        pbind (executeTask B K deliverTx i sc) (\<lambda>sc. Inr (sc, index))))"

definition processAllSync ::
  "'t vtree \<Rightarrow> ('s, 'tx) kaia \<Rightarrow> ('s, 't, 'tx, 'rc, 'tc) deliverTxFunc \<Rightarrow> nat list \<Rightarrow>
   ('s, 't, 'tx, 'rc, 'tc) scheduler \<Rightarrow> go_panic + ('s, 't, 'tx, 'rc, 'tc) scheduler" where
  "processAllSync B K deliverTx tasks sc =
     pbind (pfold (syncOne B K deliverTx) tasks (sc, 0)) (\<lambda>(sc, _). Inr sc)"

text \<open>A schedule: for each round, the order in which the workers carry out a list of tasks.\<close>

record schedule =
  exec_order :: "nat \<Rightarrow> nat list \<Rightarrow> nat list"
  valid_order :: "nat \<Rightarrow> nat list \<Rightarrow> nat list"

text \<open>
  One pass of the loop below the iteration limit: write back the newly validated prefix, execute,
  validate. \<open>lastStoreIdx\<close> and \<open>startIdx\<close> are positions in \<open>allTasks\<close>.
\<close>

definition processRound ::
  "'t vtree \<Rightarrow> ('s, 'tx) kaia \<Rightarrow> ('s, 't, 'tx, 'rc, 'tc) deliverTxFunc \<Rightarrow> schedule \<Rightarrow> nat \<Rightarrow> nat \<Rightarrow> nat \<Rightarrow>
   nat list \<Rightarrow> ('s, 't, 'tx, 'rc, 'tc) scheduler \<Rightarrow>
   go_panic + ('s, 't, 'tx, 'rc, 'tc) scheduler \<times> nat list" where
  "processRound B K deliverTx S iterations lastStoreIdx startIdx toExecute sc =
     pbind (if startIdx > lastStoreIdx then flushUntil B K (int lastStoreIdx) (int startIdx) sc else Inr sc)
       (\<lambda>sc. pbind (executeAll B K deliverTx (exec_order S iterations) toExecute sc)
         (validateAll B K (valid_order S iterations)))"

function processLoop ::
  "'t vtree \<Rightarrow> ('s, 'tx) kaia \<Rightarrow> ('s, 't, 'tx, 'rc, 'tc) deliverTxFunc \<Rightarrow> schedule \<Rightarrow> nat \<Rightarrow> nat \<Rightarrow>
   nat list \<Rightarrow> ('s, 't, 'tx, 'rc, 'tc) scheduler \<Rightarrow> go_panic + ('s, 't, 'tx, 'rc, 'tc) scheduler" where
  "processLoop B K deliverTx S iterations lastStoreIdx toExecute sc =
     (if allValidated (sc_allTasks sc) then Inr sc
      else case findFirstNonValidated sc of (startIdx, anyLeft) \<Rightarrow>
        if iterations \<ge> maximumIterations then
          (let sc = sc\<lparr>sc_synchronous := True\<rparr> in
           if \<not> anyLeft then Inr sc
           else processAllSync B K deliverTx [startIdx..<length (sc_allTasks sc)] sc)
        else
          pbind (processRound B K deliverTx S iterations lastStoreIdx startIdx toExecute sc)
            (\<lambda>(sc, toExecute). processLoop B K deliverTx S (iterations + 1)
               (if startIdx > lastStoreIdx then startIdx else lastStoreIdx) toExecute sc))"
  by pat_completeness auto
termination
  by (relation "measure (\<lambda>(B, K, D, S, iterations, _). maximumIterations - iterations)") auto

declare processLoop.simps [simp del]

definition ProcessAll ::
  "'t vtree \<Rightarrow> ('s, 'tx) kaia \<Rightarrow> ('s, 't, 'tx, 'rc, 'tc) deliverTxFunc \<Rightarrow> schedule \<Rightarrow>
   'tx DeliverTxEntry list \<Rightarrow> ('s, 't, 'tx, 'rc, 'tc) scheduler \<Rightarrow>
   go_panic + ('rc, 'tc) Response option list \<times> ('s, 't, 'tx, 'rc, 'tc) scheduler" where
  "ProcessAll B K deliverTx S reqs sc =
     (let sc = initMultiVersionStores sc;
          (tasks, tasksMap) = toTasks reqs;
          sc = sc\<lparr>sc_allTasks := tasks, sc_allTasksMap := tasksMap\<rparr> in
      pbind (processLoop B K deliverTx S 0 0 [0..<length tasks] sc) (\<lambda>sc.
        withStore sc (\<lambda>s.
          pbind (WriteLatestToStore B K s (sc_state sc)) (\<lambda>st.
            Inr (collectResponses (sc_allTasks sc), shareState st sc)))))"

section \<open>Lemmas\<close>

lemma task_at_updTask:
  "i < length (sc_allTasks sc) \<Longrightarrow> task_at (updTask i f sc) j = (if j = i then f (task_at sc i) else task_at sc j)"
  by (simp add: task_at_def updTask_def)

lemma scheduler_updates [simp]:
  "length (sc_allTasks (updTask i f sc)) = length (sc_allTasks sc)"
  "sc_allTasksMap (updTask i f sc) = sc_allTasksMap sc"
  "sc_multiVersionStores (updTask i f sc) = sc_multiVersionStores sc"
  "sc_synchronous (updTask i f sc) = sc_synchronous sc"
  "sc_state (updTask i f sc) = sc_state sc"
  "sc_allTasks (updStore s sc) = sc_allTasks sc"
  "task_at (updStore s sc) = task_at sc"
  "sc_allTasksMap (updStore s sc) = sc_allTasksMap sc"
  "sc_multiVersionStores (updStore s sc) = Some s"
  "sc_synchronous (updStore s sc) = sc_synchronous sc"
  "sc_state (updStore s sc) = sc_state sc"
  "sc_allTasks (shareState st sc) = sc_allTasks sc"
  "task_at (shareState st sc) = task_at sc"
  "sc_allTasksMap (shareState st sc) = sc_allTasksMap sc"
  "sc_synchronous (shareState st sc) = sc_synchronous sc"
  "sc_state (shareState st sc) = st"
  "sc_multiVersionStores (shareState st sc) =
     map_option (\<lambda>s. s\<lparr>parentStore := st\<rparr>) (sc_multiVersionStores sc)"
  by (simp_all add: updTask_def updStore_def shareState_def task_at_def fun_eq_iff)

lemma updTask_updStore: "updStore s (updTask i f sc) = updTask i f (updStore s sc)"
  by (simp add: updTask_def updStore_def task_at_def)

lemma updStore_updStore [simp]: "updStore s (updStore s' sc) = updStore s sc"
  by (simp add: updStore_def)

lemma updStore_id: "sc_multiVersionStores sc = Some s \<Longrightarrow> updStore s sc = sc"
  by (simp add: updStore_def)

lemma task_updates [simp]:
  "t_Status (SetStatus x t) = x" "t_Tx (SetStatus x t) = t_Tx t"
  "t_AbsoluteIndex (SetStatus x t) = t_AbsoluteIndex t" "t_Incarnation (SetStatus x t) = t_Incarnation t"
  "t_Dependencies (SetStatus x t) = t_Dependencies t" "t_Response (SetStatus x t) = t_Response t"
  "t_VersionStores (SetStatus x t) = t_VersionStores t"
  "t_Status (AppendDependencies ds t) = t_Status t" "t_Tx (AppendDependencies ds t) = t_Tx t"
  "t_AbsoluteIndex (AppendDependencies ds t) = t_AbsoluteIndex t"
  "t_Incarnation (AppendDependencies ds t) = t_Incarnation t"
  "t_Response (AppendDependencies ds t) = t_Response t"
  "t_Status (Task_Reset t) = statusPending" "t_Tx (Task_Reset t) = t_Tx t"
  "t_AbsoluteIndex (Task_Reset t) = t_AbsoluteIndex t" "t_Dependencies (Task_Reset t) = t_Dependencies t"
  "t_Incarnation (Task_Reset t) = t_Incarnation t" "t_Response (Task_Reset t) = None"
  "t_Status (Increment t) = t_Status t" "t_Tx (Increment t) = t_Tx t"
  "t_AbsoluteIndex (Increment t) = t_AbsoluteIndex t" "t_Dependencies (Increment t) = t_Dependencies t"
  "t_Incarnation (Increment t) = t_Incarnation t + 1" "t_Response (Increment t) = t_Response t"
  by (simp_all add: SetStatus_def AppendDependencies_def Task_Reset_def Increment_def)

lemma fold_fmupd_dom:
  "fset (fmdom (fold (\<lambda>i m. fmupd i () m) ds m)) = fset (fmdom m) \<union> set ds"
  by (induction ds arbitrary: m) auto

lemma Dependencies_Append [simp]:
  "fset (fmdom (t_Dependencies (AppendDependencies ds t))) = fset (fmdom (t_Dependencies t)) \<union> set ds"
  by (simp add: AppendDependencies_def fold_fmupd_dom)

lemma allValidated_iff: "allValidated ts \<longleftrightarrow> (\<forall>t\<in>set ts. IsValidated t)"
  by (induction ts) auto

lemma allValidated_nth: "allValidated (sc_allTasks sc) \<longleftrightarrow>
    (\<forall>i<length (sc_allTasks sc). t_Status (task_at sc i) = statusValidated)"
  by (simp add: allValidated_iff task_at_def IsValidated_def all_set_conv_all_nth)

lemma firstNonValidated_spec:
  "\<not> allValidated ts \<Longrightarrow> \<exists>p<length ts. firstNonValidated d ts = (d + p, True) \<and> \<not> IsValidated (ts ! p) \<and>
     (\<forall>i<p. IsValidated (ts ! i))"
proof (induction ts arbitrary: d)
  case Nil
  then show ?case by simp
next
  case (Cons t ts)
  show ?case
  proof (cases "IsValidated t")
    case False
    then show ?thesis by (intro exI [of _ 0]) simp
  next
    case True
    with Cons.prems have "\<not> allValidated ts" by simp
    from Cons.IH [OF this, of "d + 1"] obtain p where "p < length ts" "firstNonValidated (d + 1) ts = (d + 1 + p, True)"
      "\<not> IsValidated (ts ! p)" "\<forall>i<p. IsValidated (ts ! i)" by blast
    with True show ?thesis
      by (intro exI [of _ "Suc p"]) (auto simp: less_Suc_eq_0_disj)
  qed
qed

text \<open>What \<open>findFirstNonValidated\<close> returns, as the loop uses it.\<close>

lemma findFirstNonValidated_Some:
  assumes "\<not> allValidated (sc_allTasks sc)"
  obtains p where "findFirstNonValidated sc = (p, True)" "p < length (sc_allTasks sc)"
    "t_Status (task_at sc p) \<noteq> statusValidated" "\<And>i. i < p \<Longrightarrow> t_Status (task_at sc i) = statusValidated"
  using firstNonValidated_spec [OF assms, of 0]
  by (auto simp: findFirstNonValidated_def IsValidated_def task_at_def)

lemma findFirstNonValidated_None:
  "allValidated (sc_allTasks sc) \<Longrightarrow> findFirstNonValidated sc = (0, False)"
proof -
  have "allValidated ts \<Longrightarrow> firstNonValidated d ts = (0, False)" for d and ts :: "('a, 'b, 'c, 'd) DeliverTxTask list"
    by (induction ts arbitrary: d) (auto split: if_splits)
  then show "allValidated (sc_allTasks sc) \<Longrightarrow> findFirstNonValidated sc = (0, False)"
    by (simp add: findFirstNonValidated_def)
qed

lemma depsValidated_total:
  "(\<forall>i\<in>set ds. fmlookup (sc_allTasksMap sc) i \<noteq> None) \<Longrightarrow>
   depsValidated_in_order sc ds =
     Inr (\<forall>i\<in>set ds. IsValidated (task_at sc (the (fmlookup (sc_allTasksMap sc) i))))"
  by (induction ds) auto

lemma unique_fold:
  assumes "distinct cs" "\<forall>c\<in>set cs. fmlookup u c = None"
  shows "fst (fold (\<lambda>c (conflicts, uniq).
      if fmlookup uniq c = None then (conflicts @ [c], fmupd c () uniq) else (conflicts, uniq)) cs (xs, u)) = xs @ cs"
  using assms
proof (induction cs arbitrary: xs u)
  case Nil
  then show ?case by simp
next
  case (Cons c cs)
  from Cons.prems have "\<forall>c'\<in>set cs. fmlookup (fmupd c () u) c' = None" by auto
  with Cons show ?case by simp
qed

lemma uniqueConflicts_id: "distinct cs \<Longrightarrow> sorted cs \<Longrightarrow> uniqueConflicts cs = cs"
  using unique_fold [of cs fmempty "[]"] by (simp add: uniqueConflicts_def split_beta sorted_sort_id)

lemma findConflicts_eq:
  "findConflicts B K i sc =
   withStore sc (\<lambda>s. Inr (ValidateTransactionState B K s (t_AbsoluteIndex (task_at sc i))))"
proof (cases "sc_multiVersionStores sc")
  case None
  then show ?thesis by (simp add: findConflicts_def withStore_def)
next
  case (Some s)
  obtain ok cs where v: "ValidateTransactionState B K s (t_AbsoluteIndex (task_at sc i)) = (ok, cs)"
    by fastforce
  then have "distinct cs" "sorted cs"
    by (auto simp: ValidateTransactionState_eq split: option.splits)
  with Some v show ?thesis by (simp add: findConflicts_def withStore_def uniqueConflicts_id)
qed

lemma toTasks_snoc:
  "toTasks (reqs @ [r]) =
   (case toTasks reqs of (ts, m) \<Rightarrow> (ts @ [newTask r], fmupd (en_AbsoluteIndex r) (length ts) m))"
  by (simp add: toTasks_def)

lemma toTasks_tasks: "toTasks reqs = (ts, m) \<Longrightarrow> ts = map newTask reqs"
  by (induction reqs arbitrary: ts m rule: rev_induct)
    (auto simp: toTasks_snoc toTasks_def [of "[]"] split: prod.splits)

lemma toTasks_lookup:
  "toTasks reqs = (ts, m) \<Longrightarrow> distinct (map en_AbsoluteIndex reqs) \<Longrightarrow> i < length reqs \<Longrightarrow>
   fmlookup m (en_AbsoluteIndex (reqs ! i)) = Some i"
proof (induction reqs arbitrary: ts m rule: rev_induct)
  case Nil
  then show ?case by simp
next
  case (snoc r reqs)
  obtain ts' m' where t': "toTasks reqs = (ts', m')" and "ts = ts' @ [newTask r]"
    and m0: "m = fmupd (en_AbsoluteIndex r) (length ts') m'"
    using snoc.prems(1) by (auto simp: toTasks_snoc split: prod.splits)
  have m: "m = fmupd (en_AbsoluteIndex r) (length reqs) m'"
    using m0 by (simp add: toTasks_tasks [OF t'])
  show ?case
  proof (cases "i = length reqs")
    case True
    then show ?thesis by (simp add: m)
  next
    case False
    with snoc.prems(3) have i: "i < length reqs" by simp
    with snoc.prems(2) have "en_AbsoluteIndex r \<noteq> en_AbsoluteIndex (reqs ! i)" by (auto simp: image_iff)
    with i snoc.IH [OF t'] snoc.prems(2) show ?thesis by (simp add: m nth_append)
  qed
qed

lemma collectResponses_eq: "collectResponses ts = map t_Response ts"
proof -
  have "fold (\<lambda>t res. res @ [t_Response t]) ts acc = acc @ map t_Response ts" for acc
    by (induction ts arbitrary: acc) simp_all
  then show ?thesis by (simp add: collectResponses_def)
qed

end
