(* ===== verification/Chain.thy ===== *)
theory Chain
  imports Scheduler
begin

text \<open>
  \<open>chain/chain.go\<close>: what the program uses of the blockchain, the set-up of one, and the sequential
  executor, which commits one transaction to a state.
\<close>

section \<open>The blockchain\<close>

text \<open>
  What the program uses of \<open>blockchain.BlockChain\<close>, of the header and of a transaction. Applying a
  transaction runs the EVM, which this program does not contain: \<open>bc_ApplyTransaction\<close> gives the
  calls the EVM makes to its tracer, in order, the state database and the gas counter as it leaves
  them, and a receipt and trace or an error. \<open>'c\<close> is the chain configuration, \<open>'h\<close> the header.
\<close>

record ('s, 'tx, 'rc, 'tc, 'c, 'h) blockchain =
  bc_Config :: 'c
  bc_Author :: "'h \<Rightarrow> address \<times> go_error option"
  bc_ApplyTransaction :: "'c \<Rightarrow> address \<Rightarrow> 's \<Rightarrow> 'h \<Rightarrow> 'tx \<Rightarrow> 64 word \<Rightarrow>
    's hook list \<times> 's \<times> 64 word \<times> (go_error + 'rc \<times> 'tc)"
  hd_Hash :: "'h \<Rightarrow> hash"
  hd_GasUsed :: "'h \<Rightarrow> 64 word"
  hd_SetGasUsed :: "'h \<Rightarrow> 64 word \<Rightarrow> 'h"
  tx_Hash :: "'tx \<Rightarrow> hash"
  tx_MarkUnexecutable :: "'tx \<Rightarrow> bool \<Rightarrow> 'tx"
  vm_ErrInsufficientBalance :: go_error
  vm_ErrTotalTimeLimitReached :: go_error

section \<open>Setting up a chain\<close>

text \<open>
  The configurations the program fills in, and the constructors of the client it passes them to:
  \<open>'db\<close> is a database manager, \<open>'gov\<close> a governance engine, \<open>'eng\<close> a consensus engine, \<open>'ic\<close> the default
  configuration of the consensus, \<open>'gc\<close> that of the governance, \<open>'pk\<close> a private key, \<open>'nt\<close> a node type,
  \<open>'chain\<close> a chain. Fields the program leaves out have Go's zero value.
\<close>

record IstanbulConfig =
  ic_Epoch :: "64 word"
  ic_ProposerPolicy :: "64 word"
  ic_SubGroupSize :: "64 word"

record 'gc ChainConfig =
  cc_ChainID :: int
  cc_UnitPrice :: "64 word"
  cc_DeriveShaImpl :: int
  cc_Istanbul :: IstanbulConfig
  cc_Governance :: 'gc

record ('db, 'gov, 'ic, 'pk, 'nt) BackendOpts =
  bo_IstanbulConfig :: 'ic
  bo_Rewardbase :: address
  bo_PrivateKey :: 'pk
  bo_DB :: 'db
  bo_Governance :: 'gov
  bo_NodeType :: 'nt

record ('db, 'gov, 'eng, 'ic, 'gc, 'pk, 'nt, 'c, 'chain) node_lib =
  governance_NewMixedEngine :: "'gc ChainConfig \<Rightarrow> 'db \<Rightarrow> 'gov"
  params_GetDefaultGovernanceConfig :: 'gc
  istanbul_DefaultConfig :: 'ic
  istanbul_Epoch :: "'ic \<Rightarrow> 64 word"
  istanbul_ProposerPolicy :: "'ic \<Rightarrow> 64 word"
  istanbul_SubGroupSize :: "'ic \<Rightarrow> 64 word"
  istanbulBackend_New :: "('db, 'gov, 'ic, 'pk, 'nt) BackendOpts \<Rightarrow> 'eng"
  crypto_HexToECDSA :: "string \<Rightarrow> 'pk \<times> go_error option"
  common_CONSENSUSNODE :: 'nt
  blockchain_NewBlockChain :: "'db \<Rightarrow> 'c \<Rightarrow> 'eng \<Rightarrow> 'chain option \<times> go_error option"

definition DefaultRewardBase :: "('s, 'tx) kaia \<Rightarrow> address" where
  "DefaultRewardBase K = cm_HexToAddress K ''0x0000000000000000000000000000000000000000''"

definition ValidatorPrivateKey :: "('db, 'gov, 'eng, 'ic, 'gc, 'pk, 'nt, 'c, 'chain) node_lib \<Rightarrow> 'pk" where
  "ValidatorPrivateKey N = fst (crypto_HexToECDSA N ''b2d2c7b2c54d52099048a4df70734985629b0f1ff5eb4118e0f3b08abaae0792'')"

text \<open>
  The addresses beside them, which the tests of the program use. The random key is what
  \<open>crypto.GenerateKey\<close> returned, nil when it failed; \<open>PubkeyToAddress\<close> is that of the public half of a key.
\<close>

definition ValidatorAddress :: "('s, 'tx) kaia \<Rightarrow> address" where
  "ValidatorAddress K = cm_HexToAddress K ''0x2a4f7f1bf3374e2566d0a868246f8f141fc4328d''"

definition RandomPrivateKey :: "'pk option \<times> go_error option \<Rightarrow> 'pk option" where
  "RandomPrivateKey GenerateKey = fst GenerateKey"

definition RandomAddress ::
  "('pub \<Rightarrow> address) \<Rightarrow> ('pk \<Rightarrow> 'pub) \<Rightarrow> 'pk option \<times> go_error option \<Rightarrow> go_panic + address" where
  "RandomAddress PubkeyToAddress PublicKey GenerateKey =
     (case RandomPrivateKey GenerateKey of
        None \<Rightarrow> Inl NilDereference
      | Some key \<Rightarrow> Inr (PubkeyToAddress (PublicKey key)))"

definition newGovernance :: "('db, 'gov, 'eng, 'ic, 'gc, 'pk, 'nt, 'c, 'chain) node_lib \<Rightarrow> 'db \<Rightarrow> 'gov" where
  "newGovernance N db =
     governance_NewMixedEngine N
       \<lparr>cc_ChainID = 2018, cc_UnitPrice = 25000000000, cc_DeriveShaImpl = 0,
        cc_Istanbul = \<lparr>ic_Epoch = istanbul_Epoch N (istanbul_DefaultConfig N),
                       ic_ProposerPolicy = istanbul_ProposerPolicy N (istanbul_DefaultConfig N),
                       ic_SubGroupSize = istanbul_SubGroupSize N (istanbul_DefaultConfig N)\<rparr>,
        cc_Governance = params_GetDefaultGovernanceConfig N\<rparr> db"

definition newEngine ::
  "('s, 'tx) kaia \<Rightarrow> ('db, 'gov, 'eng, 'ic, 'gc, 'pk, 'nt, 'c, 'chain) node_lib \<Rightarrow> 'db \<Rightarrow> 'eng" where
  "newEngine K N db =
     istanbulBackend_New N
       \<lparr>bo_IstanbulConfig = istanbul_DefaultConfig N, bo_Rewardbase = DefaultRewardBase K,
        bo_PrivateKey = ValidatorPrivateKey N, bo_DB = db, bo_Governance = newGovernance N db,
        bo_NodeType = common_CONSENSUSNODE N\<rparr>"

text \<open>An error of \<open>NewBlockChain\<close> is logged; the caller gets the chain that came with it, which may be nil.\<close>

definition NewBlockchain ::
  "('s, 'tx) kaia \<Rightarrow> ('db, 'gov, 'eng, 'ic, 'gc, 'pk, 'nt, 'c, 'chain) node_lib \<Rightarrow> 'db \<Rightarrow> 'c \<Rightarrow> 'chain option" where
  "NewBlockchain K N db config =
     (let engine = newEngine K N db in
      case blockchain_NewBlockChain N db config engine of (chain, err) \<Rightarrow> chain)"

section \<open>The sequential executor\<close>

record ('s, 'c, 'h) Executor =
  ex_config :: 'c
  ex_state :: 's
  ex_header :: 'h

definition NewExecutor :: "'c \<Rightarrow> 's \<Rightarrow> 'h \<Rightarrow> ('s, 'c, 'h) Executor" where
  "NewExecutor config state header = \<lparr>ex_config = config, ex_state = state, ex_header = header\<rparr>"

text \<open>
  \<open>CommitTransaction\<close>, with the executor and the transaction as it leaves them; the tracer in its
  \<open>vmConfig\<close> is the caller's, and its calls are not followed.
\<close>

definition CommitTransaction ::
  "('s, 'tx) kaia \<Rightarrow> ('s, 'tx, 'rc, 'tc, 'c, 'h) blockchain \<Rightarrow> 'tx \<Rightarrow> address \<Rightarrow> ('s, 'c, 'h) Executor \<Rightarrow>
   (go_error + 'rc) \<times> 'tx \<times> ('s, 'c, 'h) Executor" where
  "CommitTransaction K bc tx rewardbase env =
     (case sdb_Snapshot K (ex_state env) of (st, snap) \<Rightarrow>
      case bc_ApplyTransaction bc (ex_config env) rewardbase st (ex_header env) tx (hd_GasUsed bc (ex_header env)) of
        (hooks, st', gas, out) \<Rightarrow>
        let env' = env\<lparr>ex_header := hd_SetGasUsed bc (ex_header env) gas\<rparr> in
        case out of
          Inl err \<Rightarrow>
            let tx' = (if err \<noteq> vm_ErrInsufficientBalance bc \<and> err \<noteq> vm_ErrTotalTimeLimitReached bc
                       then tx_MarkUnexecutable bc tx True else tx) in
            (Inl err, tx', env'\<lparr>ex_state := sdb_RevertToSnapshot K st' snap\<rparr>)
        | Inr (receipt, trace) \<Rightarrow> (Inr receipt, tx, env'\<lparr>ex_state := st'\<rparr>))"

end
