(* ===== verification/Rounds.thy ===== *)
theory Rounds
  imports Scheduler
begin

text \<open>
  What every step of the scheduler keeps. The contract of the \<open>deliverTx\<close> callback is the locale
  \<open>delivery\<close>; from it follow an invariant of the scheduler's state that every method keeps and that
  no method panics under it, in the concurrent rounds as in the synchronous fallback.
\<close>

section \<open>The store in a block of \<open>n\<close> transactions\<close>

text \<open>
  Only transactions of the block have a column, the keys are canonical and the versions that count
  are storable.
\<close>

definition store_ok :: "'t vtree \<Rightarrow> ('s, 'tx) kaia \<Rightarrow> nat \<Rightarrow> ('s, 't) Store \<Rightarrow> bool" where
  "store_ok B K n s \<longleftrightarrow> store_inv B s \<and>
     (\<forall>k\<in>fset (fmdom (multiVersionMap s)). canonical_key K k) \<and>
     (\<forall>i k it. column B s i k = Some it \<longrightarrow>
        0 \<le> i \<and> i < int n \<and> (\<not> vi_estimate it \<longrightarrow> storable K k (vi_value it)))"

lemma dom_removeOldWriteset [simp]:
  "fmdom (multiVersionMap (removeOldWriteset B s i ws)) = fmdom (multiVersionMap s)"
proof -
  have step: "fmdom (removeOldKey B i w k m) = fmdom m" for w k m
    by (auto simp: removeOldKey_def fmdom_notI fset_eqI in_fmdom_iff intro!: fset_eqI split: option.splits)
  have "fmdom (fold (removeOldKey B i w) ks m) = fmdom m" for w ks m
    by (induction ks arbitrary: m) (simp_all add: step)
  then show ?thesis by (simp add: removeOldWriteset_def Let_def split: option.splits)
qed

lemma dom_updateOrNew [simp]: "fmdom (updateOrNew B k f m) = finsert k (fmdom m)"
  by (simp add: updateOrNew_def)

lemma dom_fold_estimateKey:
  "fset (fmdom (fold (estimateKey B i inc) ks m)) = fset (fmdom m) \<union> set ks"
  by (induction ks arbitrary: m) (auto simp: estimateKey_def)

lemma dom_fold_writeKey:
  "fset (fmdom (fold (writeKey B i inc ws) ks m)) \<subseteq> fset (fmdom m) \<union> set ks"
  by (induction ks arbitrary: m) (fastforce simp: writeKey_def split: option.splits)+

lemma dom_SetWriteset:
  "fset (fmdom (multiVersionMap (SetWriteset B s i inc ws))) \<subseteq>
     fset (fmdom (multiVersionMap s)) \<union> fset (fmdom ws)"
  using dom_fold_writeKey [of B i inc ws "fmkeys ws" "multiVersionMap (removeOldWriteset B s i (Some ws))"]
  by (simp add: SetWriteset_def SetWriteset_in_order_def Let_def)

lemma dom_SetEstimatedWriteset:
  "fset (fmdom (multiVersionMap (SetEstimatedWriteset B s i inc ws))) =
     fset (fmdom (multiVersionMap s)) \<union> fset (fmdom ws)"
  by (simp add: SetEstimatedWriteset_def SetEstimatedWriteset_in_order_def Let_def dom_fold_estimateKey)

lemma dom_InvalidateWriteset:
  assumes "store_inv B s"
  shows "fset (fmdom (multiVersionMap (InvalidateWriteset B s i inc))) = fset (fmdom (multiVersionMap s))"
proof -
  have "k \<in> fset (fmdom (multiVersionMap s))" if "k \<in> recorded_keys s i" for k
  proof -
    have "column B s i k \<noteq> None" using assms that by (simp add: store_inv_def)
    then show ?thesis
      by (cases "fmlookup (multiVersionMap s) k")
        (simp_all add: column_def store_versions_def map_versions_def in_fmdom_iff)
  qed
  then have sub: "recorded_keys s i \<subseteq> fset (fmdom (multiVersionMap s))" by blast
  show ?thesis
  proof (cases "fmlookup (txWritesetKeys s) i")
    case None
    then show ?thesis by (simp add: InvalidateWriteset_def)
  next
    case (Some ks)
    with sub have "set ks \<subseteq> fset (fmdom (multiVersionMap s))" by (simp add: recorded_keys_def)
    then have "fset (fmdom (fold (estimateKey B i inc) ks (multiVersionMap s))) = fset (fmdom (multiVersionMap s))"
      unfolding dom_fold_estimateKey by blast
    with Some show ?thesis by (simp add: InvalidateWriteset_def)
  qed
qed

lemma store_ok_readsets [simp]:
  "store_ok B K n (SetReadset s i rs) \<longleftrightarrow> store_ok B K n s"
  "store_ok B K n (ClearReadset s i) \<longleftrightarrow> store_ok B K n s"
  "store_ok B K n (s\<lparr>parentStore := st\<rparr>) \<longleftrightarrow> store_ok B K n s"
  by (simp_all add: store_ok_def store_inv_def column_def recorded_keys_def SetReadset_def ClearReadset_def
      store_versions_def)

lemma readsets_frame [simp]:
  "parentStore (SetReadset s i rs) = parentStore s"
  "parentStore (ClearReadset s i) = parentStore s"
  "txReadSets (SetReadset s i rs) = fmupd i rs (txReadSets s)"
  "txReadSets (ClearReadset s i) = fmdrop i (txReadSets s)"
  by (simp_all add: SetReadset_def ClearReadset_def)

lemma column_readsets [simp]:
  "column B (SetReadset s i rs) = column B s"
  "column B (ClearReadset s i) = column B s"
  "column B (s\<lparr>parentStore := st\<rparr>) = column B s"
  by (simp_all add: column_def fun_eq_iff)

context value_tree
begin

lemma store_ok_new: "store_ok B K n (NewMultiVersionStore st)"
  by (simp add: store_ok_def store_inv_new) (simp add: NewMultiVersionStore_def)

lemma store_ok_SetWriteset:
  assumes "store_ok B K n s" "0 \<le> i" "i < int n"
    and ws: "\<And>k v. fmlookup ws k = Some v \<Longrightarrow> canonical_key K k \<and> storable K k v"
  shows "store_ok B K n (SetWriteset B s i inc ws)"
proof -
  have inv: "store_inv B s" using assms(1) by (simp add: store_ok_def)
  have "canonical_key K k" if "k \<in> fset (fmdom (multiVersionMap (SetWriteset B s i inc ws)))" for k
  proof -
    from that dom_SetWriteset [of B s i inc ws]
    have "k \<in> fset (fmdom (multiVersionMap s)) \<or> k \<in> fset (fmdom ws)" by blast
    then show ?thesis using assms(1) ws unfolding store_ok_def by (auto simp: in_fmdom_iff)
  qed
  then show ?thesis
    using assms unfolding store_ok_def
    by (auto simp: store_inv_SetWriteset [OF inv] column_writers [OF inv] split: if_splits)
qed

lemma store_ok_SetEstimatedWriteset:
  assumes "store_ok B K n s" "0 \<le> i" "i < int n"
    and ws: "\<And>k v. fmlookup ws k = Some v \<Longrightarrow> canonical_key K k"
  shows "store_ok B K n (SetEstimatedWriteset B s i inc ws)"
proof -
  have inv: "store_inv B s" using assms(1) by (simp add: store_ok_def)
  show ?thesis
    using assms unfolding store_ok_def
    by (auto simp: store_inv_SetEstimatedWriteset [OF inv] column_writers [OF inv] in_fmdom_iff
        dom_SetEstimatedWriteset NewEstimateItem_def split: if_splits)
qed

lemma store_ok_InvalidateWriteset:
  assumes "store_ok B K n s"
  shows "store_ok B K n (InvalidateWriteset B s i inc)"
proof -
  have inv: "store_inv B s" using assms(1) by (simp add: store_ok_def)
  show ?thesis
    using assms unfolding store_ok_def
    by (auto simp: store_inv_InvalidateWriteset [OF inv] column_writers [OF inv]
        dom_InvalidateWriteset [OF inv] NewEstimateItem_def split: if_splits)
qed

lemma store_ok_storable: "store_ok B K n s \<Longrightarrow> store_storable B K s"
  by (auto simp: store_ok_def store_storable_def final_version_Some)

lemma valid_no_conflicts:
  assumes "ValidateTransactionState B K s j = (True, cs)"
  shows "cs = []"
proof (cases "fmlookup (txReadSets s) j")
  case None
  with assms show ?thesis by (simp add: ValidateTransactionState_eq)
next
  case (Some rs)
  with assms have "\<forall>k. read_valid B K s j rs k" by (simp add: ValidateTransactionState_eq)
  then have "{c. \<exists>k. read_conflict B s j rs k = Some c} = {}"
    using read_conflict_invalid by blast
  with Some assms show ?thesis by (simp add: ValidateTransactionState_eq)
qed

lemma conflicts_in_range:
  assumes "store_ok B K n s" "c \<in> set (snd (ValidateTransactionState B K' s j))"
  shows "0 \<le> c \<and> c < int n"
proof -
  from assms(2) obtain rs k where "read_conflict B s j rs k = Some c"
    by (auto simp: ValidateTransactionState_eq finite_read_conflicts split: option.splits)
  then show ?thesis
    using assms(1) by (auto simp: read_conflict_iff store_latest_before_Some store_ok_def)
qed

end

section \<open>The contract of \<open>deliverTx\<close>\<close>

text \<open>
  A prepared task has a copy of the shared state and a new tracer. A delivery runs to its end, changes
  no more than the task's state, gas and tracer and, in the shared state, no value; the tracer ends
  with an open channel, which holds an abort if the transaction selfdestructs (\<open>destroys\<close>) and
  otherwise only aborts for estimates of lower transactions, and with the read and write sets
  \<open>exec\<close> says the transaction has on the shared state.
\<close>

definition prepared :: "('s, 'tx) kaia \<Rightarrow> ('s, 't) Store \<Rightarrow> ('s, 'tx, 'rc, 'tc) DeliverTxTask \<Rightarrow> bool" where
  "prepared K s t \<longleftrightarrow> t_State t = Some (sdb_Copy K (parentStore s)) \<and>
     t_VersionStores t = Some (VersionedIndexedStore (t_Tx t) (t_AbsoluteIndex t) (t_Incarnation t)
       (Some (make_chan 1)))"

definition task_frame ::
  "('s, 'tx, 'rc, 'tc) DeliverTxTask \<Rightarrow> ('s, 'tx, 'rc, 'tc) DeliverTxTask \<Rightarrow> bool" where
  "task_frame t t' \<longleftrightarrow> t_Status t' = t_Status t \<and> t_Dependencies t' = t_Dependencies t \<and>
     t_Abort t' = t_Abort t \<and> t_Incarnation t' = t_Incarnation t \<and> t_Tx t' = t_Tx t \<and>
     t_AbsoluteIndex t' = t_AbsoluteIndex t \<and> t_Response t' = t_Response t"

type_synonym ('s, 'tx) effects = "'s \<Rightarrow> 'tx \<Rightarrow> bool \<times> ReadSet \<times> WriteSet"

definition delivered ::
  "'t vtree \<Rightarrow> ('s, 'tx) kaia \<Rightarrow> ('s, 'tx) effects \<Rightarrow> ('s \<Rightarrow> 'tx \<Rightarrow> bool) \<Rightarrow> ('s, 't) Store \<Rightarrow> ('s, 'tx, 'rc, 'tc) DeliverTxTask \<Rightarrow>
   (go_error + 'rc \<times> 'tc) \<Rightarrow> ('s, 'tx, 'rc, 'tc) DeliverTxTask \<Rightarrow> 's \<Rightarrow> bool" where
  "delivered B K exec destroys s t out t' st' \<longleftrightarrow>
     task_frame t t' \<and> state_values K st' = state_values K (parentStore s) \<and>
     (\<exists>a c. t_VersionStores t' = Some a \<and> tr_abortedChannel a = Some c \<and> \<not> ch_closed c \<and>
        (\<forall>x\<in>set (ch_buf c). abort_target B s (t_AbsoluteIndex t) (destroys (parentStore s) (t_Tx t)) x) \<and>
        (destroys (parentStore s) (t_Tx t) \<longrightarrow> ch_buf c \<noteq> []) \<and>
        tr_transactionIndex a = t_AbsoluteIndex t \<and> tr_incarnation a = t_Incarnation t \<and>
        exec (parentStore s) (t_Tx t) = (\<not> isl out, tr_readset a, tr_writeset a))"

locale delivery = value_tree B + kaia_spec K
  for B :: "'t vtree" and K :: "('s, 'tx) kaia" +
  fixes deliver :: "('s, 't, 'tx, 'rc, 'tc) deliverTxFunc" and exec :: "('s, 'tx) effects"
    and destroys :: "'s \<Rightarrow> 'tx \<Rightarrow> bool"
  assumes deliver_prepared: "prepared K s t \<Longrightarrow>
      \<exists>out t' st'. deliver s t = Inr (out, t', st') \<and> delivered B K exec destroys s t out t' st'"
    and exec_writes: "exec st tx = (ok, rs, ws) \<Longrightarrow> fmlookup ws k = Some v \<Longrightarrow> data_key K k \<and> storable K k v"

section \<open>The invariant\<close>

definition store_of :: "('s, 't, 'tx, 'rc, 'tc) scheduler \<Rightarrow> ('s, 't) Store" where
  "store_of sc = the (sc_multiVersionStores sc)"

definition task_ok :: "'tx list \<Rightarrow> nat \<Rightarrow> ('s, 'tx, 'rc, 'tc) DeliverTxTask \<Rightarrow> bool" where
  "task_ok txs i t \<longleftrightarrow> t_Tx t = txs ! i \<and> t_AbsoluteIndex t = int i \<and>
     fset (fmdom (t_Dependencies t)) \<subseteq> {0..<int (length txs)}"

text \<open>
  The scheduler at work on the transactions \<open>txs\<close>: the store exists, shares the state and is in
  order; task \<open>i\<close> is for transaction \<open>i\<close> and depends on transactions of the block only.
\<close>

definition sane ::
  "'t vtree \<Rightarrow> ('s, 'tx) kaia \<Rightarrow> 'tx list \<Rightarrow> ('s, 't, 'tx, 'rc, 'tc) scheduler \<Rightarrow> bool" where
  "sane B K txs sc \<longleftrightarrow>
     sc_multiVersionStores sc = Some (store_of sc) \<and> parentStore (store_of sc) = sc_state sc \<and>
     store_ok B K (length txs) (store_of sc) \<and> length (sc_allTasks sc) = length txs \<and>
     (\<forall>i<length txs. task_ok txs i (task_at sc i) \<and> fmlookup (sc_allTasksMap sc) (int i) = Some i)"

text \<open>A step at task \<open>i\<close> changes no other task, no other column and no value of the state.\<close>

definition step_at ::
  "'t vtree \<Rightarrow> ('s, 'tx) kaia \<Rightarrow> nat \<Rightarrow> ('s, 't, 'tx, 'rc, 'tc) scheduler \<Rightarrow>
   ('s, 't, 'tx, 'rc, 'tc) scheduler \<Rightarrow> bool" where
  "step_at B K i sc sc' \<longleftrightarrow>
     sc_synchronous sc' = sc_synchronous sc \<and> (\<forall>j. j \<noteq> i \<longrightarrow> task_at sc' j = task_at sc j) \<and>
     (\<forall>j. j \<noteq> int i \<longrightarrow> column B (store_of sc') j = column B (store_of sc) j \<and>
        fmlookup (txReadSets (store_of sc')) j = fmlookup (txReadSets (store_of sc)) j) \<and>
     state_values K (sc_state sc') = state_values K (sc_state sc)"

lemma store_of_simps [simp]:
  "store_of (updTask i f sc) = store_of sc"
  "store_of (updStore s sc) = s"
  by (simp_all add: store_of_def)

lemma store_of_shareState:
  "sc_multiVersionStores sc = Some s \<Longrightarrow> store_of (shareState st sc) = s\<lparr>parentStore := st\<rparr>"
  by (simp add: store_of_def)

lemma step_at_refl [simp]: "step_at B K i sc sc"
  by (simp add: step_at_def)

lemma step_at_trans: "step_at B K i sc sc' \<Longrightarrow> step_at B K i sc' sc'' \<Longrightarrow> step_at B K i sc sc''"
  by (simp add: step_at_def)

lemma sane_withStore: "sane B K txs sc \<Longrightarrow> withStore sc f = f (store_of sc)"
  by (simp add: sane_def withStore_def)

lemma step_at_updTask: "i < length (sc_allTasks sc) \<Longrightarrow> step_at B K i sc (updTask i f sc)"
  by (simp add: step_at_def task_at_updTask)

lemma sane_updTask:
  assumes "sane B K txs sc" "i < length txs" "task_ok txs i (f (task_at sc i))"
  shows "sane B K txs (updTask i f sc)"
  using assms by (auto simp: sane_def task_at_updTask)

lemma sane_updStore:
  assumes "sane B K txs sc" "store_ok B K (length txs) s" "parentStore s = sc_state sc"
  shows "sane B K txs (updStore s sc)"
  using assms by (simp add: sane_def)

lemma sane_shareState:
  assumes "sane B K txs sc"
  shows "sane B K txs (shareState st sc)" "store_of (shareState st sc) = (store_of sc)\<lparr>parentStore := st\<rparr>"
  using assms by (simp_all add: sane_def store_of_shareState)

lemma sane_task_ok: "sane B K txs sc \<Longrightarrow> i < length txs \<Longrightarrow> task_ok txs i (task_at sc i)"
  by (simp add: sane_def)

lemma sane_length: "sane B K txs sc \<Longrightarrow> length (sc_allTasks sc) = length txs"
  by (simp add: sane_def)

text \<open>Dependencies on transactions of the block are never nil.\<close>

lemma dependenciesValidated_ok:
  assumes "sane B K txs sc" "fset (fmdom deps) \<subseteq> {0..<int (length txs)}"
  shows "dependenciesValidated sc deps =
    Inr (\<forall>j\<in>fset (fmdom deps). t_Status (task_at sc (nat j)) = statusValidated)"
proof -
  have lk: "fmlookup (sc_allTasksMap sc) j = Some (nat j)" if "j \<in> fset (fmdom deps)" for j
  proof -
    have "j \<in> {0..<int (length txs)}" using that assms(2) by blast
    then have j: "0 \<le> j" "nat j < length txs" by auto
    then show ?thesis using assms(1) unfolding sane_def by (metis int_nat_eq)
  qed
  then have "\<forall>i\<in>set (fmkeys deps). fmlookup (sc_allTasksMap sc) i \<noteq> None" by simp
  from depsValidated_total [OF this] lk show ?thesis
    by (simp add: dependenciesValidated_def IsValidated_def)
qed

section \<open>Steps keep the invariant\<close>

text \<open>What an execution of a task leaves behind, by its outcome.\<close>

definition ran ::
  "'t vtree \<Rightarrow> ('s, 'tx) effects \<Rightarrow> ('s \<Rightarrow> 'tx \<Rightarrow> bool) \<Rightarrow> nat \<Rightarrow> ('s, 't, 'tx, 'rc, 'tc) scheduler \<Rightarrow>
   ('s, 't, 'tx, 'rc, 'tc) scheduler \<Rightarrow> bool" where
  "ran B exec destroys i sc sc' \<longleftrightarrow>
     (\<exists>ok rs ws. exec (sc_state sc) (t_Tx (task_at sc i)) = (ok, rs, ws) \<and>
        (let t = task_at sc i; t' = task_at sc' i; s = store_of sc; s' = store_of sc';
             d = destroys (sc_state sc) (t_Tx t) in
         t_Incarnation t' = t_Incarnation t \<and>
         (\<not> ok \<and> t_Status t' = t_Status t \<and> t_Response t' = t_Response t \<and>
            column B s' (int i) = column B s (int i) \<and>
            fmlookup (txReadSets s') (int i) = fmlookup (txReadSets s) (int i)
          \<or> ok \<and> \<not> d \<and> t_Status t' = statusExecuted \<and> t_Response t' \<noteq> None \<and>
            column B s' (int i) = (\<lambda>k. map_option (written (int i) (t_Incarnation t)) (fmlookup ws k)) \<and>
            fmlookup (txReadSets s') (int i) = Some rs
          \<or> ok \<and> t_Status t' = statusAborted \<and> t_Response t' = t_Response t \<and>
            (\<exists>x. t_Abort t' = Some x \<and> abort_target B s (int i) d x \<and>
               ab_DependentTxIdx x \<in> fset (fmdom (t_Dependencies t'))) \<and>
            column B s' (int i) =
              (\<lambda>k. map_option (\<lambda>_. NewEstimateItem (int i) (t_Incarnation t)) (fmlookup ws k)))))"

text \<open>
  What the end of a task leaves behind: with an empty abort channel \<open>c\<close> it is executed and what its
  tracer \<open>a\<close> recorded is published, otherwise it is aborted and its writes are published as estimates.
\<close>

definition finished ::
  "'t vtree \<Rightarrow> nat \<Rightarrow> 'tx AccessListTracer \<Rightarrow> Abort chan \<Rightarrow> ('s, 't, 'tx, 'rc, 'tc) scheduler \<Rightarrow>
   ('s, 't, 'tx, 'rc, 'tc) scheduler \<Rightarrow> bool" where
  "finished B i a c sc sc' \<longleftrightarrow>
     (let t = task_at sc i; t' = task_at sc' i; s' = store_of sc' in
      t_Incarnation t' = t_Incarnation t \<and>
      (ch_buf c = [] \<and> t_Status t' = statusExecuted \<and> t_Response t' \<noteq> None \<and>
         column B s' (int i) = (\<lambda>k. map_option (written (int i) (tr_incarnation a)) (fmlookup (tr_writeset a) k)) \<and>
         fmlookup (txReadSets s') (int i) = Some (tr_readset a)
       \<or> t_Status t' = statusAborted \<and> t_Response t' = t_Response t \<and>
         (\<exists>x\<in>set (ch_buf c). t_Abort t' = Some x \<and> ab_DependentTxIdx x \<in> fset (fmdom (t_Dependencies t'))) \<and>
         column B s' (int i) =
           (\<lambda>k. map_option (\<lambda>_. NewEstimateItem (int i) (tr_incarnation a)) (fmlookup (tr_writeset a) k))))"

text \<open>The tracer of a task of the block that has run, with its abort channel.\<close>

definition traced ::
  "('s, 'tx) kaia \<Rightarrow> nat \<Rightarrow> nat \<Rightarrow> 'tx AccessListTracer \<Rightarrow> Abort chan \<Rightarrow> bool" where
  "traced K n i a c \<longleftrightarrow> tr_abortedChannel a = Some c \<and> \<not> ch_closed c \<and> tr_transactionIndex a = int i \<and>
     (\<forall>x\<in>set (ch_buf c). 0 \<le> ab_DependentTxIdx x \<and> ab_DependentTxIdx x < int n) \<and>
     (\<forall>k v. fmlookup (tr_writeset a) k = Some v \<longrightarrow> data_key K k \<and> storable K k v)"

lemma sane_store:
  assumes "sane B K txs sc"
  shows "store_ok B K (length txs) (store_of sc)" "store_inv B (store_of sc)"
    "sc_multiVersionStores sc = Some (store_of sc)" "parentStore (store_of sc) = sc_state sc"
  using assms by (simp_all add: sane_def store_ok_def)

context delivery
begin

lemma finishTask_executed:
  assumes sane: "sane B K txs sc" and i: "i < length txs" and a: "t_VersionStores (task_at sc i) = Some a"
    and tr: "traced K (length txs) i a c" and c: "ch_buf c = []"
  shows "\<exists>sc'. finishTask B out i sc = Inr sc' \<and> sane B K txs sc' \<and> step_at B K i sc sc' \<and> finished B i a c sc sc'"
proof -
  note sto = sane_store [OF sane] and ok = sane_task_ok [OF sane i]
  have len: "i < length (sc_allTasks sc)" using sane i by (simp add: sane_length)
  let ?a = "a\<lparr>tr_abortedChannel := Some (close_chan c)\<rparr>"
  let ?sc = "updStore (WriteToMultiVersionStore B ?a (store_of sc))
    (updTask i (\<lambda>t. (SetStatus statusExecuted t)\<lparr>t_Response :=
       Some \<lparr>resp_Receipt = fst out, resp_Trace = snd out, resp_err = None\<rparr>\<rparr>)
     (updTask i (\<lambda>t. t\<lparr>t_VersionStores := Some ?a\<rparr>) sc))"
  have idx: "tr_transactionIndex a = int i" using tr by (simp add: traced_def)
  have "finishTask B out i sc = Inr ?sc"
    using a tr c by (simp add: finishTask_def concludeTask_def recv_closed_def close_chan_def withStore_def sto(3) Let_def traced_def)
  moreover have "store_ok B K (length txs) (SetWriteset B (store_of sc) (int i) (tr_incarnation a) (tr_writeset a))"
    using sto(1) i tr by (intro store_ok_SetWriteset) (auto simp: data_key_def traced_def)
  then have "sane B K txs ?sc"
    using ok idx len i sto by (intro sane_updStore sane_updTask sane)
      (auto simp: task_ok_def task_at_updTask WriteToMultiVersionStore_def)
  moreover have "step_at B K i sc ?sc"
    using len idx by (auto simp: step_at_def task_at_updTask WriteToMultiVersionStore_def column_writers [OF sto(2)])
  moreover have "finished B i a c sc ?sc"
    using len idx c by (simp add: finished_def Let_def task_at_updTask WriteToMultiVersionStore_def column_writers [OF sto(2)])
  ultimately show ?thesis by blast
qed

lemma finishTask_aborted:
  assumes sane: "sane B K txs sc" and i: "i < length txs" and a: "t_VersionStores (task_at sc i) = Some a"
    and tr: "traced K (length txs) i a c" and c: "ch_buf c = y # ys"
  shows "\<exists>sc'. finishTask B out i sc = Inr sc' \<and> sane B K txs sc' \<and> step_at B K i sc sc' \<and> finished B i a c sc sc'"
proof -
  note sto = sane_store [OF sane] and ok = sane_task_ok [OF sane i]
  have len: "i < length (sc_allTasks sc)" using sane i by (simp add: sane_length)
  let ?a = "a\<lparr>tr_abortedChannel := Some ((close_chan c)\<lparr>ch_buf := ys\<rparr>)\<rparr>"
  let ?sc = "updStore (WriteEstimatesToMultiVersionStore B ?a (store_of sc))
    (updTask i (\<lambda>t. AppendDependencies [ab_DependentTxIdx y] ((SetStatus statusAborted t)\<lparr>t_Abort := Some y\<rparr>))
     (updTask i (\<lambda>t. t\<lparr>t_VersionStores := Some ?a\<rparr>) sc))"
  have idx: "tr_transactionIndex a = int i" using tr by (simp add: traced_def)
  have "finishTask B out i sc = Inr ?sc"
    using a tr c by (simp add: finishTask_def concludeTask_def recv_closed_def close_chan_def withStore_def sto(3) Let_def traced_def)
  moreover have "store_ok B K (length txs) (SetEstimatedWriteset B (store_of sc) (int i) (tr_incarnation a) (tr_writeset a))"
    using sto(1) i tr by (intro store_ok_SetEstimatedWriteset) (auto simp: data_key_def traced_def)
  then have "sane B K txs ?sc"
    using ok idx len i sto tr c by (intro sane_updStore sane_updTask sane)
      (auto simp: task_ok_def task_at_updTask WriteEstimatesToMultiVersionStore_def traced_def)
  moreover have "step_at B K i sc ?sc"
    using len idx by (auto simp: step_at_def task_at_updTask WriteEstimatesToMultiVersionStore_def column_writers [OF sto(2)])
  moreover have "finished B i a c sc ?sc"
    using len idx c by (simp add: finished_def Let_def task_at_updTask WriteEstimatesToMultiVersionStore_def
        column_writers [OF sto(2)] AppendDependencies_def)
  ultimately show ?thesis by blast
qed

lemma finishTask_ok:
  assumes "sane B K txs sc" "i < length txs" "t_VersionStores (task_at sc i) = Some a" "traced K (length txs) i a c"
  shows "\<exists>sc'. finishTask B out i sc = Inr sc' \<and> sane B K txs sc' \<and> step_at B K i sc sc' \<and> finished B i a c sc sc'"
  using finishTask_executed [OF assms] finishTask_aborted [OF assms] by (cases "ch_buf c") auto

text \<open>The abort of a delivery names a transaction of the block.\<close>

lemma abort_target_range:
  assumes "store_ok B K n s" "i < n" "abort_target B s (int i) d x"
  shows "0 \<le> ab_DependentTxIdx x \<and> ab_DependentTxIdx x < int n"
  using assms by (auto simp: abort_target_def self_abort_def NewEstimateAbort_def store_latest_before_Some store_ok_def)

text \<open>A task up to the outcome of its delivery, and what its tracer and its abort channel then hold.\<close>

lemma runTask_delivers:
  assumes sane: "sane B K txs sc" and i: "i < length txs"
  obtains out :: "go_error + 'rc \<times> 'tc" and sc2 a c st' where
    "runTask B K deliver i sc = (case out of Inl err \<Rightarrow> Inr sc2 | Inr rt \<Rightarrow> finishTask B rt i sc2)"
    "sane B K txs sc2" "step_at B K i sc sc2" "store_of sc2 = (store_of sc)\<lparr>parentStore := st'\<rparr>"
    "task_frame (task_at sc i) (task_at sc2 i)" "t_VersionStores (task_at sc2 i) = Some a"
    "traced K (length txs) i a c" "tr_incarnation a = t_Incarnation (task_at sc i)"
    "\<forall>x\<in>set (ch_buf c). abort_target B (store_of sc) (int i) (destroys (sc_state sc) (txs ! i)) x"
    "destroys (sc_state sc) (txs ! i) \<longrightarrow> ch_buf c \<noteq> []"
    "exec (sc_state sc) (txs ! i) = (\<not> isl out, tr_readset a, tr_writeset a)"
proof -
  have len: "i < length (sc_allTasks sc)" using sane i by (simp add: sane_length)
  note ok = sane_task_ok [OF sane i] and sto = sane_store [OF sane]
  define t where "t = (task_at sc i)\<lparr>t_VersionStores := Some (VersionedIndexedStore (t_Tx (task_at sc i))
      (t_AbsoluteIndex (task_at sc i)) (t_Incarnation (task_at sc i)) (Some (make_chan 1))),
      t_State := Some (sdb_Copy K (sc_state sc))\<rparr>"
  have tf: "t_Tx t = txs ! i" "t_AbsoluteIndex t = int i" using ok by (simp_all add: t_def task_ok_def)
  have "prepared K (store_of sc) t" by (simp add: prepared_def t_def sto)
  from deliver_prepared [OF this] obtain out t' st' a c where
    d: "deliver (store_of sc) t = Inr (out, t', st')" and fr: "task_frame t t'"
    and st': "state_values K st' = state_values K (sc_state sc)"
    and a: "t_VersionStores t' = Some a" "tr_abortedChannel a = Some c" "\<not> ch_closed c"
      "\<forall>x\<in>set (ch_buf c). abort_target B (store_of sc) (int i) (destroys (sc_state sc) (txs ! i)) x"
      "tr_transactionIndex a = int i" "tr_incarnation a = t_Incarnation t"
    and loud: "destroys (sc_state sc) (txs ! i) \<longrightarrow> ch_buf c \<noteq> []"
    and ex: "exec (sc_state sc) (txs ! i) = (\<not> isl out, tr_readset a, tr_writeset a)"
    by (auto simp: delivered_def tf sto(4))
  define sc1 where "sc1 = updTask i (\<lambda>t. t\<lparr>t_State := Some (sdb_Copy K (sc_state sc))\<rparr>) (updTask i (\<lambda>task. task\<lparr>t_VersionStores :=
       Some (VersionedIndexedStore (t_Tx task) (t_AbsoluteIndex task) (t_Incarnation task) (Some (make_chan 1)))\<rparr>) sc)"
  define sc2 where "sc2 = shareState st' (updTask i (\<lambda>_. t') sc1)"
  have t1: "task_at sc1 i = t" using len by (simp add: sc1_def task_at_updTask t_def)
  have run: "runTask B K deliver i sc = (case out of Inl err \<Rightarrow> Inr sc2 | Inr rt \<Rightarrow> finishTask B rt i sc2)"
    using sane d t1 unfolding sc2_def sc1_def
    by (simp add: runTask_def prepareTask_def withStore_def sane_def Let_def split: sum.split)
  have fr': "task_frame (task_at sc i) t'" using fr by (simp add: task_frame_def t_def)
  have sane1: "sane B K txs (updTask i (\<lambda>_. t') sc1)"
    unfolding sc1_def using fr' ok
    by (intro sane_updTask sane i) (simp_all add: task_ok_def task_frame_def task_at_updTask len)
  have sane2: "sane B K txs sc2" and so2: "store_of sc2 = (store_of sc)\<lparr>parentStore := st'\<rparr>"
    using sane_shareState [OF sane1] by (simp_all add: sc2_def) (simp add: sc1_def)
  have t2: "task_at sc2 i = t'" and step2: "step_at B K i sc sc2"
    using len st' so2 by (auto simp: sc2_def sc1_def task_at_updTask step_at_def)
  have "traced K (length txs) i a c"
    using a exec_writes [OF ex] abort_target_range [OF sto(1) i] unfolding traced_def by blast
  then show ?thesis using that [OF run sane2 step2 so2] fr' a loud ex by (simp add: t2 t_def)
qed

lemma runTask_ok:
  assumes sane: "sane B K txs sc" and i: "i < length txs"
  shows "\<exists>sc'. runTask B K deliver i sc = Inr sc' \<and> sane B K txs sc' \<and> step_at B K i sc sc' \<and> ran B exec destroys i sc sc'"
proof -
  have tx: "t_Tx (task_at sc i) = txs ! i" using sane_task_ok [OF sane i] by (simp add: task_ok_def)
  obtain out :: "go_error + 'rc \<times> 'tc" and sc2 a c st' where
    run: "runTask B K deliver i sc = (case out of Inl err \<Rightarrow> Inr sc2 | Inr rt \<Rightarrow> finishTask B rt i sc2)"
    and sc2: "sane B K txs sc2" "step_at B K i sc sc2" "store_of sc2 = (store_of sc)\<lparr>parentStore := st'\<rparr>"
    and t2: "task_frame (task_at sc i) (task_at sc2 i)" "t_VersionStores (task_at sc2 i) = Some a"
    and a: "traced K (length txs) i a c" "tr_incarnation a = t_Incarnation (task_at sc i)"
      "\<forall>x\<in>set (ch_buf c). abort_target B (store_of sc) (int i) (destroys (sc_state sc) (txs ! i)) x"
      "destroys (sc_state sc) (txs ! i) \<longrightarrow> ch_buf c \<noteq> []"
    and ex: "exec (sc_state sc) (txs ! i) = (\<not> isl out, tr_readset a, tr_writeset a)"
    by (rule runTask_delivers [OF assms])
  show ?thesis
  proof (cases out)
    case (Inl err)
    have "ran B exec destroys i sc sc2"
      using ex t2 Inl by (auto simp: ran_def tx sc2(3) task_frame_def Let_def)
    with run Inl sc2 show ?thesis by simp
  next
    case (Inr rt)
    from finishTask_ok [OF sc2(1) i t2(2) a(1), of rt] obtain sc' where
      f: "finishTask B rt i sc2 = Inr sc'" "sane B K txs sc'" "step_at B K i sc2 sc'" "finished B i a c sc2 sc'" by blast
    have "ran B exec destroys i sc sc'"
      using f(4) a(2-4) ex Inr t2(1) unfolding ran_def finished_def Let_def tx task_frame_def by auto
    with run Inr f step_at_trans [OF sc2(2) f(3)] show ?thesis by simp
  qed
qed


text \<open>
  The verdict on a task: it is re-run, or it was found valid and is validated with nothing else
  changed, or it waits.
\<close>

lemma withdraw_ok:
  assumes sane: "sane B K txs sc" and i: "i < length txs"
    and cs: "set conflicts \<subseteq> {0..<int (length txs)}"
  shows "\<exists>sc'. pbind (invalidateTask B i sc) (\<lambda>sc. Inr (updTask i (AppendDependencies conflicts) sc)) = Inr sc' \<and>
    sane B K txs sc' \<and> step_at B K i sc sc' \<and> sc_state sc' = sc_state sc \<and>
    task_at sc' i = AppendDependencies conflicts (task_at sc i)"
proof -
  have len: "i < length (sc_allTasks sc)" using sane i by (simp add: sane_length)
  have ok: "task_ok txs i (task_at sc i)" using sane_task_ok [OF sane i] .
  then have idx: "t_AbsoluteIndex (task_at sc i) = int i" by (simp add: task_ok_def)
  have sto: "store_ok B K (length txs) (store_of sc)" "store_inv B (store_of sc)"
    "sc_multiVersionStores sc = Some (store_of sc)" "parentStore (store_of sc) = sc_state sc"
    using sane by (simp_all add: sane_def store_ok_def)
  let ?s = "ClearReadset (InvalidateWriteset B (store_of sc) (int i) (t_Incarnation (task_at sc i))) (int i)"
  let ?sc = "updTask i (AppendDependencies conflicts) (updStore ?s sc)"
  have "task_at ?sc i = AppendDependencies conflicts (task_at sc i)" using len by (simp add: task_at_updTask)
  moreover have "sane B K txs ?sc"
    using sto ok cs i by (intro sane_updTask sane_updStore sane) (auto simp: store_ok_InvalidateWriteset task_ok_def)
  moreover have "step_at B K i sc ?sc" "sc_state ?sc = sc_state sc"
    using len by (auto simp: step_at_def task_at_updTask column_writers [OF sto(2)])
  moreover have "invalidateTask B i sc = Inr (updStore ?s sc)"
    by (simp add: invalidateTask_def withStore_def sto(3) idx Let_def)
  ultimately show ?thesis by simp
qed

lemma rerunInvalid_ok:
  assumes sane: "sane B K txs sc" and i: "i < length txs"
    and cs: "set conflicts \<subseteq> {0..<int (length txs)}"
  shows "\<exists>r sc'. rerunInvalid B i conflicts sc = Inr (r, sc') \<and> sane B K txs sc' \<and> step_at B K i sc sc' \<and>
    sc_state sc' = sc_state sc \<and> (\<not> r \<longrightarrow> t_Status (task_at sc' i) = statusWaiting)"
proof -
  from withdraw_ok [OF assms] obtain sc1 where
    w: "pbind (invalidateTask B i sc) (\<lambda>sc. Inr (updTask i (AppendDependencies conflicts) sc)) = Inr sc1"
    and sane1: "sane B K txs sc1" and step1: "step_at B K i sc sc1" "sc_state sc1 = sc_state sc" by blast
  have dep: "dependenciesValidated sc1 (t_Dependencies (task_at sc1 i)) =
      Inr (\<forall>j\<in>fset (fmdom (t_Dependencies (task_at sc1 i))). t_Status (task_at sc1 (nat j)) = statusValidated)"
    using sane_task_ok [OF sane1 i] by (intro dependenciesValidated_ok [OF sane1]) (simp add: task_ok_def)
  have len1: "i < length (sc_allTasks sc1)" using sane1 i by (simp add: sane_length)
  define sc2 where "sc2 = updTask i (SetStatus statusWaiting) sc1"
  have sane2: "sane B K txs sc2"
    unfolding sc2_def using sane_task_ok [OF sane1 i] by (intro sane_updTask sane1 i) (simp add: task_ok_def)
  have step2: "step_at B K i sc sc2" "sc_state sc2 = sc_state sc" "t_Status (task_at sc2 i) = statusWaiting"
    using step1 step_at_trans [OF step1(1) step_at_updTask [OF len1]] len1
    by (simp_all add: sc2_def task_at_updTask)
  obtain sc0 where "invalidateTask B i sc = Inr sc0" "sc1 = updTask i (AppendDependencies conflicts) sc0"
    using w by (auto simp: pbind_eq_Inr)
  then have "rerunInvalid B i conflicts sc = Inr (True, sc1) \<or> rerunInvalid B i conflicts sc = Inr (False, sc2)"
    using dep by (auto simp: rerunInvalid_def Let_def sc2_def)
  with sane1 step1 sane2 step2 show ?thesis by blast
qed

text \<open>What a validation finds in the readset of a task.\<close>

lemma findConflicts_ok:
  assumes "sane B K txs sc" "i < length txs"
  shows "\<exists>valid cs. findConflicts B K i sc = Inr (valid, cs) \<and>
    valid = fst (ValidateTransactionState B K (store_of sc) (int i)) \<and> (valid \<longrightarrow> cs = []) \<and> set cs \<subseteq> {0..<int (length txs)}"
proof -
  have "t_AbsoluteIndex (task_at sc i) = int i" using sane_task_ok [OF assms] by (simp add: task_ok_def)
  moreover obtain valid cs where v: "ValidateTransactionState B K (store_of sc) (int i) = (valid, cs)" by fastforce
  ultimately have "findConflicts B K i sc = Inr (valid, cs)"
    by (simp add: findConflicts_eq sane_withStore [OF assms(1)])
  moreover have "set cs \<subseteq> {0..<int (length txs)}"
    using conflicts_in_range [of K "length txs" "store_of sc" _ K "int i"] assms(1) v by (fastforce simp: sane_def)
  moreover have "valid \<Longrightarrow> cs = []" using v valid_no_conflicts [of K "store_of sc" "int i" cs] by (cases valid) simp_all
  ultimately show ?thesis using v by auto
qed

lemma shouldRerun_ok:
  assumes sane: "sane B K txs sc" and i: "i < length txs"
  shows "\<exists>r sc'. shouldRerun B K i sc = Inr (r, sc') \<and> sane B K txs sc' \<and> step_at B K i sc sc' \<and>
    sc_state sc' = sc_state sc \<and>
    (\<not> r \<longrightarrow> t_Status (task_at sc' i) = statusWaiting \<or>
      sc' = updTask i (SetStatus statusValidated) sc \<and> fst (ValidateTransactionState B K (store_of sc) (int i)) \<and>
      t_Status (task_at sc i) \<in> {statusExecuted, statusValidated})"
proof -
  have len: "i < length (sc_allTasks sc)" using sane i by (simp add: sane_length)
  have ok: "task_ok txs i (task_at sc i)" using sane_task_ok [OF sane i] .
  from findConflicts_ok [OF assms] obtain valid cs where fc: "findConflicts B K i sc = Inr (valid, cs)"
    and v: "valid = fst (ValidateTransactionState B K (store_of sc) (int i))" and none: "valid \<Longrightarrow> cs = []"
    and rng: "set cs \<subseteq> {0..<int (length txs)}" by blast
  have upd: "sane B K txs (updTask i (SetStatus statusValidated) sc)"
    using ok by (intro sane_updTask sane i) (simp add: task_ok_def)
  consider (rerun) "t_Status (task_at sc i) \<in> {statusAborted, statusPending}"
    | (check) "t_Status (task_at sc i) \<in> {statusExecuted, statusValidated}"
    | (wait) "t_Status (task_at sc i) = statusWaiting"
    by (cases "t_Status (task_at sc i)") auto
  then show ?thesis
  proof cases
    case rerun
    then have "shouldRerun B K i sc = Inr (True, sc)" by (simp add: shouldRerun_def Let_def)
    with sane show ?thesis by auto
  next
    case check
    show ?thesis
    proof (cases valid)
      case True
      have "shouldRerun B K i sc = Inr (False, updTask i (SetStatus statusValidated) sc)"
        using check True by (auto simp: shouldRerun_def Let_def fc none)
      with upd step_at_updTask [OF len, of B K "SetStatus statusValidated"] check True v show ?thesis by auto
    next
      case False
      then have "shouldRerun B K i sc = rerunInvalid B i cs sc"
        using check by (auto simp: shouldRerun_def Let_def fc)
      with rerunInvalid_ok [OF sane i rng] show ?thesis by auto
    qed
  next
    case wait
    have "dependenciesValidated sc (t_Dependencies (task_at sc i)) =
        Inr (\<forall>j\<in>fset (fmdom (t_Dependencies (task_at sc i))). t_Status (task_at sc (nat j)) = statusValidated)"
      using ok by (intro dependenciesValidated_ok [OF sane]) (simp add: task_ok_def)
    with wait sane show ?thesis by (simp add: shouldRerun_def Let_def)
  qed
qed


lemma reset_ok:
  assumes "sane B K txs sc" "i < length txs"
  shows "sane B K txs (updTask i (\<lambda>t. Increment (Task_Reset t)) sc)"
    "step_at B K i sc (updTask i (\<lambda>t. Increment (Task_Reset t)) sc)"
  using assms sane_task_ok [OF assms]
  by (auto intro!: sane_updTask step_at_updTask simp: task_ok_def sane_length)

lemma validateOne_ok:
  assumes sane: "sane B K txs sc" and i: "i < length txs"
  shows "\<exists>sc' res'. validateOne B K i (sc, res) = Inr (sc', res') \<and> sane B K txs sc' \<and> step_at B K i sc sc' \<and>
    sc_state sc' = sc_state sc \<and>
    (t_Status (task_at sc' i) = statusPending \<and> res' = res @ [i] \<or>
     t_Status (task_at sc' i) = statusWaiting \<and> res' = res \<or>
     task_at sc' i = SetStatus statusValidated (task_at sc i) \<and> res' = res \<and> store_of sc' = store_of sc \<and>
       fst (ValidateTransactionState B K (store_of sc) (int i)) \<and>
       t_Status (task_at sc i) \<in> {statusExecuted, statusValidated})"
proof -
  have len: "i < length (sc_allTasks sc)" using sane i by (simp add: sane_length)
  from shouldRerun_ok [OF sane i] obtain r sc1 where
    sr: "shouldRerun B K i sc = Inr (r, sc1)" and sane1: "sane B K txs sc1" and step1: "step_at B K i sc sc1"
    and st1: "sc_state sc1 = sc_state sc"
    and wait: "\<not> r \<Longrightarrow> t_Status (task_at sc1 i) = statusWaiting \<or>
      sc1 = updTask i (SetStatus statusValidated) sc \<and> fst (ValidateTransactionState B K (store_of sc) (int i)) \<and>
      t_Status (task_at sc i) \<in> {statusExecuted, statusValidated}" by blast
  show ?thesis
  proof (cases r)
    case False
    then have "validateOne B K i (sc, res) = Inr (sc1, res)"
      by (simp add: validateOne_def validateTask_def sr)
    with wait [OF False] sane1 step1 st1 len show ?thesis by (auto simp: task_at_updTask)
  next
    case True
    define sc2 where "sc2 = updTask i (\<lambda>t. Increment (Task_Reset t)) sc1"
    define sc3 where "sc3 = (if t_Incarnation (task_at sc2 i) > sint (sc_maxIncarnation sc2)
      then sc2\<lparr>sc_maxIncarnation := word_of_int (t_Incarnation (task_at sc2 i))\<rparr> else sc2)"
    have "validateOne B K i (sc, res) = Inr (sc3, res @ [i])"
      by (simp add: validateOne_def validateTask_def sr True Let_def sc3_def flip: sc2_def)
    moreover have "sane B K txs sc2" "step_at B K i sc sc2" "sc_state sc2 = sc_state sc"
      "t_Status (task_at sc2 i) = statusPending"
      using reset_ok [OF sane1 i] step_at_trans [OF step1] st1 i sane_length [OF sane1]
      by (simp_all add: sc2_def task_at_updTask)
    then have "sane B K txs sc3" "step_at B K i sc sc3" "sc_state sc3 = sc_state sc"
      "t_Status (task_at sc3 i) = statusPending"
      by (simp_all add: sc3_def sane_def step_at_def store_of_def task_at_def)
    ultimately show ?thesis by blast
  qed
qed

lemma resumeTask_ok:
  assumes sane: "sane B K txs sc" and i: "i < length txs"
  shows "\<exists>r sc'. resumeTask B K i sc = Inr (r, sc') \<and> sane B K txs sc' \<and> step_at B K i sc sc' \<and>
    (\<not> sc_synchronous sc \<longrightarrow> r \<and> sc' = sc)"
proof (cases "sc_synchronous sc")
  case False
  with sane show ?thesis by (intro exI [of _ True] exI [of _ sc]) (simp add: resumeTask_def)
next
  case True
  define m where "m = (if IsValidated (task_at sc i)
      then pbind (shouldRerun B K i sc) (\<lambda>(rerun, sc). Inr (IsValidated (task_at sc i), sc))
      else Inr (False, sc))"
  obtain d sc1 where m: "m = Inr (d, sc1)" "sane B K txs sc1" "step_at B K i sc sc1"
    using shouldRerun_ok [OF sane i] sane unfolding m_def
    by (cases "IsValidated (task_at sc i)") auto
  have "resumeTask B K i sc = pbind m (\<lambda>(done, sc).
      if done then Inr (False, sc)
      else if \<not> IsStatus (task_at sc i) statusPending
      then Inr (True, updTask i (\<lambda>t. Increment (Task_Reset t)) sc)
      else Inr (True, sc))"
    by (simp add: resumeTask_def m_def True)
  with True m(1) have "\<exists>r. resumeTask B K i sc = Inr (r, sc1) \<or>
      resumeTask B K i sc = Inr (r, updTask i (\<lambda>t. Increment (Task_Reset t)) sc1)" by auto
  with True m(2,3) reset_ok [OF m(2) i] step_at_trans [OF m(3)] show ?thesis by blast
qed

lemma executeTask_ok:
  assumes sane: "sane B K txs sc" and i: "i < length txs"
  shows "\<exists>sc'. executeTask B K deliver i sc = Inr sc' \<and> sane B K txs sc' \<and> step_at B K i sc sc' \<and>
    (\<not> sc_synchronous sc \<longrightarrow> ran B exec destroys i sc sc')"
proof -
  from resumeTask_ok [OF assms] obtain r sc1 where r: "resumeTask B K i sc = Inr (r, sc1)" "sane B K txs sc1"
    "step_at B K i sc sc1" "\<not> sc_synchronous sc \<longrightarrow> r \<and> sc1 = sc" by blast
  from runTask_ok [OF r(2) i] obtain sc2 where sc2: "runTask B K deliver i sc1 = Inr sc2" "sane B K txs sc2"
    "step_at B K i sc1 sc2" "ran B exec destroys i sc1 sc2" by blast
  with r step_at_trans [OF r(3)] show ?thesis by (cases r) (auto simp: executeTask_def)
qed

lemma flushUntil_ok:
  assumes sane: "sane B K txs sc"
  shows "\<exists>sc' st. flushUntil B K lo hi sc = Inr sc' \<and> sane B K txs sc' \<and> sc' = shareState (sdb_Finalise K st True False) sc \<and>
    (\<forall>k. data_key K k \<longrightarrow> state_values K st k =
      (case final_version B (store_of sc) k of
         None \<Rightarrow> state_values K (sc_state sc) k
       | Some it \<Rightarrow> if lo \<le> vi_index it \<and> vi_index it < hi then vi_value it else state_values K (sc_state sc) k))"
proof -
  have "store_storable B K (store_of sc)" using sane by (auto simp: sane_def intro: store_ok_storable)
  from write_until_values [OF value_tree_axioms kaia_spec_axioms this, of lo hi "sc_state sc"] obtain st where
    "WriteLatestToStoreUntil B K (store_of sc) lo hi (sc_state sc) = Inr (sdb_Finalise K st True False)"
    "\<forall>k. data_key K k \<longrightarrow> StorageKey_GetValue K k st =
      (case final_version B (store_of sc) k of
         None \<Rightarrow> StorageKey_GetValue K k (sc_state sc)
       | Some it \<Rightarrow> if lo \<le> vi_index it \<and> vi_index it < hi then vi_value it
           else StorageKey_GetValue K k (sc_state sc))"
    by blast
  with sane_shareState(1) [OF sane] show ?thesis
    by (intro exI [of _ "shareState (sdb_Finalise K st True False) sc"] exI [of _ st])
      (simp add: flushUntil_def sane_withStore [OF sane] state_values_def split: option.split)
qed

end

section \<open>The start of a block\<close>

text \<open>The entries of a block: transaction \<open>i\<close> has the absolute index \<open>i\<close>.\<close>

definition block :: "'tx DeliverTxEntry list \<Rightarrow> bool" where
  "block reqs \<longleftrightarrow> map en_AbsoluteIndex reqs = map int [0..<length reqs]"

text \<open>The state in which \<open>ProcessAll\<close> of a new scheduler enters its loop.\<close>

definition startState :: "'s \<Rightarrow> int \<Rightarrow> 'tx DeliverTxEntry list \<Rightarrow> ('s, 't, 'tx, 'rc, 'tc) scheduler" where
  "startState st w reqs =
     (let (tasks, tasksMap) = toTasks reqs in
      (initMultiVersionStores (NewScheduler st w))\<lparr>sc_allTasks := tasks, sc_allTasksMap := tasksMap\<rparr>)"

lemma startState_simps:
  "sc_multiVersionStores (startState st w reqs) = Some (NewMultiVersionStore st)"
  "store_of (startState st w reqs) = NewMultiVersionStore st"
  "sc_state (startState st w reqs) = st"
  "sc_synchronous (startState st w reqs) = False"
  "sc_allTasks (startState st w reqs) = map newTask reqs"
  by (auto simp: startState_def initMultiVersionStores_def NewScheduler_def store_of_def
      split: prod.split dest: toTasks_tasks)

lemma startState_lookup:
  assumes "block reqs" "i < length reqs"
  shows "fmlookup (sc_allTasksMap (startState st w reqs)) (int i) = Some i"
    "en_AbsoluteIndex (reqs ! i) = int i"
proof -
  have "distinct (map int [0..<length reqs])" by (simp add: distinct_map)
  then have d: "distinct (map en_AbsoluteIndex reqs)" using assms(1) by (simp add: block_def)
  have "map en_AbsoluteIndex reqs ! i = map int [0..<length reqs] ! i" using assms(1) by (simp add: block_def)
  with assms(2) show idx: "en_AbsoluteIndex (reqs ! i) = int i" by simp
  show "fmlookup (sc_allTasksMap (startState st w reqs)) (int i) = Some i"
    using toTasks_lookup [OF _ d assms(2)] idx
    by (auto simp: startState_def initMultiVersionStores_def NewScheduler_def split: prod.split)
qed

lemma task_at_startState: "i < length reqs \<Longrightarrow> task_at (startState st w reqs) i = newTask (reqs ! i)"
  by (simp add: task_at_def startState_simps)

lemma ProcessAll_start:
  "ProcessAll B K deliver S reqs (NewScheduler st w) =
   pbind (processLoop B K deliver S 0 0 [0..<length reqs] (startState st w reqs)) (\<lambda>sc.
     withStore sc (\<lambda>s. pbind (WriteLatestToStore B K s (sc_state sc)) (\<lambda>st.
       Inr (collectResponses (sc_allTasks sc), shareState st sc))))"
  by (auto simp: ProcessAll_def startState_def Let_def split: prod.split dest!: toTasks_tasks)

context delivery
begin

lemma sane_startState:
  assumes "block reqs"
  shows "sane B K (map en_Tx reqs) (startState st w reqs)"
  by (simp add: sane_def startState_simps store_ok_new task_at_startState task_ok_def newTask_def
      startState_lookup [OF assms]) (simp add: NewMultiVersionStore_def)

lemma final_flush_ok:
  assumes sane: "sane B K txs sc"
  shows "\<exists>st. WriteLatestToStore B K (store_of sc) (sc_state sc) = Inr (sdb_Finalise K st True False) \<and>
    (\<forall>k. data_key K k \<longrightarrow> state_values K st k =
      (case final_version B (store_of sc) k of None \<Rightarrow> state_values K (sc_state sc) k | Some it \<Rightarrow> vi_value it))"
proof -
  have "store_storable B K (store_of sc)" using sane by (auto simp: sane_def intro: store_ok_storable)
  from write_back_values [OF value_tree_axioms kaia_spec_axioms this, of "\<lambda>_. True" "sc_state sc"] show ?thesis
    by (auto simp: WriteLatestToStore_def state_values_def flushed_value_def split: option.split)
qed

end

end
