(* ===== verification/Steps.thy ===== *)
theory Steps
  imports Rounds
begin

text \<open>
  The scheduler as a state machine. Its steps are the executions and validations of single tasks, the
  write-backs and the fallback to the synchronous mode, in any order; every run of \<open>ProcessAll\<close> is a
  sequence of such steps. What holds of every reachable state is proved by rule induction.
\<close>

section \<open>Steps\<close>

inductive sched_step ::
  "'t vtree \<Rightarrow> ('s, 'tx) kaia \<Rightarrow> ('s, 't, 'tx, 'rc, 'tc) deliverTxFunc \<Rightarrow> nat \<Rightarrow>
   ('s, 't, 'tx, 'rc, 'tc) scheduler \<Rightarrow> ('s, 't, 'tx, 'rc, 'tc) scheduler \<Rightarrow> bool"
  for B K deliver n where
  Execute: "i < n \<Longrightarrow> executeTask B K deliver i sc = Inr sc' \<Longrightarrow> sched_step B K deliver n sc sc'"
| Validate: "i < n \<Longrightarrow> validateOne B K i (sc, res) = Inr (sc', res') \<Longrightarrow> sched_step B K deliver n sc sc'"
| Flush: "flushUntil B K lo hi sc = Inr sc' \<Longrightarrow> sched_step B K deliver n sc sc'"
| Fallback: "sched_step B K deliver n sc (sc\<lparr>sc_synchronous := True\<rparr>)"

abbreviation reaches ::
  "'t vtree \<Rightarrow> ('s, 'tx) kaia \<Rightarrow> ('s, 't, 'tx, 'rc, 'tc) deliverTxFunc \<Rightarrow> nat \<Rightarrow>
   ('s, 't, 'tx, 'rc, 'tc) scheduler \<Rightarrow> ('s, 't, 'tx, 'rc, 'tc) scheduler \<Rightarrow> bool" where
  "reaches B K deliver n \<equiv> rtranclp (sched_step B K deliver n)"

lemmas reaches_trans = rtranclp_trans [of "sched_step B K deliver n" for B K deliver n]

lemma sane_synchronous [simp]: "sane B K txs (sc\<lparr>sc_synchronous := b\<rparr>) = sane B K txs sc"
  by (simp add: sane_def store_of_def task_at_def)

context delivery
begin

lemma sane_step:
  assumes "sched_step B K deliver (length txs) sc sc'" "sane B K txs sc"
  shows "sane B K txs sc'"
  using assms
proof cases
  case (Execute i)
  with executeTask_ok [OF assms(2), of i] show ?thesis by auto
next
  case (Validate i res res')
  with validateOne_ok [OF assms(2), of i res] show ?thesis by auto
next
  case (Flush lo hi)
  with flushUntil_ok [OF assms(2), of lo hi] show ?thesis by auto
next
  case Fallback
  with assms(2) show ?thesis by simp
qed

lemma sane_reaches:
  assumes "reaches B K deliver (length txs) sc sc'" "sane B K txs sc"
  shows "sane B K txs sc'"
  using assms by (induction rule: rtranclp_induct) (auto intro: sane_step)

text \<open>No step panics.\<close>

lemma steps_enabled:
  assumes "sane B K txs sc" "i < length txs"
  shows "\<exists>sc'. executeTask B K deliver i sc = Inr sc' \<and> sched_step B K deliver (length txs) sc sc'"
    "\<exists>sc' res'. validateOne B K i (sc, res) = Inr (sc', res') \<and> sched_step B K deliver (length txs) sc sc' \<and>
       set res' \<subseteq> insert i (set res)"
  using executeTask_ok [OF assms] validateOne_ok [OF assms, of res] assms(2)
  by (fastforce intro: sched_step.intros)+

lemma flush_enabled:
  assumes "sane B K txs sc"
  shows "\<exists>sc'. flushUntil B K lo hi sc = Inr sc' \<and> sched_step B K deliver (length txs) sc sc' \<and>
    sc_synchronous sc' = sc_synchronous sc"
  using flushUntil_ok [OF assms, of lo hi] by (auto intro: sched_step.intros)

section \<open>Every run is a sequence of steps\<close>

text \<open>A loop of the scheduler whose passes are sequences of steps is one.\<close>

lemma pfold_reaches:
  assumes sane: "sane B K txs (sched s)"
    and pass: "\<And>x s'. x \<in> set xs \<Longrightarrow> sane B K txs (sched s') \<Longrightarrow> I s' \<Longrightarrow>
      \<exists>s''. f x s' = Inr s'' \<and> reaches B K deliver (length txs) (sched s') (sched s'') \<and> I s''"
    and I: "I s"
  shows "\<exists>s'. pfold f xs s = Inr s' \<and> reaches B K deliver (length txs) (sched s) (sched s') \<and> I s'"
proof -
  have "\<exists>s'. pfold f xs s = Inr s' \<and> (reaches B K deliver (length txs) (sched s) (sched s') \<and> I s')"
  proof (rule pfold_invariant)
    fix x s' assume "x \<in> set xs" and s': "reaches B K deliver (length txs) (sched s) (sched s') \<and> I s'"
    with pass [of x s'] sane_reaches [OF _ sane] obtain s'' where
      "f x s' = Inr s''" "reaches B K deliver (length txs) (sched s') (sched s'')" "I s''" by blast
    with s' show "\<exists>s''. f x s' = Inr s'' \<and> reaches B K deliver (length txs) (sched s) (sched s'') \<and> I s''"
      by (blast intro: reaches_trans)
  qed (use I in simp)
  then show ?thesis by blast
qed

lemma syncOne_reaches:
  assumes "sane B K txs sc" "i < length txs"
  shows "\<exists>sc' l'. syncOne B K deliver i (sc, l) = Inr (sc', l') \<and> reaches B K deliver (length txs) sc sc' \<and>
    sc_synchronous sc' = sc_synchronous sc"
proof -
  obtain sc1 where sc1: "flushUntil B K l (t_AbsoluteIndex (task_at sc i)) sc = Inr sc1"
    "sched_step B K deliver (length txs) sc sc1" "sc_synchronous sc1 = sc_synchronous sc"
    using flush_enabled [OF assms(1)] by blast
  obtain sc2 where sc2: "executeTask B K deliver i sc1 = Inr sc2" "step_at B K i sc1 sc2"
    using executeTask_ok [OF sane_step [OF sc1(2) assms(1)] assms(2)] by blast
  have "sched_step B K deliver (length txs) sc1 sc2" using assms(2) sc2(1) by (rule sched_step.Execute)
  with sc1(2) have "reaches B K deliver (length txs) sc sc2" by simp
  with sc1 sc2 show ?thesis by (simp add: syncOne_def Let_def step_at_def)
qed

lemma processAllSync_reaches:
  assumes "sane B K txs sc" "set is \<subseteq> {..<length txs}"
  shows "\<exists>sc'. processAllSync B K deliver is sc = Inr sc' \<and> reaches B K deliver (length txs) sc sc' \<and>
    sc_synchronous sc' = sc_synchronous sc"
proof -
  have "\<exists>acc. pfold (syncOne B K deliver) is (sc, 0) = Inr acc \<and>
      reaches B K deliver (length txs) (fst (sc, 0 :: int)) (fst acc) \<and> sc_synchronous (fst acc) = sc_synchronous sc"
  proof (rule pfold_reaches)
    show "\<exists>acc'. syncOne B K deliver i acc = Inr acc' \<and> reaches B K deliver (length txs) (fst acc) (fst acc') \<and>
        sc_synchronous (fst acc') = sc_synchronous sc"
      if "i \<in> set is" "sane B K txs (fst acc)" "sc_synchronous (fst acc) = sc_synchronous sc" for i acc
      using syncOne_reaches [OF that(2), of i "snd acc"] that(1,3) assms(2) by fastforce
  qed (use assms(1) in simp_all)
  then show ?thesis by (auto simp: processAllSync_def)
qed

lemma executeAll_reaches:
  assumes "sane B K txs sc" "set is \<subseteq> {..<length txs}" "set (order is) = set is"
  shows "\<exists>sc'. executeAll B K deliver order is sc = Inr sc' \<and> reaches B K deliver (length txs) sc sc'"
proof -
  have "\<exists>sc'. pfold (executeTask B K deliver) (workOrder sc order is) sc = Inr sc' \<and>
      reaches B K deliver (length txs) sc sc' \<and> True"
  proof (rule pfold_reaches [where sched = "\<lambda>sc. sc"])
    show "\<exists>sc'. executeTask B K deliver i sc1 = Inr sc' \<and> reaches B K deliver (length txs) sc1 sc' \<and> True"
      if "i \<in> set (workOrder sc order is)" "sane B K txs sc1" for i sc1
      using steps_enabled(1) [OF that(2), of i] that(1) assms(2,3) by (auto simp: workOrder_def split: if_splits)
  qed (use assms(1) in simp_all)
  then show ?thesis by (auto simp: executeAll_def)
qed

lemma validateAll_reaches:
  assumes "sane B K txs sc" "\<And>is. set (order is) = set is"
  shows "\<exists>sc' res. validateAll B K order sc = Inr (sc', res) \<and> reaches B K deliver (length txs) sc sc' \<and>
    set res \<subseteq> {..<length txs}"
proof (cases "findFirstNonValidated sc")
  case (Pair p anyLeft)
  have "\<exists>acc. pfold (validateOne B K) (workOrder sc order [p..<length (sc_allTasks sc)]) (sc, []) = Inr acc \<and>
      reaches B K deliver (length txs) (fst (sc, [] :: nat list)) (fst acc) \<and> set (snd acc) \<subseteq> {..<length txs}"
  proof (rule pfold_reaches)
    show "\<exists>acc'. validateOne B K i acc = Inr acc' \<and> reaches B K deliver (length txs) (fst acc) (fst acc') \<and>
        set (snd acc') \<subseteq> {..<length txs}"
      if "i \<in> set (workOrder sc order [p..<length (sc_allTasks sc)])" "sane B K txs (fst acc)"
        "set (snd acc) \<subseteq> {..<length txs}" for i acc
    proof -
      have i: "i < length txs"
        using that(1) assms(2) sane_length [OF assms(1)] by (auto simp: workOrder_def split: if_splits)
      from steps_enabled(2) [OF that(2) i, of "snd acc"] that(3) i show ?thesis by fastforce
    qed
  qed (use assms(1) in simp_all)
  with Pair show ?thesis by (auto simp: validateAll_def)
qed

lemma processRound_reaches:
  assumes "sane B K txs sc" "set is \<subseteq> {..<length txs}"
    and "\<And>r is. set (exec_order S r is) = set is" "\<And>r is. set (valid_order S r is) = set is"
  shows "\<exists>sc' res. processRound B K deliver S r l p is sc = Inr (sc', res) \<and>
    reaches B K deliver (length txs) sc sc' \<and> set res \<subseteq> {..<length txs}"
proof -
  obtain sc1 where sc1: "(if p > l then flushUntil B K (int l) (int p) sc else Inr sc) = Inr sc1"
    "reaches B K deliver (length txs) sc sc1"
    using flush_enabled [OF assms(1), of "int l" "int p"] by (cases "p > l") auto
  note sane1 = sane_reaches [OF sc1(2) assms(1)]
  obtain sc2 where sc2: "executeAll B K deliver (exec_order S r) is sc1 = Inr sc2" "reaches B K deliver (length txs) sc1 sc2"
    using executeAll_reaches [OF sane1 assms(2), of "exec_order S r"] assms(3) by blast
  obtain sc3 res where "validateAll B K (valid_order S r) sc2 = Inr (sc3, res)"
    "reaches B K deliver (length txs) sc2 sc3" "set res \<subseteq> {..<length txs}"
    using validateAll_reaches [OF sane_reaches [OF sc2(2) sane1], of "valid_order S r"] assms(4) by blast
  with sc1 sc2 show ?thesis by (auto simp: processRound_def intro: reaches_trans)
qed

lemma processLoop_reaches:
  assumes "sane B K txs sc" "set is \<subseteq> {..<length txs}"
    and "\<And>r is. set (exec_order S r is) = set is" "\<And>r is. set (valid_order S r is) = set is"
  shows "\<exists>sc'. processLoop B K deliver S r l is sc = Inr sc' \<and> reaches B K deliver (length txs) sc sc'"
  using assms(1,2)
proof (induction "maximumIterations - r" arbitrary: r l "is" sc rule: less_induct)
  case less
  show ?case
  proof (cases "allValidated (sc_allTasks sc)")
    case True
    then show ?thesis by (subst processLoop.simps) simp
  next
    case False
    then obtain p where p: "findFirstNonValidated sc = (p, True)" by (rule findFirstNonValidated_Some)
    show ?thesis
    proof (cases "r \<ge> maximumIterations")
      case True
      have "set [p..<length txs] \<subseteq> {..<length txs}" by auto
      then obtain sc' where sc': "processAllSync B K deliver [p..<length txs] (sc\<lparr>sc_synchronous := True\<rparr>) = Inr sc'"
        "reaches B K deliver (length txs) (sc\<lparr>sc_synchronous := True\<rparr>) sc'"
        using processAllSync_reaches [of txs "sc\<lparr>sc_synchronous := True\<rparr>" "[p..<length txs]"] less.prems(1) by auto
      have "reaches B K deliver (length txs) sc sc'"
        by (rule converse_rtranclp_into_rtranclp [OF sched_step.Fallback sc'(2)])
      with sc'(1) show ?thesis
        using False p True sane_length [OF less.prems(1)] by (subst processLoop.simps) (simp add: Let_def)
    next
      case lim: False
      from processRound_reaches [OF less.prems assms(3,4), of r l p] obtain sc1 res where
        rd: "processRound B K deliver S r l p is sc = Inr (sc1, res)" "reaches B K deliver (length txs) sc sc1"
          "set res \<subseteq> {..<length txs}"
        by blast
      have "maximumIterations - (r + 1) < maximumIterations - r" using lim by simp
      from less.hyps [OF this sane_reaches [OF rd(2) less.prems(1)] rd(3)] obtain sc' where
        "processLoop B K deliver S (r + 1) (if p > l then p else l) res sc1 = Inr sc'"
        "reaches B K deliver (length txs) sc1 sc'" by blast
      with reaches_trans [OF rd(2)] show ?thesis
        using False p lim rd(1) by (subst processLoop.simps) simp
    qed
  qed
qed

lemma ProcessAll_ok:
  assumes "block reqs" "\<And>r is. set (exec_order S r is) = set is" "\<And>r is. set (valid_order S r is) = set is"
  shows "\<exists>resp sc sc'. ProcessAll B K deliver S reqs (NewScheduler st w) = Inr (resp, sc) \<and>
    length resp = length reqs \<and> sane B K (map en_Tx reqs) sc \<and>
    reaches B K deliver (length reqs) (startState st w reqs) sc' \<and> resp = map t_Response (sc_allTasks sc') \<and>
    sane B K (map en_Tx reqs) sc'"
proof -
  have "set [0..<length reqs] \<subseteq> {..<length (map en_Tx reqs)}" by auto
  from processLoop_reaches [OF sane_startState [OF assms(1)] this assms(2,3)] obtain sc where
    sc: "processLoop B K deliver S 0 0 [0..<length reqs] (startState st w reqs) = Inr sc"
      "reaches B K deliver (length (map en_Tx reqs)) (startState st w reqs) sc" by blast
  note sane = sane_reaches [OF sc(2) sane_startState [OF assms(1)]]
  from final_flush_ok [OF sane] obtain st' where
    "WriteLatestToStore B K (store_of sc) (sc_state sc) = Inr (sdb_Finalise K st' True False)" by blast
  then have "ProcessAll B K deliver S reqs (NewScheduler st w) =
      Inr (collectResponses (sc_allTasks sc), shareState (sdb_Finalise K st' True False) sc)"
    by (simp add: ProcessAll_start sc(1) sane_withStore [OF sane])
  with sane_shareState(1) [OF sane] sane_length [OF sane] sc(2) sane show ?thesis
    by (intro exI [of _ "map t_Response (sc_allTasks sc)"] exI [of _ "shareState (sdb_Finalise K st' True False) sc"]
        exI [of _ sc]) (simp add: collectResponses_eq)
qed

end

end
