(* ===== verification/Serializability.thy ===== *)
theory Serializability
  imports Steps
begin

text \<open>
  The main theorem about the scheduler: when every transaction is validated within the concurrent
  rounds, the final state is the one of executing the transactions one after the other, whatever the
  order in which the workers carried out the tasks. It rests on the contract of \<open>deliverTx\<close> and on
  the determinism of a transaction in what it reads (the locale \<open>deterministic_delivery\<close>).
\<close>

section \<open>Serial execution\<close>

text \<open>The reference: run a transaction on the state its predecessors left and store what it wrote.\<close>

definition applyWrites :: "('s, 'tx) kaia \<Rightarrow> WriteSet \<Rightarrow> 's \<Rightarrow> 's" where
  "applyWrites K ws st =
     fold (\<lambda>k st. case fmlookup ws k of None \<Rightarrow> st | Some v \<Rightarrow> StorageKey_SetValue K k st v) (fmkeys ws) st"

definition serialStep :: "('s, 'tx) kaia \<Rightarrow> ('s, 'tx) effects \<Rightarrow> 'tx \<Rightarrow> 's \<Rightarrow> 's" where
  "serialStep K exec tx st = (case exec st tx of (ok, rs, ws) \<Rightarrow> if ok then applyWrites K ws st else st)"

definition serial :: "('s, 'tx) kaia \<Rightarrow> ('s, 'tx) effects \<Rightarrow> 'tx list \<Rightarrow> 's \<Rightarrow> 's" where
  "serial K exec txs st = fold (serialStep K exec) txs st"

section \<open>Determinism\<close>

text \<open>
  A successful transaction depends on the state only through the keys it reads; the values in its
  readset are those of the state; \<open>Finalise\<close> changes no value.
\<close>

locale deterministic_delivery = delivery B K deliver exec destroys
  for B :: "'t vtree" and K :: "('s, 'tx) kaia" and deliver :: "('s, 't, 'tx, 'rc, 'tc) deliverTxFunc"
    and exec :: "('s, 'tx) effects" and destroys :: "'s \<Rightarrow> 'tx \<Rightarrow> bool" +
  assumes exec_reads: "exec st tx = (ok, rs, ws) \<Longrightarrow> fmlookup rs k = Some vs \<Longrightarrow>
      vs = [state_values K st k] \<and> data_key K k"
    and exec_deterministic: "exec st tx = (True, rs, ws) \<Longrightarrow>
      (\<And>k. fmlookup rs k \<noteq> None \<Longrightarrow> state_values K st' k = state_values K st k) \<Longrightarrow>
      exec st' tx = (True, rs, ws)"
    and Finalise_values: "data_key K k \<Longrightarrow>
      state_values K (sdb_Finalise K st True False) k = state_values K st k"

section \<open>The invariant of the rounds\<close>

text \<open>
  \<open>spec_view\<close> is the value transaction \<open>j\<close> reads in a serial execution, if the columns below it are
  right: the nearest lower version or the value \<open>V0\<close> at the start. A task is coherent when its
  column and its readset are those of one execution, settled when it read its \<open>spec_view\<close>.
\<close>

definition spec_view ::
  "'t vtree \<Rightarrow> (StorageKey \<Rightarrow> hash) \<Rightarrow> ('s, 't) Store \<Rightarrow> int \<Rightarrow> StorageKey \<Rightarrow> hash" where
  "spec_view B V0 s j k = (case Store_GetLatestBeforeIndex B s j k of None \<Rightarrow> V0 k | Some it \<Rightarrow> vi_value it)"

definition coherent ::
  "'t vtree \<Rightarrow> ('s, 'tx) effects \<Rightarrow> ('s, 't, 'tx, 'rc, 'tc) scheduler \<Rightarrow> nat \<Rightarrow> bool" where
  "coherent B exec sc i \<longleftrightarrow> t_Response (task_at sc i) \<noteq> None \<and>
     (\<exists>st rs ws inc. exec st (t_Tx (task_at sc i)) = (True, rs, ws) \<and>
        fmlookup (txReadSets (store_of sc)) (int i) = Some rs \<and>
        column B (store_of sc) (int i) = (\<lambda>k. map_option (written (int i) inc) (fmlookup ws k)))"

definition settled ::
  "'t vtree \<Rightarrow> (StorageKey \<Rightarrow> hash) \<Rightarrow> ('s, 't, 'tx, 'rc, 'tc) scheduler \<Rightarrow> nat \<Rightarrow> bool" where
  "settled B V0 sc i \<longleftrightarrow>
     (\<forall>rs k vs. fmlookup (txReadSets (store_of sc)) (int i) = Some rs \<longrightarrow> fmlookup rs k = Some vs \<longrightarrow>
        vs = [spec_view B V0 (store_of sc) (int i) k])"

abbreviation validated :: "('s, 't, 'tx, 'rc, 'tc) scheduler \<Rightarrow> nat \<Rightarrow> bool" where
  "validated sc i \<equiv> t_Status (task_at sc i) = statusValidated"

text \<open>
  The invariant: executed and validated tasks are coherent; a key that none of the first \<open>L\<close>
  transactions (those already written back) has written has its original value in the shared state;
  a task in the validated prefix is settled.
\<close>

definition round_inv ::
  "'t vtree \<Rightarrow> ('s, 'tx) kaia \<Rightarrow> ('s, 'tx) effects \<Rightarrow> (StorageKey \<Rightarrow> hash) \<Rightarrow> 'tx list \<Rightarrow> nat \<Rightarrow>
   ('s, 't, 'tx, 'rc, 'tc) scheduler \<Rightarrow> bool" where
  "round_inv B K exec V0 txs L sc \<longleftrightarrow>
     sane B K txs sc \<and> \<not> sc_synchronous sc \<and>
     (\<forall>i<length txs. t_Status (task_at sc i) \<in> {statusExecuted, statusValidated} \<longrightarrow> coherent B exec sc i) \<and>
     (\<forall>k. data_key K k \<longrightarrow> (\<forall>i<L. column B (store_of sc) (int i) k = None) \<longrightarrow>
        state_values K (sc_state sc) k = V0 k)"

definition prefix_settled ::
  "'t vtree \<Rightarrow> (StorageKey \<Rightarrow> hash) \<Rightarrow> nat \<Rightarrow> ('s, 't, 'tx, 'rc, 'tc) scheduler \<Rightarrow> bool" where
  "prefix_settled B V0 n sc \<longleftrightarrow> (\<forall>i<n. (\<forall>j\<le>i. validated sc j) \<longrightarrow> settled B V0 sc i)"

lemma coherent_cong:
  assumes "task_at sc' i = task_at sc i" "column B (store_of sc') (int i) = column B (store_of sc) (int i)"
    and "fmlookup (txReadSets (store_of sc')) (int i) = fmlookup (txReadSets (store_of sc)) (int i)"
  shows "coherent B exec sc' i = coherent B exec sc i"
  using assms by (simp add: coherent_def)

context value_tree
begin

lemma spec_view_cong:
  fixes s s' :: "('s, 't) Store"
  assumes "\<And>i. i < j \<Longrightarrow> column B s' i k = column B s i k"
  shows "spec_view B V0 s' j k = spec_view B V0 s j k"
proof -
  have "Store_GetLatestBeforeIndex B s' j k = Store_GetLatestBeforeIndex B s j k"
    by (rule mvs.before_cong) (rule assms)
  then show ?thesis by (simp add: spec_view_def)
qed

lemma settled_cong:
  fixes sc sc' :: "('s, 't, 'tx, 'rc, 'tc) scheduler"
  assumes "\<And>j. j < int i \<Longrightarrow> column B (store_of sc') j = column B (store_of sc) j"
    and "fmlookup (txReadSets (store_of sc')) (int i) = fmlookup (txReadSets (store_of sc)) (int i)"
  shows "settled B V0 sc' i = settled B V0 sc i"
proof -
  have "spec_view B V0 (store_of sc') (int i) k = spec_view B V0 (store_of sc) (int i) k" for k
    by (rule spec_view_cong) (simp add: assms(1))
  with assms(2) show ?thesis by (simp add: settled_def)
qed

end

context deterministic_delivery
begin

subsection \<open>Writing back the validated prefix\<close>

lemma flush_round:
  assumes inv: "round_inv B K exec V0 txs L sc" and pre: "prefix_settled B V0 (length txs) sc"
  shows "\<exists>sc'. flushUntil B K (int L) (int p) sc = Inr sc' \<and> (L \<le> p \<longrightarrow> round_inv B K exec V0 txs p sc') \<and>
    prefix_settled B V0 (length txs) sc' \<and> (\<forall>i. t_Status (task_at sc' i) = t_Status (task_at sc i))"
proof -
  have sane: "sane B K txs sc" using inv by (simp add: round_inv_def)
  then have sto: "store_ok B K (length txs) (store_of sc)" by (simp add: sane_def)
  from flushUntil_ok [OF sane, of "int L" "int p"] obtain st where
    fl: "flushUntil B K (int L) (int p) sc = Inr (shareState (sdb_Finalise K st True False) sc)"
    and sane': "sane B K txs (shareState (sdb_Finalise K st True False) sc)"
    and val: "\<And>k. data_key K k \<Longrightarrow> state_values K st k =
      (case final_version B (store_of sc) k of
         None \<Rightarrow> state_values K (sc_state sc) k
       | Some it \<Rightarrow> if int L \<le> vi_index it \<and> vi_index it < int p then vi_value it
           else state_values K (sc_state sc) k)"
    by blast
  define sc' where "sc' = shareState (sdb_Finalise K st True False) sc"
  have so: "store_of sc' = (store_of sc)\<lparr>parentStore := sdb_Finalise K st True False\<rparr>"
    using sane_shareState(2) [OF sane] by (simp add: sc'_def)
  have same: "task_at sc' = task_at sc" "column B (store_of sc') = column B (store_of sc)"
    "txReadSets (store_of sc') = txReadSets (store_of sc)"
    "sc_state sc' = sdb_Finalise K st True False" "sc_synchronous sc' = sc_synchronous sc"
    by (simp_all add: so) (simp_all add: sc'_def)
  have "state_values K (sc_state sc') k = V0 k"
    if "L \<le> p" "data_key K k" and none: "\<forall>i<p. column B (store_of sc) (int i) k = None" for k
  proof -
    have "\<not> (int L \<le> vi_index it \<and> vi_index it < int p)" if "final_version B (store_of sc) k = Some it" for it
    proof
      assume r: "int L \<le> vi_index it \<and> vi_index it < int p"
      have "column B (store_of sc) (vi_index it) k = Some it" using that by (simp add: final_version_Some)
      moreover have "vi_index it = int (nat (vi_index it))" "nat (vi_index it) < p" using r by arith+
      ultimately show False using none by (metis option.distinct(1))
    qed
    then have "state_values K st k = state_values K (sc_state sc) k"
      using val [OF \<open>data_key K k\<close>] by (auto split: option.splits)
    moreover have "state_values K (sc_state sc) k = V0 k"
      using inv that unfolding round_inv_def by auto
    ultimately show ?thesis by (simp add: same(4) Finalise_values [OF \<open>data_key K k\<close>])
  qed
  then have "L \<le> p \<longrightarrow> round_inv B K exec V0 txs p sc'"
    using inv sane' same by (auto simp: round_inv_def coherent_def simp flip: sc'_def)
  moreover have "prefix_settled B V0 (length txs) sc'"
    using pre settled_cong [of _ sc' sc V0] by (simp add: prefix_settled_def same)
  ultimately show ?thesis
    using fl by (simp add: same flip: sc'_def)
qed

subsection \<open>Executing\<close>

text \<open>A step at a task above the written-back prefix that leaves it coherent, if executed, and not validated.\<close>

lemma step_round:
  assumes inv: "round_inv B K exec V0 txs L sc" and pre: "prefix_settled B V0 (length txs) sc"
    and i: "i < length txs" "L \<le> i" and step: "sane B K txs sc'" "step_at B K i sc sc'"
    and nv: "\<not> validated sc' i" and coh: "t_Status (task_at sc' i) = statusExecuted \<Longrightarrow> coherent B exec sc' i"
  shows "round_inv B K exec V0 txs L sc' \<and> prefix_settled B V0 (length txs) sc'"
proof -
  have others: "\<And>j. j \<noteq> i \<Longrightarrow> task_at sc' j = task_at sc j"
    "\<And>j. j \<noteq> int i \<Longrightarrow> column B (store_of sc') j = column B (store_of sc) j"
    "\<And>j. j \<noteq> int i \<Longrightarrow> fmlookup (txReadSets (store_of sc')) j = fmlookup (txReadSets (store_of sc)) j"
    "state_values K (sc_state sc') = state_values K (sc_state sc)" "\<not> sc_synchronous sc'"
    using step(2) inv by (simp_all add: step_at_def round_inv_def)
  have "coherent B exec sc' j = coherent B exec sc j" if "j \<noteq> i" for j
    using that by (intro coherent_cong) (simp_all add: others)
  then have "\<forall>j<length txs. t_Status (task_at sc' j) \<in> {statusExecuted, statusValidated} \<longrightarrow> coherent B exec sc' j"
    using inv nv coh unfolding round_inv_def by (metis insert_iff others(1) singleton_iff)
  moreover have "\<forall>j<L. column B (store_of sc') (int j) = column B (store_of sc) (int j)"
    using i(2) by (intro allI impI others(2)) simp
  ultimately have "round_inv B K exec V0 txs L sc'"
    using inv step(1) others(4,5) unfolding round_inv_def by simp
  moreover have "prefix_settled B V0 (length txs) sc'"
    unfolding prefix_settled_def
  proof (intro allI impI)
    fix j assume j: "j < length txs" and v: "\<forall>j'\<le>j. validated sc' j'"
    have ji: "j < i" using v nv by (meson not_le)
    then have "\<forall>j'\<le>j. validated sc j'" using v others(1) by fastforce
    with pre j have "settled B V0 sc j" by (simp add: prefix_settled_def)
    moreover have "settled B V0 sc' j = settled B V0 sc j"
      using ji by (intro settled_cong) (simp_all add: others(2,3))
    ultimately show "settled B V0 sc' j" by simp
  qed
  ultimately show ?thesis by blast
qed

lemma execute_round:
  assumes inv: "round_inv B K exec V0 txs L sc" and pre: "prefix_settled B V0 (length txs) sc"
    and i: "i < length txs" "L \<le> i" "\<not> validated sc i"
  shows "\<exists>sc'. executeTask B K deliver i sc = Inr sc' \<and> round_inv B K exec V0 txs L sc' \<and>
    prefix_settled B V0 (length txs) sc' \<and> \<not> validated sc' i \<and> (\<forall>j. j \<noteq> i \<longrightarrow> task_at sc' j = task_at sc j)"
proof -
  have sane: "sane B K txs sc" and sync: "\<not> sc_synchronous sc" using inv by (simp_all add: round_inv_def)
  from executeTask_ok [OF sane i(1)] sync obtain sc' where
    ex: "executeTask B K deliver i sc = Inr sc'" and sane': "sane B K txs sc'"
    and step: "step_at B K i sc sc'" and ran: "ran B exec destroys i sc sc'" by blast
  have tx: "t_Tx (task_at sc' i) = t_Tx (task_at sc i)"
    using sane_task_ok [OF sane i(1)] sane_task_ok [OF sane' i(1)] by (simp add: task_ok_def)
  have nv: "\<not> validated sc' i" using ran i(3) by (auto simp: ran_def Let_def)
  have "coherent B exec sc' i" if "t_Status (task_at sc' i) = statusExecuted"
  proof -
    have "coherent B exec sc i" if "t_Status (task_at sc i) = statusExecuted"
      using inv i(1) that by (simp add: round_inv_def)
    with ran that nv tx show ?thesis unfolding ran_def Let_def coherent_def by fastforce
  qed
  from step_round [OF inv pre i(1,2) sane' step nv this] show ?thesis
    using ex nv step by (auto simp: step_at_def)
qed

lemma executeAll_round:
  assumes "round_inv B K exec V0 txs L sc" "prefix_settled B V0 (length txs) sc"
    and "\<forall>i\<in>set is. i < length txs \<and> L \<le> i \<and> \<not> validated sc i" "set (order is) = set is"
    and "\<And>i. i < L \<Longrightarrow> validated sc i"
  shows "\<exists>sc'. executeAll B K deliver order is sc = Inr sc' \<and> round_inv B K exec V0 txs L sc' \<and>
    prefix_settled B V0 (length txs) sc' \<and> (\<forall>i<L. validated sc' i)"
proof (cases "is = []")
  case True
  with assms show ?thesis by (simp add: executeAll_def)
next
  case False
  define I where "I = (\<lambda>sc :: ('s, 't, 'tx, 'rc, 'tc) scheduler. round_inv B K exec V0 txs L sc \<and>
    prefix_settled B V0 (length txs) sc \<and>
    (\<forall>i\<in>set is. i < length txs \<and> L \<le> i \<and> \<not> validated sc i) \<and> (\<forall>i<L. validated sc i))"
  have sync: "\<not> sc_synchronous sc" using assms(1) by (simp add: round_inv_def)
  have "\<exists>sc'. pfold (executeTask B K deliver) (order is) sc = Inr sc' \<and> I sc'"
  proof (rule pfold_invariant [where I = I])
    fix i sc1 assume "i \<in> set (order is)" and I1: "I sc1"
    then have i: "i < length txs" "L \<le> i" "\<not> validated sc1 i" and inv1: "round_inv B K exec V0 txs L sc1"
      "prefix_settled B V0 (length txs) sc1" using assms(4) by (auto simp: I_def)
    from execute_round [OF inv1 i] obtain sc2 where
      sc2: "executeTask B K deliver i sc1 = Inr sc2" "round_inv B K exec V0 txs L sc2"
        "prefix_settled B V0 (length txs) sc2" "\<not> validated sc2 i"
      and o: "\<And>j. j \<noteq> i \<Longrightarrow> task_at sc2 j = task_at sc1 j" by blast
    have "\<forall>j\<in>set is. j < length txs \<and> L \<le> j \<and> \<not> validated sc2 j" using I1 sc2(4) o unfolding I_def by metis
    moreover have "\<forall>j<L. validated sc2 j" using I1 o i(2) unfolding I_def by (metis not_le)
    ultimately show "\<exists>sc2. executeTask B K deliver i sc1 = Inr sc2 \<and> I sc2" using sc2 by (auto simp: I_def)
  next
    show "I sc" using assms by (simp add: I_def)
  qed
  with False sync show ?thesis by (auto simp: executeAll_def workOrder_def I_def)
qed


end

subsection \<open>Validating\<close>

text \<open>
  The state of a validation pass that started in \<open>sc0\<close> and has treated the tasks \<open>done\<close>: a column
  that has changed belongs to a task that is not validated, and a validated task that was treated
  is valid unless a column below it has changed.
\<close>

definition still_valid ::
  "'t vtree \<Rightarrow> ('s, 'tx) kaia \<Rightarrow> ('s, 't, 'tx, 'rc, 'tc) scheduler \<Rightarrow> ('s, 't, 'tx, 'rc, 'tc) scheduler \<Rightarrow> nat \<Rightarrow> bool" where
  "still_valid B K sc0 sc i \<longleftrightarrow>
     ((\<forall>j<i. column B (store_of sc) (int j) = column B (store_of sc0) (int j)) \<longrightarrow>
      fst (ValidateTransactionState B K (store_of sc) (int i)))"

definition pass_inv ::
  "'t vtree \<Rightarrow> ('s, 'tx) kaia \<Rightarrow> ('s, 'tx) effects \<Rightarrow> (StorageKey \<Rightarrow> hash) \<Rightarrow> 'tx list \<Rightarrow> nat \<Rightarrow>
   ('s, 't, 'tx, 'rc, 'tc) scheduler \<Rightarrow> nat set \<Rightarrow> ('s, 't, 'tx, 'rc, 'tc) scheduler \<Rightarrow> nat list \<Rightarrow> bool" where
  "pass_inv B K exec V0 txs L sc0 done sc res \<longleftrightarrow>
     round_inv B K exec V0 txs L sc \<and>
     (\<forall>j. j \<notin> done \<longrightarrow> task_at sc j = task_at sc0 j) \<and>
     (\<forall>j. j \<notin> int ` done \<longrightarrow> column B (store_of sc) j = column B (store_of sc0) j \<and>
        fmlookup (txReadSets (store_of sc)) j = fmlookup (txReadSets (store_of sc0)) j) \<and>
     (\<forall>j. column B (store_of sc) (int j) \<noteq> column B (store_of sc0) (int j) \<longrightarrow> \<not> validated sc j) \<and>
     (\<forall>i\<in>done. validated sc i \<longrightarrow> still_valid B K sc0 sc i) \<and>
     set res \<subseteq> done \<and> (\<forall>i\<in>set res. i < length txs \<and> \<not> validated sc i)"

context deterministic_delivery
begin

lemma round_inv_validateOne:
  assumes inv: "round_inv B K exec V0 txs L sc" and i: "i < length txs" "L \<le> i"
    and sane': "sane B K txs sc'" and step: "step_at B K i sc sc'" and st: "sc_state sc' = sc_state sc"
    and out: "t_Status (task_at sc' i) \<in> {statusPending, statusWaiting} \<or>
      task_at sc' i = SetStatus statusValidated (task_at sc i) \<and> store_of sc' = store_of sc \<and>
      t_Status (task_at sc i) \<in> {statusExecuted, statusValidated}"
  shows "round_inv B K exec V0 txs L sc'"
proof -
  have others: "\<And>j. j \<noteq> i \<Longrightarrow> task_at sc' j = task_at sc j" "\<not> sc_synchronous sc'"
    "\<And>j. j \<noteq> int i \<Longrightarrow> column B (store_of sc') j = column B (store_of sc) j"
    "\<And>j. j \<noteq> int i \<Longrightarrow> fmlookup (txReadSets (store_of sc')) j = fmlookup (txReadSets (store_of sc)) j"
    using step inv by (simp_all add: step_at_def round_inv_def)
  have "coherent B exec sc' i" if "t_Status (task_at sc' i) \<in> {statusExecuted, statusValidated}"
  proof -
    have "task_at sc' i = SetStatus statusValidated (task_at sc i)" "store_of sc' = store_of sc"
      "t_Status (task_at sc i) \<in> {statusExecuted, statusValidated}" using out that by auto
    moreover from this(3) inv i(1) have "coherent B exec sc i" by (auto simp: round_inv_def)
    ultimately show ?thesis by (simp add: coherent_def)
  qed
  moreover have "coherent B exec sc' j = coherent B exec sc j" if "j \<noteq> i" for j
    using that by (intro coherent_cong) (simp_all add: others)
  ultimately have "\<forall>j<length txs. t_Status (task_at sc' j) \<in> {statusExecuted, statusValidated} \<longrightarrow> coherent B exec sc' j"
    using inv unfolding round_inv_def by (metis others(1))
  moreover have "\<forall>j<L. column B (store_of sc') (int j) = column B (store_of sc) (int j)"
    using i(2) by (intro allI impI others(3)) simp
  ultimately show ?thesis
    using inv sane' others(2) st unfolding round_inv_def by simp
qed

text \<open>A step at a task whose column, once changed, does not come back: below an unchanged prefix nothing has happened.\<close>

lemma low_columns_step:
  assumes "step_at B K i sc sc'"
    and stays: "column B (store_of sc') (int i) = column B (store_of sc0) (int i) \<Longrightarrow>
      column B (store_of sc) (int i) = column B (store_of sc0) (int i)"
    and low: "\<forall>j'<j. column B (store_of sc') (int j') = column B (store_of sc0) (int j')"
  shows "\<forall>j'<j. column B (store_of sc) (int j') = column B (store_of sc0) (int j')"
    and "l < int j \<Longrightarrow> column B (store_of sc') l = column B (store_of sc) l"
proof -
  have others: "\<And>l. l \<noteq> int i \<Longrightarrow> column B (store_of sc') l = column B (store_of sc) l"
    using assms(1) by (simp add: step_at_def)
  show before: "\<forall>j'<j. column B (store_of sc) (int j') = column B (store_of sc0) (int j')"
  proof (intro allI impI)
    fix j' assume "j' < j"
    with low stays others [of "int j'"] show "column B (store_of sc) (int j') = column B (store_of sc0) (int j')"
      by (cases "j' = i") auto
  qed
  show "column B (store_of sc') l = column B (store_of sc) l" if "l < int j"
    using that low before others [of l] by (cases "l = int i") auto
qed

lemma still_valid_step:
  assumes "sane B K txs sc" "sane B K txs sc'" "step_at B K i sc sc'" "sc_state sc' = sc_state sc"
    and stays: "column B (store_of sc') (int i) = column B (store_of sc0) (int i) \<Longrightarrow>
      column B (store_of sc) (int i) = column B (store_of sc0) (int i)"
    and "j \<noteq> i" "still_valid B K sc0 sc j"
  shows "still_valid B K sc0 sc' j"
  unfolding still_valid_def
proof
  assume low: "\<forall>j'<j. column B (store_of sc') (int j') = column B (store_of sc0) (int j')"
  note cols = low_columns_step [OF assms(3) stays low]
  have "fst (ValidateTransactionState B K (store_of sc) (int j))" using assms(7) cols(1) by (simp add: still_valid_def)
  moreover have "ValidateTransactionState B K (store_of sc') (int j) = ValidateTransactionState B K (store_of sc) (int j)"
  proof (rule ValidateTransactionState_cong)
    show "fmlookup (txReadSets (store_of sc')) (int j) = fmlookup (txReadSets (store_of sc)) (int j)"
      using assms(3,6) by (simp add: step_at_def)
    show "parentStore (store_of sc') = parentStore (store_of sc)"
      using assms(1,2,4) by (simp add: sane_def)
  qed (simp add: cols(2))
  ultimately show "fst (ValidateTransactionState B K (store_of sc') (int j))" by simp
qed

text \<open>A step at a task that has not been treated: it is withdrawn from the validated tasks, or validated.\<close>

lemma pass_at:
  assumes inv: "pass_inv B K exec V0 txs L sc0 done sc res" and i: "i < length txs" "L \<le> i" "i \<notin> done"
    and sane': "sane B K txs sc'" and step: "step_at B K i sc sc'" and st: "sc_state sc' = sc_state sc"
    and out: "t_Status (task_at sc' i) = statusPending \<and> res' = res @ [i] \<or>
     t_Status (task_at sc' i) = statusWaiting \<and> res' = res \<or>
     task_at sc' i = SetStatus statusValidated (task_at sc i) \<and> res' = res \<and> store_of sc' = store_of sc \<and>
       still_valid B K sc0 sc i \<and> t_Status (task_at sc i) \<in> {statusExecuted, statusValidated}"
  shows "pass_inv B K exec V0 txs L sc0 (insert i done) sc' res'"
proof -
  have rinv: "round_inv B K exec V0 txs L sc" and sane: "sane B K txs sc"
    using inv by (simp_all add: pass_inv_def round_inv_def)
  have rinv': "round_inv B K exec V0 txs L sc'"
    using out by (intro round_inv_validateOne [OF rinv i(1,2) sane' step st]) auto
  have others: "\<And>j. j \<noteq> i \<Longrightarrow> task_at sc' j = task_at sc j"
    "\<And>j. j \<noteq> int i \<Longrightarrow> column B (store_of sc') j = column B (store_of sc) j"
    "\<And>j. j \<noteq> int i \<Longrightarrow> fmlookup (txReadSets (store_of sc')) j = fmlookup (txReadSets (store_of sc)) j"
    using step by (simp_all add: step_at_def)
  have "int i \<notin> int ` done" using i(3) by (simp add: image_iff)
  then have same: "column B (store_of sc) (int i) = column B (store_of sc0) (int i)" using inv by (simp add: pass_inv_def)
  have changed: "\<not> validated sc' j" if "column B (store_of sc') (int j) \<noteq> column B (store_of sc0) (int j)" for j
  proof (cases "j = i")
    case True
    with that same out show ?thesis by auto
  next
    case False
    with that inv show ?thesis by (simp add: others pass_inv_def)
  qed
  have valid: "still_valid B K sc0 sc' j" if j: "j \<in> insert i done" "validated sc' j" for j
  proof (cases "j = i")
    case True
    with j out show ?thesis by (auto simp: still_valid_def)
  next
    case False
    with j inv show ?thesis
      by (intro still_valid_step [OF sane sane' step st same]) (auto simp: others pass_inv_def)
  qed
  have "set res' \<subseteq> insert i done" "\<forall>j\<in>set res'. j < length txs \<and> \<not> validated sc' j"
    using inv out i(1,3) by (auto simp: pass_inv_def others) (metis (no_types, lifting) others(1) subsetD)+
  with rinv' changed valid inv show ?thesis unfolding pass_inv_def by (auto simp: others)
qed

lemma pass_step:
  assumes inv: "pass_inv B K exec V0 txs L sc0 done sc res" and i: "i < length txs" "L \<le> i" "i \<notin> done"
  shows "\<exists>sc' res'. validateOne B K i (sc, res) = Inr (sc', res') \<and>
    pass_inv B K exec V0 txs L sc0 (insert i done) sc' res'"
proof -
  have sane: "sane B K txs sc" using inv by (simp add: pass_inv_def round_inv_def)
  from validateOne_ok [OF sane i(1), of res] obtain sc' res' where
    v: "validateOne B K i (sc, res) = Inr (sc', res')" "sane B K txs sc'" "step_at B K i sc sc'" "sc_state sc' = sc_state sc"
    and out: "t_Status (task_at sc' i) = statusPending \<and> res' = res @ [i] \<or>
     t_Status (task_at sc' i) = statusWaiting \<and> res' = res \<or>
     task_at sc' i = SetStatus statusValidated (task_at sc i) \<and> res' = res \<and> store_of sc' = store_of sc \<and>
       fst (ValidateTransactionState B K (store_of sc) (int i)) \<and>
       t_Status (task_at sc i) \<in> {statusExecuted, statusValidated}"
    by blast
  have "pass_inv B K exec V0 txs L sc0 (insert i done) sc' res'"
    using out by (intro pass_at [OF inv i v(2-4)]) (auto simp: still_valid_def)
  with v(1) show ?thesis by blast
qed

text \<open>A valid task read what it would read in a serial execution.\<close>

lemma valid_settled:
  assumes inv: "round_inv B K exec V0 txs L sc" and i: "i < length txs" "L \<le> i" "validated sc i"
    and valid: "fst (ValidateTransactionState B K (store_of sc) (int i))"
  shows "settled B V0 sc i"
  unfolding settled_def
proof (intro allI impI)
  fix rs k vs assume rs: "fmlookup (txReadSets (store_of sc)) (int i) = Some rs" and k: "fmlookup rs k = Some vs"
  have "coherent B exec sc i" using inv i by (simp add: round_inv_def)
  with rs obtain st ws where "exec st (t_Tx (task_at sc i)) = (True, rs, ws)" by (auto simp: coherent_def)
  then have dk: "data_key K k" using exec_reads k by blast
  have "read_valid B K (store_of sc) (int i) rs k" using valid rs by (simp add: ValidateTransactionState_eq)
  then obtain v where v: "vs = [v]" "store_view B K (store_of sc) (int i) k = Some v"
    using k by (auto simp: read_valid_iff)
  have "v = spec_view B V0 (store_of sc) (int i) k"
  proof (cases "Store_GetLatestBeforeIndex B (store_of sc) (int i) k")
    case None
    then have "\<forall>j<L. column B (store_of sc) (int j) k = None"
      using i(2) by (simp add: store_latest_before_None)
    then have "state_values K (sc_state sc) k = V0 k" using inv dk by (simp add: round_inv_def)
    moreover have "parentStore (store_of sc) = sc_state sc" using inv by (simp add: round_inv_def sane_def)
    ultimately show ?thesis using v(2) None by (simp add: store_view_def spec_view_def state_values_def)
  next
    case (Some it)
    with v(2) show ?thesis by (simp add: store_view_def spec_view_def split: if_splits)
  qed
  with v(1) show "vs = [spec_view B V0 (store_of sc) (int i) k]" by simp
qed

lemma pass_fold:
  assumes "pass_inv B K exec V0 txs L sc0 done sc res" "distinct is" "set is \<inter> done = {}"
    and "\<forall>i\<in>set is. i < length txs \<and> L \<le> i"
  shows "\<exists>sc' res'. pfold (validateOne B K) is (sc, res) = Inr (sc', res') \<and>
    pass_inv B K exec V0 txs L sc0 (done \<union> set is) sc' res'"
  using assms
proof (induction "is" arbitrary: "done" sc res)
  case Nil
  then show ?case by simp
next
  case (Cons i "is")
  then have i: "i < length txs" "L \<le> i" "i \<notin> done" by simp_all
  from pass_step [OF Cons.prems(1) i] obtain sc1 res1 where
    v: "validateOne B K i (sc, res) = Inr (sc1, res1)" and p: "pass_inv B K exec V0 txs L sc0 (insert i done) sc1 res1"
    by blast
  have "distinct is" "set is \<inter> insert i done = {}" "\<forall>i\<in>set is. i < length txs \<and> L \<le> i"
    using Cons.prems by auto
  from Cons.IH [OF p this] show ?case by (auto simp: v)
qed

text \<open>After the pass the validated prefix is settled.\<close>

lemma pass_end:
  assumes inv: "pass_inv B K exec V0 txs L sc0 {p..<length txs} sc res"
    and pre: "prefix_settled B V0 (length txs) sc0" and L: "L \<le> p"
  shows "prefix_settled B V0 (length txs) sc"
  unfolding prefix_settled_def
proof (intro allI impI)
  fix i assume i: "i < length txs" and v: "\<forall>j\<le>i. validated sc j"
  have rinv: "round_inv B K exec V0 txs L sc" using inv by (simp add: pass_inv_def)
  have keep: "column B (store_of sc) j = column B (store_of sc0) j"
    "fmlookup (txReadSets (store_of sc)) j = fmlookup (txReadSets (store_of sc0)) j"
    if "j \<notin> int ` {p..<length txs}" for j
    using inv that by (simp_all add: pass_inv_def)
  show "settled B V0 sc i"
  proof (cases "i < p")
    case True
    then have "\<forall>j\<le>i. task_at sc j = task_at sc0 j" using inv by (simp add: pass_inv_def)
    with v have "\<forall>j\<le>i. validated sc0 j" by simp
    with pre i have "settled B V0 sc0 i" by (simp add: prefix_settled_def)
    moreover have "settled B V0 sc i = settled B V0 sc0 i"
      using True by (intro settled_cong keep) auto
    ultimately show ?thesis by simp
  next
    case False
    with i have "i \<in> {p..<length txs}" by simp
    moreover have "\<forall>j<i. column B (store_of sc) (int j) = column B (store_of sc0) (int j)"
      using inv v by (auto simp: pass_inv_def)
    ultimately have "fst (ValidateTransactionState B K (store_of sc) (int i))"
      using inv v by (simp add: pass_inv_def still_valid_def)
    then show ?thesis
      using valid_settled [OF rinv i] L False v by simp
  qed
qed

lemma validateAll_round:
  assumes inv: "round_inv B K exec V0 txs L sc" and pre: "prefix_settled B V0 (length txs) sc"
    and val: "\<forall>i<L. validated sc i" and perm: "\<And>is. mset (order is) = mset is"
  shows "\<exists>sc' res. validateAll B K order sc = Inr (sc', res) \<and> round_inv B K exec V0 txs L sc' \<and>
    prefix_settled B V0 (length txs) sc' \<and> (\<forall>i<L. validated sc' i) \<and>
    (\<forall>i\<in>set res. i < length txs \<and> \<not> validated sc' i)"
proof (cases "allValidated (sc_allTasks sc)")
  case True
  with assms show ?thesis by (simp add: validateAll_def findFirstNonValidated_None)
next
  case False
  then obtain p where p: "findFirstNonValidated sc = (p, True)" "p < length (sc_allTasks sc)" "\<not> validated sc p"
    by (rule findFirstNonValidated_Some)
  have len: "length (sc_allTasks sc) = length txs" and sync: "\<not> sc_synchronous sc"
    using inv by (simp_all add: round_inv_def sane_def)
  have Lp: "L \<le> p" using val p(3) by (meson not_le)
  have start: "pass_inv B K exec V0 txs L sc {} sc []"
    using inv by (simp add: pass_inv_def)
  have ord: "distinct (order [p..<length txs])" "set (order [p..<length txs]) = {p..<length txs}"
    using perm [of "[p..<length txs]"] by (metis distinct_upt mset_eq_imp_distinct_iff)
      (metis perm set_mset_mset set_upt)
  have rng: "\<forall>i\<in>set (order [p..<length txs]). i < length txs \<and> L \<le> i"
    using Lp unfolding ord(2) by auto
  from pass_fold [OF start ord(1) _ rng] obtain sc' res where
    run: "pfold (validateOne B K) (order [p..<length txs]) (sc, []) = Inr (sc', res)"
    and fin: "pass_inv B K exec V0 txs L sc {p..<length txs} sc' res" by (auto simp: ord(2))
  have "validateAll B K order sc = Inr (sc', res)"
    by (simp add: validateAll_def p(1) workOrder_def sync len run)
  moreover have "\<forall>i<L. validated sc' i" using fin val Lp by (auto simp: pass_inv_def)
  moreover have "round_inv B K exec V0 txs L sc'" "\<forall>i\<in>set res. i < length txs \<and> \<not> validated sc' i"
    using fin by (simp_all add: pass_inv_def)
  ultimately show ?thesis using pass_end [OF fin pre Lp] by blast
qed

subsection \<open>The loop\<close>

text \<open>
  A pass starts at the first task that is not validated, once the tasks before it are written back;
  the tasks to execute are behind it.
\<close>

lemma start_round:
  assumes "round_inv B K exec V0 txs L sc" "prefix_settled B V0 (length txs) sc" "\<forall>i<L. validated sc i"
    and "\<forall>i\<in>set is. i < length txs \<and> \<not> validated sc i" "\<not> allValidated (sc_allTasks sc)"
  obtains p sc1 where "findFirstNonValidated sc = (p, True)" "L \<le> p"
    "(if p > L then flushUntil B K (int L) (int p) sc else Inr sc) = Inr sc1"
    "round_inv B K exec V0 txs p sc1" "prefix_settled B V0 (length txs) sc1" "\<forall>i<p. validated sc1 i"
    "\<forall>i\<in>set is. i < length txs \<and> p \<le> i \<and> \<not> validated sc1 i"
proof -
  from assms(5) obtain p where p: "findFirstNonValidated sc = (p, True)" "\<not> validated sc p"
    "\<And>i. i < p \<Longrightarrow> validated sc i" by (rule findFirstNonValidated_Some) blast
  have Lp: "L \<le> p" using assms(3) p(2) by (meson not_le)
  have "\<exists>sc1. (if p > L then flushUntil B K (int L) (int p) sc else Inr sc) = Inr sc1 \<and>
      round_inv B K exec V0 txs p sc1 \<and> prefix_settled B V0 (length txs) sc1 \<and>
      (\<forall>i. t_Status (task_at sc1 i) = t_Status (task_at sc i))"
    using flush_round [OF assms(1,2), of p] assms(1,2) Lp by (cases "p > L") auto
  then obtain sc1 where sc1: "(if p > L then flushUntil B K (int L) (int p) sc else Inr sc) = Inr sc1"
    "round_inv B K exec V0 txs p sc1" "prefix_settled B V0 (length txs) sc1"
    "\<And>i. t_Status (task_at sc1 i) = t_Status (task_at sc i)" by blast
  have "\<forall>i\<in>set is. i < length txs \<and> p \<le> i \<and> \<not> validated sc1 i"
    using assms(4) p(3) sc1(4) by (metis not_le)
  with that [OF p(1) Lp sc1(1-3)] p(3) sc1(4) show ?thesis by simp
qed

text \<open>Past the iteration limit the loop ends in the synchronous mode.\<close>

lemma processLoop_limit:
  assumes "sane B K txs sc" "\<not> allValidated (sc_allTasks sc)" "r \<ge> maximumIterations"
    and "processLoop B K deliver S r L is sc = Inr sc'"
  shows "sc_synchronous sc'"
proof -
  from assms(2) obtain p where p: "findFirstNonValidated sc = (p, True)" by (rule findFirstNonValidated_Some)
  have "sane B K txs (sc\<lparr>sc_synchronous := True\<rparr>)"
    using assms(1) by (simp add: sane_def store_of_def task_at_def)
  moreover have "set [p..<length txs] \<subseteq> {..<length txs}" by auto
  ultimately have "\<exists>sc''. processAllSync B K deliver [p..<length txs] (sc\<lparr>sc_synchronous := True\<rparr>) = Inr sc'' \<and>
      sc_synchronous sc''" using processAllSync_reaches by fastforce
  with assms(4) show ?thesis
    using assms(2,3) p sane_length [OF assms(1)] by (subst (asm) processLoop.simps) (auto simp: Let_def)
qed

text \<open>
  Induction over the passes of a run of the loop that does not fall back: what holds when every task
  is validated, and is passed back over a pass, holds of the run.
\<close>

lemma processLoop_rounds [consumes 8, case_names validated pass]:
  assumes "round_inv B K exec V0 txs L sc" "prefix_settled B V0 (length txs) sc" "\<forall>i<L. validated sc i"
    and "\<forall>i\<in>set is. i < length txs \<and> \<not> validated sc i"
    and perm: "\<And>r is. mset (exec_order S r is) = mset is" "\<And>r is. mset (valid_order S r is) = mset is"
    and "processLoop B K deliver S r L is sc = Inr sc'" "\<not> sc_synchronous sc'"
    and validated: "\<And>r L is sc. round_inv B K exec V0 txs L sc \<Longrightarrow> prefix_settled B V0 (length txs) sc \<Longrightarrow>
      allValidated (sc_allTasks sc) \<Longrightarrow> P r L is sc sc"
    and pass: "\<And>r L is sc p sc1 sc2 sc3 res sc'. \<not> allValidated (sc_allTasks sc) \<Longrightarrow> r < maximumIterations \<Longrightarrow>
      findFirstNonValidated sc = (p, True) \<Longrightarrow>
      (if p > L then flushUntil B K (int L) (int p) sc else Inr sc) = Inr sc1 \<Longrightarrow>
      round_inv B K exec V0 txs p sc1 \<Longrightarrow> \<forall>i\<in>set is. i < length txs \<and> \<not> validated sc1 i \<Longrightarrow>
      executeAll B K deliver (exec_order S r) is sc1 = Inr sc2 \<Longrightarrow> round_inv B K exec V0 txs p sc2 \<Longrightarrow>
      validateAll B K (valid_order S r) sc2 = Inr (sc3, res) \<Longrightarrow>
      P (r + 1) (if p > L then p else L) res sc3 sc' \<Longrightarrow> P r L is sc sc'"
  shows "P r L is sc sc'"
  using assms(1-4,7)
proof (induction "maximumIterations - r" arbitrary: r L "is" sc rule: less_induct)
  case less
  show ?case
  proof (cases "allValidated (sc_allTasks sc)")
    case True
    with less.prems(5) have "sc' = sc" by (subst (asm) processLoop.simps) simp
    with True less.prems validated show ?thesis by blast
  next
    case False
    obtain p sc1 where p: "findFirstNonValidated sc = (p, True)" "L \<le> p"
      and sc1: "(if p > L then flushUntil B K (int L) (int p) sc else Inr sc) = Inr sc1"
        "round_inv B K exec V0 txs p sc1" "prefix_settled B V0 (length txs) sc1" "\<forall>i<p. validated sc1 i"
        "\<forall>i\<in>set is. i < length txs \<and> p \<le> i \<and> \<not> validated sc1 i"
      by (rule start_round [OF less.prems(1-4) False])
    have lim: "r < maximumIterations"
      using processLoop_limit [OF _ False _ less.prems(5)] assms(8) less.prems(1) by (meson not_le round_inv_def)
    have "set (exec_order S r is) = set is" by (metis perm(1) set_mset_mset)
    from executeAll_round [where order = "exec_order S r", OF sc1(2,3,5) this] sc1(4) obtain sc2 where
      sc2: "executeAll B K deliver (exec_order S r) is sc1 = Inr sc2"
        "round_inv B K exec V0 txs p sc2" "prefix_settled B V0 (length txs) sc2" "\<forall>i<p. validated sc2 i" by blast
    from validateAll_round [OF sc2(2-4), where order = "valid_order S r", OF perm(2)] obtain sc3 res where
      sc3: "validateAll B K (valid_order S r) sc2 = Inr (sc3, res)" "round_inv B K exec V0 txs p sc3"
        "prefix_settled B V0 (length txs) sc3" "\<forall>i<p. validated sc3 i"
        "\<forall>i\<in>set res. i < length txs \<and> \<not> validated sc3 i" by blast
    have "processRound B K deliver S r L p is sc = Inr (sc3, res)"
      by (simp add: processRound_def sc1(1) sc2(1) sc3(1))
    moreover have Lp: "(if p > L then p else L) = p" using p(2) by simp
    ultimately have "processLoop B K deliver S (r + 1) p res sc3 = Inr sc'"
      using less.prems(5) False p(1) lim by (subst (asm) processLoop.simps) simp
    from less.hyps [OF _ sc3(2-5) this] lim have "P (r + 1) p res sc3 sc'" by simp
    with pass [OF False lim p(1) sc1(1,2) _ sc2(1,2) sc3(1)] Lp sc1(5) show ?thesis by simp
  qed
qed

lemma processLoop_round:
  assumes "round_inv B K exec V0 txs L sc" "prefix_settled B V0 (length txs) sc" "\<forall>i<L. validated sc i"
    and "\<forall>i\<in>set is. i < length txs \<and> \<not> validated sc i"
    and "\<And>r is. mset (exec_order S r is) = mset is" "\<And>r is. mset (valid_order S r is) = mset is"
    and "processLoop B K deliver S r L is sc = Inr sc'" "\<not> sc_synchronous sc'"
  shows "\<exists>L'. round_inv B K exec V0 txs L' sc' \<and> prefix_settled B V0 (length txs) sc' \<and>
    allValidated (sc_allTasks sc')"
  using assms by (induction rule: processLoop_rounds) blast+

subsection \<open>Equality with the serial execution\<close>

lemma applyWrites_values:
  assumes "exec st' tx = (ok, rs, ws)" "data_key K k"
  shows "state_values K (applyWrites K ws st) k =
    (case fmlookup ws k of None \<Rightarrow> state_values K st k | Some v \<Rightarrow> v)"
proof -
  have "StorageKey_GetValue K k (applyWrites K ws st) =
      (case if k \<in> set (fmkeys ws) then fmlookup ws k else None of
         None \<Rightarrow> StorageKey_GetValue K k st | Some v \<Rightarrow> v)"
    unfolding applyWrites_def
    using exec_writes [OF assms(1)]
    by (intro fold_SetValue [OF kaia_spec_axioms _ assms(2)]) (auto simp: in_fmdom_iff data_key_def)
  moreover have "k \<notin> set (fmkeys ws) \<Longrightarrow> fmlookup ws k = None"
    by (simp add: fmdom_notD)
  ultimately show ?thesis by (auto simp: state_values_def split: option.splits)
qed

text \<open>The view of the next transaction is the view of this one overridden by its writes.\<close>

lemma spec_view_next:
  assumes "column B s (int j) k = map_option (written (int j) inc) (fmlookup ws k)"
  shows "spec_view B V0 s (int (Suc j)) k =
    (case fmlookup ws k of None \<Rightarrow> spec_view B V0 s (int j) k | Some v \<Rightarrow> v)"
proof (cases "fmlookup ws k")
  case None
  with assms have none: "column B s (int j) k = None" by simp
  have "Store_GetLatestBeforeIndex B s (int (Suc j)) k = Store_GetLatestBeforeIndex B s (int j) k"
  proof (cases "Store_GetLatestBeforeIndex B s (int j) k")
    case None
    then have "Store_GetLatestBeforeIndex B s (int (Suc j)) k = None"
      using none by (auto simp: store_latest_before_None) (metis zle_iff_zadd linorder_neqE_linordered_idom zless_add1_eq add.commute)
    with None show ?thesis by simp
  next
    case (Some it)
    then have "Store_GetLatestBeforeIndex B s (int (Suc j)) k = Some it"
      using none by (auto simp: store_latest_before_Some) (metis add.commute zless_add1_eq)
    with Some show ?thesis by simp
  qed
  with None show ?thesis by (simp add: spec_view_def)
next
  case (Some v)
  with assms have "column B s (int j) k = Some (written (int j) inc v)" by simp
  then have "Store_GetLatestBeforeIndex B s (int (Suc j)) k = Some (written (int j) inc v)"
    by (auto simp: store_latest_before_Some)
  with Some show ?thesis by (simp add: spec_view_def)
qed

lemma serial_views:
  assumes inv: "round_inv B K exec (state_values K st0) txs L sc"
    and pre: "prefix_settled B (state_values K st0) (length txs) sc" and val: "allValidated (sc_allTasks sc)"
  shows "j \<le> length txs \<Longrightarrow> data_key K k \<Longrightarrow>
    state_values K (serial K exec (take j txs) st0) k = spec_view B (state_values K st0) (store_of sc) (int j) k"
proof (induction j arbitrary: k)
  case 0
  have "store_ok B K (length txs) (store_of sc)" using inv by (simp add: round_inv_def sane_def)
  then have "\<forall>i<0. column B (store_of sc) i k = None"
    unfolding store_ok_def by (metis not_le option.exhaust)
  then have "Store_GetLatestBeforeIndex B (store_of sc) 0 k = None"
    by (simp add: store_latest_before_None)
  then show ?case by (simp add: serial_def spec_view_def)
next
  case (Suc j)
  then have j: "j < length txs" by simp
  have sane: "sane B K txs sc" using inv by (simp add: round_inv_def)
  have v: "\<forall>i<length txs. validated sc i" using val sane_length [OF sane] by (simp add: allValidated_nth)
  then have "coherent B exec sc j" "settled B (state_values K st0) sc j"
    using inv pre j by (simp_all add: round_inv_def prefix_settled_def)
  moreover have "t_Tx (task_at sc j) = txs ! j" using sane_task_ok [OF sane j] by (simp add: task_ok_def)
  ultimately obtain st rs ws inc where ex: "exec st (txs ! j) = (True, rs, ws)"
    and rs: "\<And>k vs. fmlookup rs k = Some vs \<Longrightarrow> vs = [spec_view B (state_values K st0) (store_of sc) (int j) k]"
    and col: "column B (store_of sc) (int j) = (\<lambda>k. map_option (written (int j) inc) (fmlookup ws k))"
    by (auto simp: coherent_def settled_def)
  let ?st = "serial K exec (take j txs) st0"
  have "state_values K ?st k = state_values K st k" if "fmlookup rs k \<noteq> None" for k
  proof -
    from that obtain vs where vs: "fmlookup rs k = Some vs" by blast
    have "vs = [state_values K st k]" "data_key K k" using exec_reads [OF ex vs] by simp_all
    with rs [OF vs] Suc.IH j show ?thesis by simp
  qed
  then have ex': "exec ?st (txs ! j) = (True, rs, ws)" using exec_deterministic [OF ex] by blast
  have "serial K exec (take (Suc j) txs) st0 = applyWrites K ws ?st"
    using j by (simp add: take_Suc_conv_app_nth serial_def) (simp add: serialStep_def ex' flip: serial_def)
  then show ?case
    using applyWrites_values [OF ex Suc.prems(2)] spec_view_next [of "store_of sc" j k inc ws] col
      Suc.IH [OF _ Suc.prems(2)] j by (simp split: option.split)
qed

text \<open>What the final write-back stores is the view of a transaction after the last one.\<close>

lemma final_value_view:
  assumes inv: "round_inv B K exec V0 txs L sc" and val: "allValidated (sc_allTasks sc)"
    and k: "data_key K k"
  shows "(case final_version B (store_of sc) k of None \<Rightarrow> state_values K (sc_state sc) k | Some it \<Rightarrow> vi_value it) =
    spec_view B V0 (store_of sc) (int (length txs)) k"
proof -
  have sane: "sane B K txs sc" using inv by (simp add: round_inv_def)
  have v: "\<forall>i<length txs. coherent B exec sc i"
    using inv val sane_length [OF sane] by (simp add: allValidated_nth round_inv_def)
  have sto: "\<And>i it. column B (store_of sc) i k = Some it \<Longrightarrow> 0 \<le> i \<and> i < int (length txs)"
    using sane by (auto simp: sane_def store_ok_def)
  have ne: "\<not> vi_estimate it" if "column B (store_of sc) i k = Some it" for i it
  proof -
    from sto [OF that] have "nat i < length txs" "i = int (nat i)" by auto
    with v obtain ws inc where "column B (store_of sc) i = (\<lambda>k. map_option (written i inc) (fmlookup ws k))"
      unfolding coherent_def by metis
    with that show ?thesis by auto
  qed
  show ?thesis
  proof (cases "final_version B (store_of sc) k")
    case None
    then have none: "column B (store_of sc) i k = None" for i
      using ne [of i] by (cases "column B (store_of sc) i k") (auto simp: final_version_None)
    then have "state_values K (sc_state sc) k = V0 k" using inv k by (simp add: round_inv_def)
    moreover have "Store_GetLatestBeforeIndex B (store_of sc) (int (length txs)) k = None"
      using none by (simp add: store_latest_before_None)
    ultimately show ?thesis using None by (simp add: spec_view_def)
  next
    case (Some it)
    then have it: "column B (store_of sc) (vi_index it) k = Some it"
      "\<And>i w. vi_index it < i \<Longrightarrow> column B (store_of sc) i k = Some w \<Longrightarrow> vi_estimate w"
      by (auto simp: final_version_Some)
    have "column B (store_of sc) i k = None" if "vi_index it < i" for i
      using it(2) [OF that] ne by (metis not_None_eq)
    with it(1) sto have "Store_GetLatestBeforeIndex B (store_of sc) (int (length txs)) k = Some it"
      by (simp add: store_latest_before_Some)
    with Some show ?thesis by (simp add: spec_view_def)
  qed
qed


lemma round_inv_start:
  assumes "block reqs"
  shows "round_inv B K exec (state_values K st) (map en_Tx reqs) 0 (startState st w reqs)"
    "prefix_settled B (state_values K st) (length (map en_Tx reqs)) (startState st w reqs)"
  using sane_startState [OF assms, of st w]
  by (auto simp: round_inv_def prefix_settled_def startState_simps task_at_startState newTask_def)

text \<open>The final write-back of a state in which every task is validated gives the serial result.\<close>

lemma settled_serial:
  assumes inv: "round_inv B K exec (state_values K st) txs L sc"
    and pre: "prefix_settled B (state_values K st) (length txs) sc" and val: "allValidated (sc_allTasks sc)"
  shows "\<exists>st'. WriteLatestToStore B K (store_of sc) (sc_state sc) = Inr st' \<and>
    (\<forall>k. data_key K k \<longrightarrow> state_values K st' k = state_values K (serial K exec txs st) k) \<and>
    length (sc_allTasks sc) = length txs \<and> None \<notin> set (map t_Response (sc_allTasks sc))"
proof -
  have sane: "sane B K txs sc" using inv by (simp add: round_inv_def)
  from final_flush_ok [OF sane] obtain st' where
    st': "WriteLatestToStore B K (store_of sc) (sc_state sc) = Inr (sdb_Finalise K st' True False)"
    "\<And>k. data_key K k \<Longrightarrow> state_values K st' k =
      (case final_version B (store_of sc) k of None \<Rightarrow> state_values K (sc_state sc) k | Some it \<Rightarrow> vi_value it)"
    by blast
  have "state_values K (sdb_Finalise K st' True False) k = state_values K (serial K exec txs st) k" if "data_key K k" for k
    using final_value_view [OF inv val that] serial_views [OF inv pre val order_refl that] st'(2) [OF that]
    by (simp add: Finalise_values [OF that])
  moreover have "None \<notin> set (map t_Response (sc_allTasks sc))"
  proof -
    have "\<forall>i<length txs. t_Response (task_at sc i) \<noteq> None"
      using inv val sane_length [OF sane] by (simp add: allValidated_nth round_inv_def coherent_def)
    with sane_length [OF sane] show ?thesis
      by (auto simp: in_set_conv_nth task_at_def) (metis not_None_eq)
  qed
  ultimately show ?thesis using st'(1) sane_length [OF sane] by blast
qed

theorem serializable:
  assumes "block reqs"
    and perm: "\<And>r is. mset (exec_order S r is) = mset is" "\<And>r is. mset (valid_order S r is) = mset is"
    and run: "ProcessAll B K deliver S reqs (NewScheduler st w) = Inr (resp, sc)" and "\<not> sc_synchronous sc"
  shows "(\<forall>k. data_key K k \<longrightarrow>
      state_values K (sc_state sc) k = state_values K (serial K exec (map en_Tx reqs) st) k) \<and>
    length resp = length reqs \<and> None \<notin> set resp"
proof -
  let ?txs = "map en_Tx reqs"
  from run obtain sc1 where loop: "processLoop B K deliver S 0 0 [0..<length reqs] (startState st w reqs) = Inr sc1"
    and fin: "withStore sc1 (\<lambda>s. pbind (WriteLatestToStore B K s (sc_state sc1)) (\<lambda>st.
       Inr (collectResponses (sc_allTasks sc1), shareState st sc1))) = Inr (resp, sc)"
    by (auto simp: ProcessAll_start pbind_eq_Inr)
  have "sc_synchronous sc1 = sc_synchronous sc"
    using fin by (auto simp: withStore_def pbind_eq_Inr split: option.splits)
  with assms(5) have "\<not> sc_synchronous sc1" by simp
  moreover have "\<forall>i\<in>set [0..<length reqs]. i < length ?txs \<and> \<not> validated (startState st w reqs) i"
    by (simp add: task_at_startState newTask_def)
  ultimately obtain L where inv: "round_inv B K exec (state_values K st) ?txs L sc1"
    and pre: "prefix_settled B (state_values K st) (length ?txs) sc1" and val: "allValidated (sc_allTasks sc1)"
    using processLoop_round [OF round_inv_start [OF assms(1)] _ _ perm loop] by auto
  have sane: "sane B K ?txs sc1" using inv by (simp add: round_inv_def)
  from settled_serial [OF inv pre val] fin show ?thesis
    by (auto simp: sane_withStore [OF sane] collectResponses_eq)
qed

end

end
