(* ===== verification/Processor.thy ===== *)
theory Processor
  imports Chain Serializability
begin

text \<open>
  The entry point of the program, \<open>processor/processor.go\<close>: it hands the transactions of a block to
  the scheduler, delivers one transaction to the EVM for it, and so instantiates the scheduler's
  contract with the tracer: the laws of \<open>deliverTx\<close> that the scheduler relies on are proved here from
  the behaviour of the EVM.
\<close>

section \<open>The processor\<close>

record ('s, 'tx, 'rc, 'tc, 'c, 'h) Processor =
  p_txs :: "'tx list"
  p_bc :: "('s, 'tx, 'rc, 'tc, 'c, 'h) blockchain"
  p_header :: 'h
  p_state :: 's
  p_workers :: int

text \<open>The result of a transaction with its logs; \<open>Execute\<close> returns the responses of the scheduler instead.\<close>

record ('rc, 'lg, 'tc) Result =
  rs_Receipt :: "'rc option"
  rs_Logs :: "'lg list"
  rs_UsedGas :: "64 word"
  rs_Trace :: "'tc option"

datatype processor_error = ErrNilArgument

text \<open>A nil slice, a nil chain and a nil header are \<open>None\<close>.\<close>

definition NewProcessor ::
  "'tx list option \<Rightarrow> ('s, 'tx, 'rc, 'tc, 'c, 'h) blockchain option \<Rightarrow> 'h option \<Rightarrow> 's \<Rightarrow> int \<Rightarrow>
   processor_error + ('s, 'tx, 'rc, 'tc, 'c, 'h) Processor" where
  "NewProcessor txs bc header state workers =
     (case (txs, bc, header) of
        (Some txs, Some bc, Some header) \<Rightarrow>
          Inr \<lparr>p_txs = txs, p_bc = bc, p_header = header, p_state = state, p_workers = workers\<rparr>
      | _ \<Rightarrow> Inl ErrNilArgument)"

text \<open>
  \<open>deliverTx\<close>: the processor's state database is the one the scheduler and its store share, so
  \<open>p.state.SetTxContext\<close> changes the parent of the store; the transaction itself runs on the copy
  in \<open>task.State\<close>, traced by the tracer of the task.
\<close>

definition deliverTx ::
  "'t vtree \<Rightarrow> ('s, 'tx) kaia \<Rightarrow> ('s, 'tx, 'rc, 'tc, 'c, 'h) blockchain \<Rightarrow> 'c \<Rightarrow> 'h \<Rightarrow>
   ('s, 't, 'tx, 'rc, 'tc) deliverTxFunc" where
  "deliverTx B K bc config header s task =
     (case (t_State task, t_VersionStores task) of
        (Some st0, Some tracer) \<Rightarrow>
          (case sdb_Snapshot K st0 of (st, snap) \<Rightarrow>
           let author = fst (bc_Author bc header);
               shared = sdb_SetTxContext K (parentStore s) (tx_Hash bc (t_Tx task)) (hd_Hash bc header)
                          (t_AbsoluteIndex task) in
           case bc_ApplyTransaction bc config author st header (t_Tx task) (t_UsedGas task) of
             (hooks, st', gas, out) \<Rightarrow>
             pbind (run_hooks B K (s\<lparr>parentStore := shared\<rparr>) hooks tracer) (\<lambda>tracer'.
               let task' = task\<lparr>t_VersionStores := Some tracer', t_UsedGas := gas\<rparr> in
               case out of
                 Inl err \<Rightarrow> Inr (Inl err, task'\<lparr>t_State := Some (sdb_RevertToSnapshot K st' snap)\<rparr>, shared)
               | Inr rt \<Rightarrow> Inr (Inr rt, task'\<lparr>t_State := Some st'\<rparr>, shared)))
      | _ \<Rightarrow> Inl NilDereference)"

definition entries :: "'tx list \<Rightarrow> 'tx DeliverTxEntry list" where
  "entries txs = map (\<lambda>(idx, tx). \<lparr>en_Tx = tx, en_AbsoluteIndex = idx\<rparr>) (zip (map int [0..<length txs]) txs)"

text \<open>\<open>Execute\<close>, with the processor's state after it; \<open>None\<close> is the nil slice.\<close>

definition Processor_Execute ::
  "'t vtree \<Rightarrow> ('s, 'tx) kaia \<Rightarrow> schedule \<Rightarrow> ('s, 'tx, 'rc, 'tc, 'c, 'h) Processor \<Rightarrow>
   go_panic + ('rc, 'tc) Response option list option \<times> 's" where
  "Processor_Execute B K S p =
     (if length (p_txs p) = 0 then Inr (None, p_state p)
      else
        let sc = NewScheduler (p_state p) (p_workers p);
            D = deliverTx B K (p_bc p) (bc_Config (p_bc p)) (p_header p) in
        pbind (ProcessAll B K D S (entries (p_txs p)) sc) (\<lambda>(resp, sc). Inr (Some resp, sc_state sc)))"

section \<open>The effects of a transaction\<close>

text \<open>
  What a transaction reads and writes on a state, as its tracer records it: the hooks of a run on a
  copy of the state, replayed on a tracer that has no store to consult and no channel to report to.
\<close>

definition traced_effects ::
  "'t vtree \<Rightarrow> ('s, 'tx) kaia \<Rightarrow> ('s, 'tx, 'rc, 'tc, 'c, 'h) blockchain \<Rightarrow> 'c \<Rightarrow> 'h \<Rightarrow> ('s, 'tx) effects" where
  "traced_effects B K bc config header st tx =
     (case bc_ApplyTransaction bc config (fst (bc_Author bc header)) (fst (sdb_Snapshot K (sdb_Copy K st)))
             header tx 0 of (hooks, st', gas, out) \<Rightarrow>
      case run_hooks B K (NewMultiVersionStore st) hooks (NewAccessListTracer tx 0 0 None) of
        Inl _ \<Rightarrow> (False, fmempty, fmempty)
      | Inr a \<Rightarrow> (\<not> isl out, tr_readset a, tr_writeset a))"

text \<open>Whether a transaction runs a \<open>SELFDESTRUCT\<close> on a state.\<close>

definition selfdestructs ::
  "('s, 'tx) kaia \<Rightarrow> ('s, 'tx, 'rc, 'tc, 'c, 'h) blockchain \<Rightarrow> 'c \<Rightarrow> 'h \<Rightarrow> 's \<Rightarrow> 'tx \<Rightarrow> bool" where
  "selfdestructs K bc config header st tx =
     (case bc_ApplyTransaction bc config (fst (bc_Author bc header)) (fst (sdb_Snapshot K (sdb_Copy K st)))
             header tx 0 of (hooks, st', gas, out) \<Rightarrow> list_ex is_selfdestruct hooks)"

text \<open>
  The behaviour of the EVM and of the state database the processor relies on: \<open>CaptureTxEnd\<close> comes
  after \<open>CaptureStart\<close>; the gas counter is only added to; setting the transaction context changes no
  value; and transactions store to data slots and to nonces below 2 to the power of 63.
\<close>

locale evm = value_tree B + kaia_spec K
  for B :: "'t vtree" and K :: "('s, 'tx) kaia" +
  fixes bc :: "('s, 'tx, 'rc, 'tc, 'c, 'h) blockchain" and config :: 'c and header :: 'h
  assumes hooks_well_formed: "bc_ApplyTransaction bc config author st header tx g = (hooks, st', g', out) \<Longrightarrow>
      well_formed_hooks False hooks"
    and gas_counter: "bc_ApplyTransaction bc config author st header tx g = (hooks, st', g', out) \<Longrightarrow>
      \<exists>st'' g'' out'. bc_ApplyTransaction bc config author st header tx 0 = (hooks, st'', g'', out') \<and>
        isl out' = isl out"
    and SetTxContext_values: "state_values K (sdb_SetTxContext K st h h' i) = state_values K st"
    and traced_writes: "traced_effects B K bc config header st tx = (ok, rs, ws) \<Longrightarrow>
      fmlookup ws k = Some v \<Longrightarrow> data_key K k \<and> storable K k v"
begin

text \<open>What the tracer has recorded when the EVM has called all its hooks, and what it has reported.\<close>

lemma apply_traced:
  fixes s :: "('s, 't) Store"
  defines "st \<equiv> fst (sdb_Snapshot K (sdb_Copy K (parentStore s)))"
  assumes ap: "bc_ApplyTransaction bc config (fst (bc_Author bc header)) st header tx gas = (hooks, st', gas', out)"
    and sh: "state_values K shared = state_values K (parentStore s)"
  obtains a c where "run_hooks B K (s\<lparr>parentStore := shared\<rparr>) hooks (NewAccessListTracer tx j n (Some (make_chan 1))) = Inr a"
    "tr_abortedChannel a = Some c" "\<not> ch_closed c" "tr_transactionIndex a = j" "tr_incarnation a = n"
    "\<forall>x\<in>set (ch_buf c). abort_target B s j (selfdestructs K bc config header (parentStore s) tx) x"
    "selfdestructs K bc config header (parentStore s) tx \<longrightarrow> ch_buf c \<noteq> []"
    "traced_effects B K bc config header (parentStore s) tx = (\<not> isl out, tr_readset a, tr_writeset a)"
proof -
  let ?s = "s\<lparr>parentStore := shared\<rparr>" and ?tr = "NewAccessListTracer tx j n (Some (make_chan 1))"
  have wf: "well_formed_hooks (tr_gasPrice ?tr \<noteq> None) hooks"
    using hooks_well_formed [OF ap [unfolded st_def]] by (simp add: NewAccessListTracer_def)
  have inv: "tracer_inv K (parentStore ?s) ?tr" by (simp add: tracer_inv_def NewAccessListTracer_def make_chan_def)
  from run_hooks_ok [OF inv wf] obtain a where a: "run_hooks B K ?s hooks ?tr = Inr a"
    "tracer_inv K (parentStore ?s) a" "tr_transactionIndex a = j" "tr_incarnation a = n"
    by (auto simp: NewAccessListTracer_def)
  let ?d = "selfdestructs K bc config header (parentStore s) tx"
  have d: "?d = list_ex is_selfdestruct hooks"
    using gas_counter [OF ap [unfolded st_def]] by (auto simp: selfdestructs_def)
  have chan: "chan_sat Q ?tr" if "Q (make_chan 1)" for Q
    using that by (simp add: chan_sat_def NewAccessListTracer_def)
  have "signals (\<lambda>c. \<forall>x\<in>set (ch_buf c). abort_target B ?s j ?d x) j (run_hooks B K ?s hooks ?tr)"
    by (intro run_hooks_targets chan) (simp_all add: d make_chan_def NewAccessListTracer_def)
  then obtain c where c: "tr_abortedChannel a = Some c" "\<forall>x\<in>set (ch_buf c). abort_target B s j ?d x"
    using a(1) by (auto simp: signals_def chan_sat_def abort_target_def Store_GetLatestBeforeIndex_def)
  have "signals (\<lambda>c. ch_buf c \<noteq> []) j (run_hooks B K ?s hooks ?tr)" if ?d
    using that unfolding d by (intro run_hooks_loud chan) (simp_all add: make_chan_def NewAccessListTracer_def)
  with a(1) c(1) have loud: "?d \<longrightarrow> ch_buf c \<noteq> []" by (simp add: signals_def chan_sat_def)
  have "sim (run_hooks B K ?s hooks ?tr) (run_hooks B K (NewMultiVersionStore (parentStore s)) hooks (erase ?tr))"
    by (rule sim_run_hooks) (simp_all add: sh NewMultiVersionStore_def open_chan_def NewAccessListTracer_def make_chan_def)
  then have "run_hooks B K (NewMultiVersionStore (parentStore s)) hooks (NewAccessListTracer tx 0 0 None) = Inr (erase a)"
    using a(1) by (simp add: sim_def erase_def NewAccessListTracer_def)
  with gas_counter [OF ap [unfolded st_def]]
  have "traced_effects B K bc config header (parentStore s) tx = (\<not> isl out, tr_readset a, tr_writeset a)"
    by (auto simp: traced_effects_def)
  moreover have "\<not> ch_closed c" using a(2) c(1) by (simp add: tracer_inv_def)
  ultimately show ?thesis using that a c loud by blast
qed

lemma deliverTx_delivered:
  assumes prep: "prepared K s t"
  shows "\<exists>out t' st'. deliverTx B K bc config header s t = Inr (out, t', st') \<and>
    delivered B K (traced_effects B K bc config header) (selfdestructs K bc config header) s t out t' st'"
proof -
  let ?st = "fst (sdb_Snapshot K (sdb_Copy K (parentStore s)))"
  let ?shared = "sdb_SetTxContext K (parentStore s) (tx_Hash bc (t_Tx t)) (hd_Hash bc header) (t_AbsoluteIndex t)"
  obtain hooks st' gas out where ap:
    "bc_ApplyTransaction bc config (fst (bc_Author bc header)) ?st header (t_Tx t) (t_UsedGas t) = (hooks, st', gas, out)"
    by (metis prod_cases4)
  obtain a c where a: "run_hooks B K (s\<lparr>parentStore := ?shared\<rparr>) hooks
      (NewAccessListTracer (t_Tx t) (t_AbsoluteIndex t) (t_Incarnation t) (Some (make_chan 1))) = Inr a"
    and c: "tr_abortedChannel a = Some c" "\<not> ch_closed c" "tr_transactionIndex a = t_AbsoluteIndex t"
      "tr_incarnation a = t_Incarnation t"
      "\<forall>x\<in>set (ch_buf c). abort_target B s (t_AbsoluteIndex t) (selfdestructs K bc config header (parentStore s) (t_Tx t)) x"
      "selfdestructs K bc config header (parentStore s) (t_Tx t) \<longrightarrow> ch_buf c \<noteq> []"
      "traced_effects B K bc config header (parentStore s) (t_Tx t) = (\<not> isl out, tr_readset a, tr_writeset a)"
    by (rule apply_traced [OF ap SetTxContext_values])
  let ?t = "t\<lparr>t_VersionStores := Some a, t_UsedGas := gas\<rparr>"
  define t' where "t' = (if isl out then ?t\<lparr>t_State := Some (sdb_RevertToSnapshot K st' (snd (sdb_Snapshot K (sdb_Copy K (parentStore s)))))\<rparr>
      else ?t\<lparr>t_State := Some st'\<rparr>)"
  have "deliverTx B K bc config header s t = Inr (out, t', ?shared)"
    using prep ap a by (cases out)
      (simp_all add: deliverTx_def prepared_def VersionedIndexedStore_def split_beta Let_def t'_def)
  moreover have "delivered B K (traced_effects B K bc config header) (selfdestructs K bc config header) s t out t' ?shared"
    using a c by (simp add: delivered_def task_frame_def t'_def SetTxContext_values)
  ultimately show ?thesis by blast
qed

end

sublocale evm \<subseteq> delivery B K "deliverTx B K bc config header" "traced_effects B K bc config header"
  "selfdestructs K bc config header"
  by unfold_locales (fact deliverTx_delivered, fact traced_writes)

text \<open>The facts of the scheduler for this \<open>deliverTx\<close>.\<close>

context evm
begin

lemmas evm_ProcessAll_ok = ProcessAll_ok
lemmas evm_executeTask_ok = executeTask_ok
lemmas evm_runTask_ok = runTask_ok
lemmas evm_sane_startState = sane_startState
lemmas evm_sane_reaches = sane_reaches
lemmas evm_steps_enabled = steps_enabled
lemmas evm_final_flush_ok = final_flush_ok
lemmas evm_flushUntil_ok = flushUntil_ok

end

text \<open>
  Determinism: what a transaction does depends only on the values it is traced to read. It requires
  that the tracer records every read of the EVM, and that \<open>Finalise\<close> changes no value (no storage is
  kept under an empty account).
\<close>

locale deterministic_evm = evm B K bc config header
  for B :: "'t vtree" and K :: "('s, 'tx) kaia" and bc :: "('s, 'tx, 'rc, 'tc, 'c, 'h) blockchain"
    and config :: 'c and header :: 'h +
  assumes traced_reads: "traced_effects B K bc config header st tx = (ok, rs, ws) \<Longrightarrow>
      fmlookup rs k = Some vs \<Longrightarrow> data_key K k"
    and traced_deterministic: "traced_effects B K bc config header st tx = (True, rs, ws) \<Longrightarrow>
      (\<And>k. fmlookup rs k \<noteq> None \<Longrightarrow> state_values K st' k = state_values K st k) \<Longrightarrow>
      traced_effects B K bc config header st' tx = (True, rs, ws)"
    and Finalise_keeps: "data_key K k \<Longrightarrow>
      state_values K (sdb_Finalise K st True False) k = state_values K st k"
begin

lemma traced_read_values:
  assumes "traced_effects B K bc config header st tx = (ok, rs, ws)" "fmlookup rs k = Some vs"
  shows "vs = [state_values K st k]"
proof -
  obtain hooks st' gas out where ap: "bc_ApplyTransaction bc config (fst (bc_Author bc header))
      (fst (sdb_Snapshot K (sdb_Copy K st))) header tx 0 = (hooks, st', gas, out)"
    by (metis prod_cases4)
  let ?a = "NewAccessListTracer tx 0 0 None" and ?s = "NewMultiVersionStore st :: ('s, 't) Store"
  have "tracer_inv K (parentStore ?s) ?a" "well_formed_hooks (tr_gasPrice ?a \<noteq> None) hooks"
    using hooks_well_formed [OF ap] by (simp_all add: tracer_inv_def NewAccessListTracer_def)
  from run_hooks_ok [OF this, of B] obtain a where
    "run_hooks B K ?s hooks ?a = Inr a" "tracer_inv K (parentStore ?s) a" by blast
  with assms ap show ?thesis
    by (simp add: traced_effects_def tracer_inv_def state_values_def) (simp add: NewMultiVersionStore_def)
qed

end

sublocale deterministic_evm \<subseteq>
  deterministic_delivery B K "deliverTx B K bc config header" "traced_effects B K bc config header"
    "selfdestructs K bc config header"
proof
  show "vs = [state_values K st k] \<and> data_key K k"
    if "traced_effects B K bc config header st tx = (ok, rs, ws)" "fmlookup rs k = Some vs" for st tx ok rs ws k vs
    using traced_read_values [OF that] traced_reads [OF that] by simp
qed (fact traced_deterministic, fact Finalise_keeps)

context deterministic_evm
begin

lemmas evm_serializable = serializable

end

section \<open>A concrete chain\<close>

text \<open>
  An instance of the chain that satisfies the assumptions, for concrete runs: a transaction does what
  its message says to the storage of contract 9. Its receipt is the value it stored.
\<close>

definition ref_scope :: "256 word list \<Rightarrow> vm_ScopeContext" where
  "ref_scope stack = \<lparr>scope_Stack = stack, scope_Address = 9, scope_CallerAddress = 1, scope_Value = 0\<rparr>"

definition ref_stored :: "ref_state \<Rightarrow> ref_msg \<Rightarrow> hash" where
  "ref_stored st tx = (case rm_src tx of None \<Rightarrow> 0 | Some x \<Rightarrow> rs_storage st 9 (ucast x)) + rm_add tx"

definition ref_hooks :: "ref_state \<Rightarrow> ref_msg \<Rightarrow> ref_state hook list" where
  "ref_hooks st tx =
     (case rm_src tx of None \<Rightarrow> [] | Some x \<Rightarrow> [HookState SLOAD (ref_scope [ucast x])]) @
     HookState SSTORE (ref_scope [ref_stored st tx, ucast (rm_dst tx)]) #
     (if rm_destroy tx then [HookState SELFDESTRUCT (ref_scope [])] else [])"

definition ref_bc :: "(ref_state, ref_msg, hash, unit, unit, 64 word) blockchain" where
  "ref_bc =
     \<lparr>bc_Config = (), bc_Author = (\<lambda>_. (0, None)),
      bc_ApplyTransaction = (\<lambda>_ _ st _ tx g.
        (ref_hooks st tx, st\<lparr>rs_storage := (rs_storage st)(9 := (rs_storage st 9)(ucast (rm_dst tx) := ref_stored st tx))\<rparr>,
         g + rm_gas tx, Inr (ref_stored st tx, ()))),
      hd_Hash = (\<lambda>_. 0), hd_GasUsed = (\<lambda>h. h), hd_SetGasUsed = (\<lambda>_ g. g), tx_Hash = (\<lambda>_. 0),
      tx_MarkUnexecutable = (\<lambda>tx _. tx), vm_ErrInsufficientBalance = ''insufficient balance'',
      vm_ErrTotalTimeLimitReached = ''time limit''\<rparr>"

definition ref_key :: "byte \<Rightarrow> StorageKey" where
  "ref_key x = ToStorageKey ref_kaia 9 (ucast x)"

definition ref_reads :: "ref_state \<Rightarrow> ref_msg \<Rightarrow> ReadSet" where
  "ref_reads st tx =
     (case rm_src tx of None \<Rightarrow> fmempty | Some x \<Rightarrow> fmupd (ref_key x) [rs_storage st 9 (ucast x)] fmempty)"

lemma small_slot: "uint (ucast (x :: byte) :: 256 word) < 256"
  using uint_bounded [of x] by (simp add: unsigned_ucast_eq take_bit_int_eq_self)

lemma small_slot_neq:
  assumes "256 \<le> uint r"
  shows "(ucast (x :: byte) :: 256 word) \<noteq> r"
  using small_slot [of x] assms by auto

lemma ref_key_slot [simp]:
  "StorageKey_Address ref_kaia (ref_key x) = 9" "StorageKey_Slot ref_kaia (ref_key x) = ucast x"
  by (simp_all add: ref_key_def)

lemma ref_key_plain:
  "ucast x \<noteq> CodeCopyKey ref_kaia" "ucast x \<noteq> CodeHashKey ref_kaia" "ucast x \<noteq> CodeSizeKey ref_kaia"
  "ucast x \<noteq> BalanceKey ref_kaia" "ucast x \<noteq> SelfDestructKey ref_kaia" "ucast x \<noteq> NonceKey ref_kaia"
  for x :: byte
  by (simp_all only: refk.reserved_keys_values) (rule small_slot_neq, simp)+

lemma ref_key_data: "data_key ref_kaia (ref_key x)" "storable ref_kaia (ref_key x) v"
  using ref_key_plain [of x] by (simp_all add: data_key_def storable_def) (simp add: ref_key_def)

lemma ref_key_value: "state_values ref_kaia st (ref_key x) = rs_storage st 9 (ucast x)"
  using ref_key_plain [of x]
  by (simp add: state_values_def StorageKey_GetValue_def Let_def) (simp add: ref_kaia_def)

lemma ref_copies [simp]:
  "sdb_Copy ref_kaia st = st" "sdb_Snapshot ref_kaia st = (st, 0)" "sdb_Finalise ref_kaia st b c = st"
  "sdb_SetTxContext ref_kaia st h h' i = st" "u256_Bytes32 ref_kaia w = w" "sdb_RevertToSnapshot ref_kaia st n = st"
  by (simp_all add: ref_kaia_def)

lemma ref_effects:
  "traced_effects map_btree ref_kaia ref_bc config header st tx =
   (True, ref_reads st tx, fmupd (ref_key (rm_dst tx)) (ref_stored st tx) fmempty)"
proof -
  have get: "StorageKey_GetValue ref_kaia (ref_key x) st = rs_storage st 9 (ucast x)" for x
    using ref_key_value [of st x] by (simp add: state_values_def)
  have keys: "ToStorageKey ref_kaia 9 (ucast x) = ref_key x" for x :: byte by (simp add: ref_key_def)
  show ?thesis
    by (cases "rm_src tx"; cases "rm_destroy tx")
      (simp_all add: traced_effects_def ref_bc_def ref_hooks_def ref_scope_def run_hooks_def CaptureState_def
        Tracer_touch_def Tracer_Get_def StorageKey_Bytes_def UpdateReadSet_def Store_GetLatestBeforeIndex_def
        Store_GetParentState_def NewMultiVersionStore_def WriteAbort_def NewAccessListTracer_def Let_def
        keys get ref_reads_def)
qed

lemma ref_apply:
  "bc_ApplyTransaction ref_bc c a st h tx g =
   (ref_hooks st tx, st\<lparr>rs_storage := (rs_storage st)(9 := (rs_storage st 9)(ucast (rm_dst tx) := ref_stored st tx))\<rparr>,
    g + rm_gas tx, Inr (ref_stored st tx, ()))"
  by (simp add: ref_bc_def)

interpretation refc: deterministic_evm map_btree ref_kaia ref_bc "()" 0
proof
  fix st st' tx g g' hooks a out and k :: StorageKey and v vs ok rs ws h h' i
  show "well_formed_hooks False hooks"
    if "bc_ApplyTransaction ref_bc () a st 0 tx g = (hooks, st', g', out)"
    using that by (auto simp: ref_apply ref_hooks_def split: option.splits)
  show "\<exists>st'' g'' out'. bc_ApplyTransaction ref_bc () a st 0 tx 0 = (hooks, st'', g'', out') \<and> isl out' = isl out"
    if "bc_ApplyTransaction ref_bc () a st 0 tx g = (hooks, st', g', out)"
    using that by (auto simp: ref_apply)
  show "state_values ref_kaia (sdb_SetTxContext ref_kaia st h h' i) = state_values ref_kaia st" by simp
  show "data_key ref_kaia k \<and> storable ref_kaia k v"
    if "traced_effects map_btree ref_kaia ref_bc () 0 st tx = (ok, rs, ws)" "fmlookup ws k = Some v"
    using that ref_key_data by (auto simp: ref_effects split: if_splits)
  show "data_key ref_kaia k"
    if "traced_effects map_btree ref_kaia ref_bc () 0 st tx = (ok, rs, ws)" "fmlookup rs k = Some vs"
    using that ref_key_data by (auto simp: ref_effects ref_reads_def split: option.splits if_splits)
  show "traced_effects map_btree ref_kaia ref_bc () 0 st' tx = (True, rs, ws)"
    if "traced_effects map_btree ref_kaia ref_bc () 0 st tx = (True, rs, ws)"
      "\<And>k. fmlookup rs k \<noteq> None \<Longrightarrow> state_values ref_kaia st' k = state_values ref_kaia st k"
  proof (cases "rm_src tx")
    case None
    with that(1) show ?thesis by (simp add: ref_effects ref_reads_def ref_stored_def)
  next
    case (Some x)
    with that have "state_values ref_kaia st' (ref_key x) = state_values ref_kaia st (ref_key x)"
      by (auto simp: ref_effects ref_reads_def)
    with Some that(1) show ?thesis
      by (simp add: ref_effects ref_reads_def ref_stored_def ref_key_value)
  qed
  show "state_values ref_kaia (sdb_Finalise ref_kaia st True False) k = state_values ref_kaia st k" by simp
qed

end
