(* ===== verification/Outcomes.thy ===== *)
theory Outcomes
  imports Processor
begin

text \<open>
  What the single operations of the scheduler and the processor do, on every branch, for the program's
  own \<open>deliverTx\<close>, and the concrete tasks of the witnesses.
\<close>

section \<open>Concrete tasks\<close>

text \<open>
  Transactions of the reference chain: \<open>ref_tx src dst n d\<close> stores in slot \<open>dst\<close> the number \<open>n\<close> plus, if
  \<open>src\<close> is given, the value of that slot; with \<open>d\<close> it then selfdestructs.
\<close>

definition ref_tx :: "byte option \<Rightarrow> byte \<Rightarrow> hash \<Rightarrow> bool \<Rightarrow> ref_msg" where
  "ref_tx src dst n d =
     \<lparr>rm_feePayer = 1, rm_sender = 1, rm_ratio = None, rm_gas = 1, rm_src = src, rm_dst = dst,
      rm_add = n, rm_destroy = d\<rparr>"

type_synonym ref_scheduler = "(ref_state, (int, valueItem) fmap, ref_msg, hash, unit) scheduler"

definition ref_deliver :: "(ref_state, (int, valueItem) fmap, ref_msg, hash, unit) deliverTxFunc" where
  "ref_deliver = deliverTx map_btree ref_kaia ref_bc () 0"

text \<open>The scheduler at the start of a block of the reference chain.\<close>

definition ref_start :: "ref_msg list \<Rightarrow> ref_scheduler" where
  "ref_start txs = startState empty_state 4 (entries txs)"

lemma length_entries [simp]: "length (entries txs) = length txs"
  by (simp add: entries_def)

lemma block_entries: "block (entries txs)" and entries_Tx: "map en_Tx (entries txs) = txs"
  by (auto simp: block_def entries_def intro: nth_equalityI)

lemma ref_start_sane: "sane map_btree ref_kaia txs (ref_start txs)"
  using refc.sane_startState [OF block_entries, where txs1 = txs] by (simp add: ref_start_def entries_Tx)

section \<open>Validation\<close>

text \<open>A task whose conflicts are recorded and whose versions and readset are withdrawn.\<close>

definition withdrawn ::
  "'t vtree \<Rightarrow> nat \<Rightarrow> int list \<Rightarrow> ('s, 't, 'tx, 'rc, 'tc) scheduler \<Rightarrow> ('s, 't, 'tx, 'rc, 'tc) scheduler" where
  "withdrawn B i conflicts sc =
     updTask i (AppendDependencies conflicts)
       (updStore (ClearReadset (InvalidateWriteset B (store_of sc) (int i) (t_Incarnation (task_at sc i))) (int i)) sc)"

definition ready :: "nat \<Rightarrow> ('s, 't, 'tx, 'rc, 'tc) scheduler \<Rightarrow> bool" where
  "ready i sc \<longleftrightarrow>
     (\<forall>j\<in>fset (fmdom (t_Dependencies (task_at sc i))). t_Status (task_at sc (nat j)) = statusValidated)"

lemma ready_eq:
  "sane B K txs sc \<Longrightarrow> i < length txs \<Longrightarrow>
   dependenciesValidated sc (t_Dependencies (task_at sc i)) = Inr (ready i sc)"
  using dependenciesValidated_ok sane_task_ok unfolding ready_def task_ok_def by blast

lemma sane_withdrawn:
  assumes "value_tree B" "sane B K txs sc" "i < length txs" "set conflicts \<subseteq> {0..<int (length txs)}"
  shows "sane B K txs (withdrawn B i conflicts sc)"
  unfolding withdrawn_def using assms(2-) sane_task_ok [OF assms(2,3)]
  by (intro sane_updTask sane_updStore)
    (auto simp: sane_def task_ok_def intro: value_tree.store_ok_InvalidateWriteset [OF assms(1)])

lemma rerunInvalid_eq:
  assumes "value_tree B" "sane B K txs sc" "i < length txs" "set conflicts \<subseteq> {0..<int (length txs)}"
  shows "rerunInvalid B i conflicts sc =
    Inr (if ready i (withdrawn B i conflicts sc) then (True, withdrawn B i conflicts sc)
         else (False, updTask i (SetStatus statusWaiting) (withdrawn B i conflicts sc)))"
proof -
  have "t_AbsoluteIndex (task_at sc i) = int i" using sane_task_ok [OF assms(2,3)] by (simp add: task_ok_def)
  then have "rerunInvalid B i conflicts sc =
      pbind (dependenciesValidated (withdrawn B i conflicts sc) (t_Dependencies (task_at (withdrawn B i conflicts sc) i)))
        (\<lambda>ok. if ok then Inr (True, withdrawn B i conflicts sc)
              else Inr (False, updTask i (SetStatus statusWaiting) (withdrawn B i conflicts sc)))"
    unfolding withdrawn_def
    by (simp add: rerunInvalid_def invalidateTask_def sane_withStore [OF assms(2)] Let_def)
  then show ?thesis by (simp add: ready_eq [OF sane_withdrawn [OF assms] assms(3)])
qed

lemma shouldRerun_eq:
  assumes "value_tree B" "sane B K txs sc" "i < length txs"
    and "ValidateTransactionState B K (store_of sc) (int i) = (valid, conflicts)"
  shows "shouldRerun B K i sc =
    Inr (case t_Status (task_at sc i) of
           statusPending \<Rightarrow> (True, sc)
         | statusAborted \<Rightarrow> (True, sc)
         | statusWaiting \<Rightarrow> (ready i sc, sc)
         | _ \<Rightarrow> if valid then (False, updTask i (SetStatus statusValidated) sc)
               else if ready i (withdrawn B i conflicts sc) then (True, withdrawn B i conflicts sc)
               else (False, updTask i (SetStatus statusWaiting) (withdrawn B i conflicts sc)))"
proof -
  have idx: "t_AbsoluteIndex (task_at sc i) = int i" using sane_task_ok [OF assms(2,3)] by (simp add: task_ok_def)
  have fc: "findConflicts B K i sc = Inr (valid, conflicts)"
    by (simp add: findConflicts_eq sane_withStore [OF assms(2)] idx assms(4))
  have nc: "valid \<Longrightarrow> conflicts = []"
    using value_tree.valid_no_conflicts [OF assms(1)] assms(4) by auto
  have "set conflicts \<subseteq> {0..<int (length txs)}"
    using value_tree.conflicts_in_range [OF assms(1), of K "length txs" "store_of sc" _ K "int i"] assms(2,4)
    by (auto simp: sane_def)
  note ri = rerunInvalid_eq [OF assms(1-3) this]
  show ?thesis
    by (cases "t_Status (task_at sc i)")
      (simp_all add: shouldRerun_def Let_def fc nc ri ready_eq [OF assms(2,3)])
qed

text \<open>
  (C11) The verdict on a task, on every branch. A pending or aborted task is run again; a waiting one
  when all it depends on is validated. An executed or validated task whose readset is valid becomes
  validated; otherwise its versions turn into estimates, its readset is dropped and its conflicts
  are recorded, and it is run again if all it depends on is validated and waits if not. There is no
  panic, and the branch for a valid task with conflicts is never taken.
\<close>

theorem should_rerun_branches:
  assumes "value_tree B" "sane B K txs sc" "i < length txs"
    and "ValidateTransactionState B K (store_of sc) (int i) = (valid, conflicts)"
  shows "shouldRerun B K i sc =
    Inr (case t_Status (task_at sc i) of
           statusPending \<Rightarrow> (True, sc)
         | statusAborted \<Rightarrow> (True, sc)
         | statusWaiting \<Rightarrow> (ready i sc, sc)
         | _ \<Rightarrow> if valid then (False, updTask i (SetStatus statusValidated) sc)
               else if ready i (withdrawn B i conflicts sc) then (True, withdrawn B i conflicts sc)
               else (False, updTask i (SetStatus statusWaiting) (withdrawn B i conflicts sc)))"
  using assms by (rule shouldRerun_eq)

text \<open>A scheduler of two transactions whose first task has been executed.\<close>

abbreviation pair_txs :: "ref_msg list" where
  "pair_txs \<equiv> [ref_tx None 1 1 False, ref_tx (Some 1) 2 0 False]"

definition executed_one :: ref_scheduler where
  "executed_one = projr (executeTask map_btree ref_kaia ref_deliver 0
     (ref_start pair_txs))"

lemma executed_one_status:
  "t_Status (task_at executed_one 0) = statusExecuted"
  "ValidateTransactionState map_btree ref_kaia (store_of executed_one) 0 = (True, [])"
  by code_simp+

lemma executed_one_sane: "sane map_btree ref_kaia pair_txs executed_one"
  using refc.executeTask_ok [OF ref_start_sane, of 0 pair_txs]
  by (auto simp: executed_one_def ref_deliver_def)

theorem should_rerun_branches_witness:
  "value_tree map_btree \<and> sane map_btree ref_kaia pair_txs executed_one \<and>
   shouldRerun map_btree ref_kaia 0 executed_one =
     Inr (False, updTask 0 (SetStatus statusValidated) executed_one)"
  using should_rerun_branches [OF ref.value_tree_axioms executed_one_sane, of 0 True "[]"] executed_one_status
    executed_one_sane ref.value_tree_axioms by simp

section \<open>Execution\<close>


definition prepared_task :: "(ref_state, ref_msg, hash, unit) DeliverTxTask" where
  "prepared_task = (newTask \<lparr>en_Tx = ref_tx None 1 1 False, en_AbsoluteIndex = 0\<rparr>)\<lparr>t_State := Some empty_state,
     t_VersionStores := Some (VersionedIndexedStore (ref_tx None 1 1 False) 0 0 (Some (make_chan 1)))\<rparr>"




text \<open>
  (C36) In the synchronous mode a validated task that is found invalid is not always run again. When all it
  depends on is validated, \<open>executeTask\<close> returns without running it: the task stays validated while
  its versions have been turned into estimates and its readset is gone, so the final write-back
  ignores everything the transaction wrote.
\<close>

theorem sync_skips_invalid:
  assumes "value_tree B" "sane B K txs sc" "i < length txs" "sc_synchronous sc"
    and "t_Status (task_at sc i) = statusValidated"
    and "ValidateTransactionState B K (store_of sc) (int i) = (False, conflicts)"
    and "ready i (withdrawn B i conflicts sc)"
  shows "\<exists>sc'. executeTask B K deliver i sc = Inr sc' \<and> t_Status (task_at sc' i) = statusValidated \<and>
    column B (store_of sc') (int i) =
      (\<lambda>k. map_option (\<lambda>_. NewEstimateItem (int i) (t_Incarnation (task_at sc i))) (column B (store_of sc) (int i) k)) \<and>
    fmlookup (txReadSets (store_of sc')) (int i) = None"
proof -
  have len: "i < length (sc_allTasks sc)" using sane_length [OF assms(2)] assms(3) by simp
  have inv: "store_inv B (store_of sc)" using assms(2) by (simp add: sane_def store_ok_def)
  have st: "t_Status (task_at (withdrawn B i conflicts sc) i) = statusValidated"
    using assms(5) len by (simp add: withdrawn_def task_at_updTask)
  have "executeTask B K deliver i sc = Inr (withdrawn B i conflicts sc)"
    using shouldRerun_eq [OF assms(1-3,6)] assms(4,5,7) st
    by (simp add: executeTask_def resumeTask_def IsValidated_def)
  with st show ?thesis
    by (simp add: withdrawn_def value_tree.column_writers [OF assms(1) inv])
qed

text \<open>
  Two transactions, the second reading what the first writes: the second is executed and validated
  first, then the first.
\<close>

definition ref_step :: "nat \<Rightarrow> ref_scheduler \<Rightarrow> ref_scheduler" where
  "ref_step i sc = projr (pbind (executeTask map_btree ref_kaia ref_deliver i sc)
     (\<lambda>sc. pbind (validateOne map_btree ref_kaia i (sc, [])) (\<lambda>(sc, _). Inr sc)))"

lemma ref_step_sane:
  assumes "sane map_btree ref_kaia txs sc" "i < length txs"
  shows "sane map_btree ref_kaia txs (ref_step i sc)"
proof -
  obtain sc1 where sc1: "executeTask map_btree ref_kaia ref_deliver i sc = Inr sc1" "sane map_btree ref_kaia txs sc1"
    using refc.executeTask_ok [OF assms] by (auto simp: ref_deliver_def)
  obtain sc2 res where "validateOne map_btree ref_kaia i (sc1, []) = Inr (sc2, res)" "sane map_btree ref_kaia txs sc2"
    using refc.validateOne_ok [OF sc1(2) assms(2), of "[]"] by auto
  with sc1 show ?thesis by (simp add: ref_step_def)
qed

definition stale_pair :: ref_scheduler where
  "stale_pair = (ref_step 0 (ref_step 1 (ref_start pair_txs)))\<lparr>sc_synchronous := True\<rparr>"

definition stale_report :: "ref_scheduler \<Rightarrow> status \<times> bool \<times> (bool \<times> int list) \<times> int list \<times> status" where
  "stale_report sc = (t_Status (task_at sc 1), sc_synchronous sc,
     ValidateTransactionState map_btree ref_kaia (store_of sc) 1,
     fmkeys (t_Dependencies (task_at (withdrawn map_btree 1 [0] sc) 1)),
     t_Status (task_at (withdrawn map_btree 1 [0] sc) 0))"

lemma stale_pair_report: "stale_report stale_pair = (statusValidated, True, (False, [0]), [0], statusValidated)"
  by code_simp

lemma stale_pair_ready: "ready 1 (withdrawn map_btree 1 [0] stale_pair)"
proof -
  have "set (fmkeys (t_Dependencies (task_at (withdrawn map_btree 1 [0] stale_pair) 1))) = {0}"
    using stale_pair_report by (simp add: stale_report_def del: set_fmkeys)
  then show ?thesis using stale_pair_report by (simp add: ready_def stale_report_def)
qed

lemma stale_pair_sane: "sane map_btree ref_kaia pair_txs stale_pair"
proof -
  have "sane map_btree ref_kaia pair_txs (ref_step 0 (ref_step 1 (ref_start pair_txs)))"
    by (intro ref_step_sane ref_start_sane) simp_all
  then show ?thesis by (simp add: stale_pair_def sane_def store_of_def task_at_def)
qed

theorem sync_skips_invalid_witness:
  "value_tree map_btree \<and> sane map_btree ref_kaia pair_txs stale_pair \<and> sc_synchronous stale_pair \<and>
   (\<exists>sc'. executeTask map_btree ref_kaia ref_deliver 1 stale_pair = Inr sc' \<and>
      t_Status (task_at sc' 1) = statusValidated \<and> fmlookup (txReadSets (store_of sc')) 1 = None)"
  using sync_skips_invalid [OF ref.value_tree_axioms stale_pair_sane, of 1 "[0]" ref_deliver] stale_pair_report
    stale_pair_ready ref.value_tree_axioms stale_pair_sane
  by (auto simp: stale_report_def)

end
