(* ===== verification/Sequential.thy ===== *)
theory Sequential
  imports Outcomes
begin

text \<open>
  The sequential executor as the reference for the scheduler: under the locale \<open>traced_chain\<close> (what the
  EVM does to the state is what the tracer records of it) committing the transactions of a block one
  after the other agrees with \<open>serial\<close>, hence with a concurrent run.
\<close>

section \<open>Committing a block\<close>

text \<open>The executor applied to the transactions of a block in turn, with the results.\<close>

primrec commitAll ::
  "('s, 'tx) kaia \<Rightarrow> ('s, 'tx, 'rc, 'tc, 'c, 'h) blockchain \<Rightarrow> address \<Rightarrow> 'tx list \<Rightarrow> ('s, 'c, 'h) Executor \<Rightarrow>
   (go_error + 'rc) list \<times> ('s, 'c, 'h) Executor" where
  "commitAll K bc rewardbase [] env = ([], env)"
| "commitAll K bc rewardbase (tx # txs) env =
     (case CommitTransaction K bc tx rewardbase env of (out, tx', env) \<Rightarrow>
      case commitAll K bc rewardbase txs env of (outs, env) \<Rightarrow> (out # outs, env))"

text \<open>Two states with the same values of data keys.\<close>

definition same_values :: "('s, 'tx) kaia \<Rightarrow> 's \<Rightarrow> 's \<Rightarrow> bool" where
  "same_values K st st' \<longleftrightarrow> (\<forall>k. data_key K k \<longrightarrow> state_values K st k = state_values K st' k)"

lemma same_values_refl [simp]: "same_values K st st"
  by (simp add: same_values_def)

lemma same_values_sym: "same_values K st st' \<Longrightarrow> same_values K st' st"
  by (simp add: same_values_def)

lemma same_values_trans [trans]:
  "same_values K st st' \<Longrightarrow> same_values K st' st'' \<Longrightarrow> same_values K st st''"
  by (simp add: same_values_def)

text \<open>
  A transaction that succeeds leaves the state with the values its traced writes give, one that fails is
  undone by \<open>RevertToSnapshot\<close>; neither depends on the gas used so far in the block. The field
  \<open>GasUsed\<close> of the header is set and read as a field.
\<close>

locale traced_chain = deterministic_evm B K bc config header
  for B :: "'t vtree" and K :: "('s, 'tx) kaia" and bc :: "('s, 'tx, 'rc, 'tc, 'c, 'h) blockchain"
    and config :: 'c and header :: 'h +
  assumes committed: "sdb_Snapshot K st = (st1, snap) \<Longrightarrow>
      bc_ApplyTransaction bc config (fst (bc_Author bc header)) st1 (hd_SetGasUsed bc header g) tx g =
        (hooks, st', g', Inr rt) \<Longrightarrow>
      \<exists>rs ws. traced_effects B K bc config header st tx = (True, rs, ws) \<and>
        same_values K st' (applyWrites K ws st)"
    and failed: "sdb_Snapshot K st = (st1, snap) \<Longrightarrow>
      bc_ApplyTransaction bc config (fst (bc_Author bc header)) st1 (hd_SetGasUsed bc header g) tx g =
        (hooks, st', g', Inl err) \<Longrightarrow>
      \<not> fst (traced_effects B K bc config header st tx) \<and>
      same_values K (sdb_RevertToSnapshot K st' snap) st"
    and GasUsed_field: "hd_GasUsed bc (hd_SetGasUsed bc header g) = g"
      "hd_SetGasUsed bc (hd_SetGasUsed bc header g) g' = hd_SetGasUsed bc header g'"
      "hd_SetGasUsed bc header (hd_GasUsed bc header) = header"
begin

lemma serialStep_same:
  assumes "same_values K st st'"
  shows "same_values K (serialStep K (traced_effects B K bc config header) tx st)
    (serialStep K (traced_effects B K bc config header) tx st')"
proof -
  have transfer: "traced_effects B K bc config header st2 tx = (True, rs, ws)"
    if "same_values K st1 st2" "traced_effects B K bc config header st1 tx = (True, rs, ws)" for st1 st2 rs ws
    using that(1) by (intro traced_deterministic [OF that(2)]) (auto simp: same_values_def dest: traced_reads [OF that(2)])
  obtain ok rs ws where ex: "traced_effects B K bc config header st tx = (ok, rs, ws)" by (metis prod_cases3)
  show ?thesis
  proof (cases ok)
    case True
    with ex transfer [OF assms] have "traced_effects B K bc config header st' tx = (True, rs, ws)" by simp
    with True ex assms show ?thesis
      by (simp add: serialStep_def same_values_def applyWrites_values [OF ex] split: option.split)
  next
    case False
    obtain ok' rs' ws' where ex': "traced_effects B K bc config header st' tx = (ok', rs', ws')" by (metis prod_cases3)
    have "\<not> ok'"
    proof
      assume ok'
      with ex' transfer [OF same_values_sym [OF assms]] have "traced_effects B K bc config header st tx = (True, rs', ws')"
        by simp
      with ex False show False by simp
    qed
    with False ex ex' assms show ?thesis
      by (simp add: serialStep_def)
  qed
qed

text \<open>One commit is one step of the serial execution.\<close>

lemma CommitTransaction_serial:
  assumes "CommitTransaction K bc tx (fst (bc_Author bc header)) (NewExecutor config st (hd_SetGasUsed bc header g)) =
      (out, tx', env)"
  shows "(\<exists>g'. env = NewExecutor config (ex_state env) (hd_SetGasUsed bc header g')) \<and>
    same_values K (ex_state env) (serialStep K (traced_effects B K bc config header) tx st) \<and>
    (isl out \<longleftrightarrow> \<not> fst (traced_effects B K bc config header st tx))"
proof -
  obtain st1 snap where snap: "sdb_Snapshot K st = (st1, snap)" by fastforce
  obtain hooks st' g' res where ap: "bc_ApplyTransaction bc config (fst (bc_Author bc header)) st1
      (hd_SetGasUsed bc header g) tx g = (hooks, st', g', res)" by (metis prod_cases4)
  show ?thesis
  proof (cases res)
    case (Inl err)
    with assms failed [OF snap ap [unfolded Inl]] show ?thesis
      by (auto simp: CommitTransaction_def NewExecutor_def snap ap GasUsed_field Let_def serialStep_def split_beta)
  next
    case (Inr rt)
    with assms committed [OF snap ap [unfolded Inr]] show ?thesis
      by (cases rt) (auto simp: CommitTransaction_def NewExecutor_def snap ap GasUsed_field Let_def serialStep_def)
  qed
qed

lemma commitAll_serial:
  assumes "same_values K st st'"
    and "commitAll K bc (fst (bc_Author bc header)) txs (NewExecutor config st (hd_SetGasUsed bc header g)) = (outs, env)"
  shows "same_values K (ex_state env) (serial K (traced_effects B K bc config header) txs st')"
  using assms
proof (induction txs arbitrary: st st' g outs env)
  case Nil
  then show ?case by (auto simp: serial_def NewExecutor_def)
next
  case (Cons tx txs)
  obtain out tx' env1 where c: "CommitTransaction K bc tx (fst (bc_Author bc header))
      (NewExecutor config st (hd_SetGasUsed bc header g)) = (out, tx', env1)" by (metis prod_cases3)
  from CommitTransaction_serial [OF c] obtain g1 where
    env1: "env1 = NewExecutor config (ex_state env1) (hd_SetGasUsed bc header g1)"
    and step: "same_values K (ex_state env1) (serialStep K (traced_effects B K bc config header) tx st)" by blast
  obtain outs1 where r: "commitAll K bc (fst (bc_Author bc header)) txs
      (NewExecutor config (ex_state env1) (hd_SetGasUsed bc header g1)) = (outs1, env)"
    using Cons.prems(2) c env1 by (auto split: prod.splits)
  have "same_values K (ex_state env1) (serialStep K (traced_effects B K bc config header) tx st')"
    using step serialStep_same [OF Cons.prems(1)] by (rule same_values_trans)
  from Cons.IH [OF this r] show ?case by (simp add: serial_def)
qed

end

section \<open>The reference chain\<close>

lemma ref_applyWrites:
  "applyWrites ref_kaia (fmupd (ref_key x) v fmempty) st =
   st\<lparr>rs_storage := (rs_storage st)(9 := (rs_storage st 9)(ucast x := v))\<rparr>"
proof -
  have "fmkeys (fmupd (ref_key x) v fmempty) = [ref_key x]" by (simp add: fmkeys_alt)
  then show ?thesis
    using ref_key_plain [of x] by (simp add: applyWrites_def StorageKey_SetValue_def Let_def)
      (simp add: ref_kaia_def)
qed

interpretation reft: traced_chain map_btree ref_kaia ref_bc "()" 0
  by unfold_locales (auto simp: ref_apply ref_effects ref_applyWrites, auto simp: ref_bc_def)

section \<open>Properties\<close>



end
