(* ===== verification/Liveness.thy ===== *)
theory Liveness
  imports Sequential
begin

text \<open>
  Which transactions get done: one that selfdestructs never does, whatever the schedule; the transactions
  of a block without conflicts are each executed once and validated in the first round.
\<close>

section \<open>Starvation\<close>

text \<open>The task has no response and is neither executed nor validated.\<close>

definition starved :: "nat \<Rightarrow> ('s, 't, 'tx, 'rc, 'tc) scheduler \<Rightarrow> bool" where
  "starved i sc \<longleftrightarrow> t_Response (task_at sc i) = None \<and>
     t_Status (task_at sc i) \<in> {statusPending, statusAborted, statusWaiting}"

lemma starved_cong: "task_at sc' i = task_at sc i \<Longrightarrow> starved i sc' = starved i sc"
  by (simp add: starved_def)

lemma starved_reset:
  "i < length (sc_allTasks sc) \<Longrightarrow> starved i (updTask i (\<lambda>t. Increment (Task_Reset t)) sc)"
  by (simp add: starved_def task_at_updTask)

lemma resume_starved:
  assumes "starved i sc"
  shows "resumeTask B K i sc = Inr (True, if sc_synchronous sc \<and> t_Status (task_at sc i) \<noteq> statusPending
    then updTask i (\<lambda>t. Increment (Task_Reset t)) sc else sc)"
  using assms by (auto simp: resumeTask_def starved_def IsValidated_def IsStatus_def)

lemma validate_starved:
  assumes "sane B K txs sc" "i < length txs" "starved i sc" "validateOne B K i (sc, res) = Inr (sc', res')"
  shows "starved i sc'"
proof -
  have len: "i < length (sc_allTasks sc)" using sane_length [OF assms(1)] assms(2) by simp
  have "shouldRerun B K i sc = Inr (True, sc) \<or> shouldRerun B K i sc = Inr (False, sc)"
    using assms(3) ready_eq [OF assms(1,2)] by (auto simp: shouldRerun_def starved_def Let_def)
  then show ?thesis
    using assms(3,4) starved_reset [OF len]
    by (auto simp: validateOne_def validateTask_def Let_def task_at_def starved_def split: if_splits)
qed

context delivery
begin

lemma execute_starved:
  assumes sane: "sane B K txs sc" and i: "i < length txs" and "starved i sc"
    and "\<And>st. destroys st (txs ! i)" and "executeTask B K deliver i sc = Inr sc'"
  shows "starved i sc'"
proof -
  define sc1 where "sc1 = (if sc_synchronous sc \<and> t_Status (task_at sc i) \<noteq> statusPending
    then updTask i (\<lambda>t. Increment (Task_Reset t)) sc else sc)"
  have len: "i < length (sc_allTasks sc)" using sane_length [OF sane] i by simp
  have sane1: "sane B K txs sc1" and st1: "starved i sc1"
    using reset_ok [OF sane i] sane starved_reset [OF len] assms(3) by (simp_all add: sc1_def)
  have "runTask B K deliver i sc1 = Inr sc'"
    using assms(5) resume_starved [OF assms(3), of B K] by (simp add: executeTask_def sc1_def)
  with runTask_ok [OF sane1 i] have "ran B exec destroys i sc1 sc'" by auto
  moreover have "t_Tx (task_at sc1 i) = txs ! i" using sane_task_ok [OF sane1 i] by (simp add: task_ok_def)
  ultimately show ?thesis using st1 assms(4) by (auto simp: ran_def starved_def Let_def)
qed

lemma starved_step:
  assumes "sched_step B K deliver (length txs) sc sc'" "sane B K txs sc" "i < length txs" "starved i sc"
    and "\<And>st. destroys st (txs ! i)"
  shows "starved i sc'"
  using assms(1)
proof cases
  case (Execute j)
  show ?thesis
  proof (cases "j = i")
    case True
    with Execute execute_starved [OF assms(2-5)] show ?thesis by simp
  next
    case False
    with Execute executeTask_ok [OF assms(2), of j] have "task_at sc' i = task_at sc i"
      by (auto simp: step_at_def)
    with assms(4) show ?thesis by (simp add: starved_def)
  qed
next
  case (Validate j res res')
  show ?thesis
  proof (cases "j = i")
    case True
    with Validate validate_starved [OF assms(2-4)] show ?thesis by simp
  next
    case False
    with Validate validateOne_ok [OF assms(2), of j res] have "task_at sc' i = task_at sc i"
      by (auto simp: step_at_def)
    with assms(4) show ?thesis by (simp add: starved_def)
  qed
next
  case (Flush lo hi)
  with flushUntil_ok [OF assms(2), of lo hi] assms(4) show ?thesis by (auto simp: starved_def)
next
  case Fallback
  with assms(4) show ?thesis by (simp add: starved_def task_at_def)
qed

lemma starved_reaches:
  assumes "reaches B K deliver (length txs) sc sc'" "sane B K txs sc" "i < length txs" "starved i sc"
    and "\<And>st. destroys st (txs ! i)"
  shows "starved i sc'"
  using assms(1)
proof (induction rule: rtranclp_induct)
  case base
  show ?case by (rule assms(4))
next
  case (step sc1 sc2)
  show ?case
    using starved_step [OF step.hyps(2) sane_reaches [OF step.hyps(1) assms(2)] assms(3) step.IH assms(5)] .
qed

lemma selfdestruct_starved:
  assumes "block reqs" "\<And>r is. set (exec_order S r is) = set is" "\<And>r is. set (valid_order S r is) = set is"
    and "i < length reqs" "\<And>st. destroys st (en_Tx (reqs ! i))"
  shows "\<exists>resp sc. ProcessAll B K deliver S reqs (NewScheduler st w) = Inr (resp, sc) \<and> resp ! i = None"
proof -
  obtain resp sc sc' where run: "ProcessAll B K deliver S reqs (NewScheduler st w) = Inr (resp, sc)"
    "reaches B K deliver (length reqs) (startState st w reqs) sc'" "resp = map t_Response (sc_allTasks sc')"
    "sane B K (map en_Tx reqs) sc'"
    using ProcessAll_ok [OF assms(1-3), of st w] by (elim exE conjE) (rule that)
  have "starved i sc'"
    by (rule starved_reaches [where sc = "startState st w reqs" and txs = "map en_Tx reqs"])
      (use run(2) assms(4,5) sane_startState [OF assms(1)] in
        \<open>simp_all add: starved_def task_at_startState newTask_def\<close>)
  with run assms(4) sane_length [OF run(4)] show ?thesis
    by (simp add: starved_def task_at_def)
qed

end

section \<open>Blocks without conflicts\<close>

text \<open>
  Every transaction succeeds on the state, and none reads a key that an earlier one writes. Two
  transactions may write the same key.
\<close>

definition independent :: "('s, 'tx) effects \<Rightarrow> 's \<Rightarrow> 'tx list \<Rightarrow> bool" where
  "independent exec st txs \<longleftrightarrow>
     (\<forall>j<length txs. fst (exec st (txs ! j)) \<and>
        (\<forall>i<j. fmdom (snd (snd (exec st (txs ! i)))) |\<inter>| fmdom (fst (snd (exec st (txs ! j)))) = {||}))"

lemma independent_succeeds:
  assumes "independent exec st txs" "j < length txs"
  obtains rs ws where "exec st (txs ! j) = (True, rs, ws)"
proof -
  obtain ok rs ws where ex: "exec st (txs ! j) = (ok, rs, ws)" by (metis prod_cases3)
  with assms that show ?thesis by (auto simp: independent_def)
qed

lemma independent_disjoint:
  assumes "independent exec st txs" "j < length txs" "i < j" "exec st (txs ! j) = (ok, rs, ws)" "fmlookup rs k = Some vs"
  shows "fmlookup (snd (snd (exec st (txs ! i)))) k = None"
proof -
  have "fmdom (snd (snd (exec st (txs ! i)))) |\<inter>| fmdom (fst (snd (exec st (txs ! j)))) = {||}"
    using assms(1-3) by (simp add: independent_def)
  moreover have "k |\<in>| fmdom (fst (snd (exec st (txs ! j))))" using assms(4,5) by (simp add: fmdomI)
  ultimately have "k |\<notin>| fmdom (snd (snd (exec st (txs ! i))))" by blast
  then show ?thesis by (simp add: fmdom_notD)
qed

lemma upt_perm:
  assumes "mset xs = mset [0..<n]"
  shows "set xs = {..<n} \<and> distinct xs"
  using mset_eq_setD [OF assms] mset_eq_imp_distinct_iff [OF assms] by (simp add: atLeast0LessThan)

text \<open>The first round: the tasks have the statuses \<open>g\<close>, and those that ran have their effects on \<open>st\<close>.\<close>

definition task_one ::
  "'t vtree \<Rightarrow> ('s, 'tx) effects \<Rightarrow> 's \<Rightarrow> 'tx list \<Rightarrow> status \<Rightarrow> ('s, 't, 'tx, 'rc, 'tc) scheduler \<Rightarrow> nat \<Rightarrow> bool" where
  "task_one B exec st txs x sc i \<longleftrightarrow> t_Incarnation (task_at sc i) = 0 \<and> t_Status (task_at sc i) = x \<and>
     (if x = statusPending then column B (store_of sc) (int i) = (\<lambda>_. None)
      else t_Response (task_at sc i) \<noteq> None \<and>
        column B (store_of sc) (int i) =
          (\<lambda>k. map_option (written (int i) 0) (fmlookup (snd (snd (exec st (txs ! i)))) k)) \<and>
        fmlookup (txReadSets (store_of sc)) (int i) = Some (fst (snd (exec st (txs ! i)))))"

definition round_one ::
  "'t vtree \<Rightarrow> ('s, 'tx) kaia \<Rightarrow> ('s, 'tx) effects \<Rightarrow> 's \<Rightarrow> 'tx list \<Rightarrow> (nat \<Rightarrow> status) \<Rightarrow>
   ('s, 't, 'tx, 'rc, 'tc) scheduler \<Rightarrow> bool" where
  "round_one B K exec st txs g sc \<longleftrightarrow>
     sane B K txs sc \<and> \<not> sc_synchronous sc \<and> state_values K (sc_state sc) = state_values K st \<and>
     (\<forall>i<length txs. task_one B exec st txs (g i) sc i)"

lemma round_one_task: "round_one B K exec st txs g sc \<Longrightarrow> i < length txs \<Longrightarrow> task_one B exec st txs (g i) sc i"
  by (simp add: round_one_def)

text \<open>A step at task \<open>i\<close> in the first round only has to be checked at \<open>i\<close>.\<close>

lemma round_one_step:
  assumes "round_one B K exec st txs g sc" "sane B K txs sc'" "step_at B K i sc sc'" "task_one B exec st txs x sc' i"
  shows "round_one B K exec st txs (g(i := x)) sc'"
proof -
  have "task_one B exec st txs (g j) sc' j = task_one B exec st txs (g j) sc j" if "j \<noteq> i" for j
    using assms(3) that by (simp add: task_one_def step_at_def)
  with assms show ?thesis by (auto simp: round_one_def step_at_def)
qed

lemma pfold_each:
  assumes "distinct xs"
    and "\<And>x s g. x \<in> set xs \<Longrightarrow> I g s \<Longrightarrow> g x = a \<Longrightarrow> \<exists>s'. f x s = Inr s' \<and> I (g(x := b)) s'"
    and "I g s" "\<And>x. x \<in> set xs \<Longrightarrow> g x = a"
  shows "\<exists>s'. pfold f xs s = Inr s' \<and> I (\<lambda>x. if x \<in> set xs then b else g x) s'"
  using assms
proof (induction xs arbitrary: g s)
  case Nil
  then show ?case by simp
next
  case (Cons x xs)
  have "g x = a" using Cons.prems(4) by simp
  then obtain t where t: "f x s = Inr t" "I (g(x := b)) t"
    using Cons.prems(2) [OF list.set_intros(1) Cons.prems(3)] by blast
  have "\<exists>s'. pfold f xs t = Inr s' \<and> I (\<lambda>y. if y \<in> set xs then b else (g(x := b)) y) s'"
    using Cons.prems by (intro Cons.IH [OF _ _ t(2)]) auto
  moreover have "(\<lambda>y. if y \<in> set xs then b else (g(x := b)) y) = (\<lambda>y. if y \<in> set (x # xs) then b else g y)"
    by auto
  ultimately show ?case using t(1) by simp
qed

context deterministic_delivery
begin

lemma round_one_estimates:
  assumes "round_one B K exec st txs g sc" "Store_GetLatestBeforeIndex B (store_of sc) j k = Some it"
  shows "\<not> vi_estimate it"
proof -
  have col: "column B (store_of sc) (vi_index it) k = Some it"
    using assms(2) by (simp add: store_latest_before_Some)
  then have "0 \<le> vi_index it" "vi_index it < int (length txs)"
    using assms(1) by (auto simp: round_one_def sane_def store_ok_def)
  then obtain i where i: "vi_index it = int i" "i < length txs" by (metis nonneg_int_cases of_nat_less_iff)
  with round_one_task [OF assms(1) i(2)] col show ?thesis
    by (auto simp: task_one_def written_def NewValueItem_def NewDeletedItem_def split: if_splits)
qed

lemma round_one_execute:
  assumes one: "round_one B K exec st txs g sc" and i: "i < length txs" "g i = statusPending"
    and ind: "independent exec st txs"
    and calm: "\<And>st'. state_values K st' = state_values K st \<Longrightarrow> \<not> destroys st' (txs ! i)"
  shows "\<exists>sc'. executeTask B K deliver i sc = Inr sc' \<and> round_one B K exec st txs (g(i := statusExecuted)) sc'"
proof -
  have sane: "sane B K txs sc" and sync: "\<not> sc_synchronous sc" and vals: "state_values K (sc_state sc) = state_values K st"
    using one by (simp_all add: round_one_def)
  have inc: "t_Incarnation (task_at sc i) = 0" using round_one_task [OF one i(1)] by (simp add: task_one_def)
  from executeTask_ok [OF sane i(1)] sync obtain sc' where
    sc': "executeTask B K deliver i sc = Inr sc'" "sane B K txs sc'" "step_at B K i sc sc'" "ran B exec destroys i sc sc'"
    by blast
  have tx: "t_Tx (task_at sc i) = txs ! i" using sane_task_ok [OF sane i(1)] by (simp add: task_ok_def)
  obtain rs ws where ex: "exec st (txs ! i) = (True, rs, ws)" using independent_succeeds [OF ind i(1)] .
  have "exec (sc_state sc) (txs ! i) = (True, rs, ws)"
    using vals by (intro exec_deterministic [OF ex]) simp
  moreover have "\<not> destroys (sc_state sc) (txs ! i)" using calm vals by simp
  moreover have "\<not> abort_target B (store_of sc) (int i) False x" for x
    using round_one_estimates [OF one] by (auto simp: abort_target_def)
  ultimately have new: "t_Status (task_at sc' i) = statusExecuted" "t_Response (task_at sc' i) \<noteq> None"
    "column B (store_of sc') (int i) = (\<lambda>k. map_option (written (int i) 0) (fmlookup ws k))"
    "fmlookup (txReadSets (store_of sc')) (int i) = Some rs" "t_Incarnation (task_at sc' i) = 0"
    using sc'(4) inc by (auto simp: ran_def tx Let_def)
  have "round_one B K exec st txs (g(i := statusExecuted)) sc'"
    using new ex by (intro round_one_step [OF one sc'(2,3)]) (simp add: task_one_def)
  with sc'(1) show ?thesis by blast
qed

lemma round_one_valid:
  assumes one: "round_one B K exec st txs g sc" and i: "i < length txs"
    and ran: "\<And>j. j < length txs \<Longrightarrow> g j \<noteq> statusPending" and ind: "independent exec st txs"
  shows "fst (ValidateTransactionState B K (store_of sc) (int i))"
proof -
  have sane: "sane B K txs sc" and vals: "state_values K (sc_state sc) = state_values K st"
    using one by (simp_all add: round_one_def)
  obtain rs ws where ex: "exec st (txs ! i) = (True, rs, ws)" using independent_succeeds [OF ind i] .
  have "read_valid B K (store_of sc) (int i) rs k" for k
  proof (cases "fmlookup rs k")
    case None
    then show ?thesis by (simp add: read_valid_def)
  next
    case (Some vs)
    have "column B (store_of sc) j k = None" if "j < int i" for j
    proof (cases "0 \<le> j")
      case True
      with that obtain j' where j: "j = int j'" "j' < i" by (metis nonneg_int_cases of_nat_less_iff)
      with round_one_task [OF one, of j'] ran [of j'] i independent_disjoint [OF ind i j(2) ex Some]
      show ?thesis by (simp add: task_one_def)
    next
      case False
      then show ?thesis using sane by (force simp: sane_def store_ok_def)
    qed
    then have "Store_GetLatestBeforeIndex B (store_of sc) (int i) k = None"
      by (simp add: store_latest_before_None)
    moreover have "vs = [state_values K st k]" using exec_reads [OF ex Some] by simp
    moreover have "parentStore (store_of sc) = sc_state sc" using sane by (simp add: sane_def)
    ultimately show ?thesis
      using Some vals by (simp add: read_valid_def store_view_def state_values_def fun_eq_iff)
  qed
  moreover have "fmlookup (txReadSets (store_of sc)) (int i) = Some rs"
    using round_one_task [OF one i] ran [OF i] ex by (simp add: task_one_def)
  ultimately show ?thesis by (auto simp: ValidateTransactionState_eq)
qed

lemma round_one_validate:
  assumes one: "round_one B K exec st txs g sc" and i: "i < length txs" "g i = statusExecuted"
    and ran: "\<And>j. j < length txs \<Longrightarrow> g j \<noteq> statusPending" and ind: "independent exec st txs"
  shows "\<exists>sc'. validateOne B K i (sc, res) = Inr (sc', res) \<and> round_one B K exec st txs (g(i := statusValidated)) sc'"
proof -
  have sane: "sane B K txs sc" and st: "t_Status (task_at sc i) = statusExecuted"
    using one round_one_task [OF one i(1)] i(2) by (simp_all add: round_one_def task_one_def)
  obtain cs where v: "ValidateTransactionState B K (store_of sc) (int i) = (True, cs)"
    using round_one_valid [OF one i(1) ran ind] by (metis prod.collapse)
  let ?sc = "updTask i (SetStatus statusValidated) sc"
  have len: "i < length (sc_allTasks sc)" using sane_length [OF sane] i(1) by simp
  have "validateOne B K i (sc, res) = Inr (?sc, res)"
    using shouldRerun_eq [OF value_tree_axioms sane i(1) v] st by (simp add: validateOne_def validateTask_def)
  moreover have "sane B K txs ?sc"
    using sane_task_ok [OF sane i(1)] by (intro sane_updTask sane i) (simp add: task_ok_def)
  then have "round_one B K exec st txs (g(i := statusValidated)) ?sc"
    using round_one_task [OF one i(1)] i(2) len
    by (intro round_one_step [OF one _ step_at_updTask]) (simp_all add: task_one_def task_at_updTask)
  ultimately show ?thesis by blast
qed

lemma round_one_first:
  assumes "round_one B K exec st txs g sc" "g 0 \<noteq> statusValidated" "txs \<noteq> []"
  shows "findFirstNonValidated sc = (0, True) \<and> \<not> allValidated (sc_allTasks sc) \<and>
    length (sc_allTasks sc) = length txs \<and> \<not> sc_synchronous sc"
proof -
  have len: "length (sc_allTasks sc) = length txs" using assms(1) sane_length unfolding round_one_def by blast
  have st: "t_Status (task_at sc 0) \<noteq> statusValidated"
    using round_one_task [OF assms(1), of 0] assms(2,3) by (simp add: task_one_def)
  then have nv: "\<not> allValidated (sc_allTasks sc)" using len assms(3) by (auto simp: allValidated_nth)
  then obtain p where p: "findFirstNonValidated sc = (p, True)"
    "\<And>i. i < p \<Longrightarrow> t_Status (task_at sc i) = statusValidated" by (rule findFirstNonValidated_Some) blast
  have "p = 0" using p(2) [of 0] st by blast
  with nv p(1) len assms(1) show ?thesis by (simp add: round_one_def)
qed

lemma round_one_executeAll:
  assumes one: "round_one B K exec st txs (\<lambda>_. statusPending) sc" and ind: "independent exec st txs"
    and calm: "\<And>st' i. state_values K st' = state_values K st \<Longrightarrow> i < length txs \<Longrightarrow> \<not> destroys st' (txs ! i)"
    and perm: "mset (order [0..<length txs]) = mset [0..<length txs]" and n: "txs \<noteq> []"
  shows "\<exists>sc'. executeAll B K deliver order [0..<length txs] sc = Inr sc' \<and>
    round_one B K exec st txs (\<lambda>i. if i < length txs then statusExecuted else statusPending) sc'"
proof -
  let ?is = "order [0..<length txs]"
  have "\<exists>sc'. pfold (executeTask B K deliver) ?is sc = Inr sc' \<and>
      round_one B K exec st txs (\<lambda>i. if i \<in> set ?is then statusExecuted else statusPending) sc'"
  proof (rule pfold_each [where a = statusPending and I = "round_one B K exec st txs"])
    show "\<exists>sc'. executeTask B K deliver i sc1 = Inr sc' \<and> round_one B K exec st txs (g(i := statusExecuted)) sc'"
      if "i \<in> set ?is" "round_one B K exec st txs g sc1" "g i = statusPending" for i sc1 g
      using that(1) upt_perm [OF perm] calm by (intro round_one_execute [OF that(2) _ that(3) ind]) auto
  qed (use upt_perm [OF perm] one in auto)
  then show ?thesis
    using round_one_first [OF one] n upt_perm [OF perm] by (simp add: executeAll_def workOrder_def)
qed

lemma round_one_validateAll:
  assumes one: "round_one B K exec st txs (\<lambda>i. if i < length txs then statusExecuted else statusPending) sc"
    and ind: "independent exec st txs"
    and perm: "mset (order [0..<length txs]) = mset [0..<length txs]" and n: "txs \<noteq> []"
  shows "\<exists>sc'. validateAll B K order sc = Inr (sc', []) \<and>
    round_one B K exec st txs (\<lambda>i. if i < length txs then statusValidated else statusPending) sc'"
proof -
  let ?is = "order [0..<length txs]"
  let ?I = "\<lambda>g acc. round_one B K exec st txs g (fst acc) \<and> snd acc = [] \<and> (\<forall>j<length txs. g j \<noteq> statusPending)"
  let ?g = "\<lambda>i. if i < length txs then statusExecuted else statusPending"
  have "\<exists>acc. pfold (validateOne B K) ?is (sc, []) = Inr acc \<and>
      ?I (\<lambda>i. if i \<in> set ?is then statusValidated else ?g i) acc"
  proof (rule pfold_each [where a = statusExecuted and I = ?I])
    show "\<exists>acc'. validateOne B K i acc = Inr acc' \<and> ?I (g(i := statusValidated)) acc'"
      if i: "i \<in> set ?is" and I: "?I g acc" "g i = statusExecuted" for i acc g
    proof -
      have "i < length txs" using i upt_perm [OF perm] by simp
      from round_one_validate [OF conjunct1 [OF I(1)] this I(2) _ ind, of "[]"] I(1) show ?thesis
        by (cases acc) auto
    qed
  qed (use upt_perm [OF perm] one in auto)
  then obtain sc' where "pfold (validateOne B K) ?is (sc, []) = Inr (sc', [])"
    "round_one B K exec st txs (\<lambda>i. if i < length txs then statusValidated else ?g i) sc'"
    using upt_perm [OF perm] by auto
  moreover have "(\<lambda>i. if i < length txs then statusValidated else ?g i) =
      (\<lambda>i. if i < length txs then statusValidated else statusPending)" by auto
  ultimately show ?thesis
    using round_one_first [OF one _ n] n by (simp add: validateAll_def workOrder_def)
qed

lemma round_one_loop:
  assumes one: "round_one B K exec st txs (\<lambda>_. statusPending) sc" and ind: "independent exec st txs"
    and calm: "\<And>st' i. state_values K st' = state_values K st \<Longrightarrow> i < length txs \<Longrightarrow> \<not> destroys st' (txs ! i)"
    and perm: "\<And>r is. mset (exec_order S r is) = mset is" "\<And>r is. mset (valid_order S r is) = mset is"
  shows "\<exists>sc'. processLoop B K deliver S 0 0 [0..<length txs] sc = Inr sc' \<and>
    round_one B K exec st txs (\<lambda>i. if i < length txs then statusValidated else statusPending) sc'"
proof (cases "txs = []")
  case True
  then have "sc_allTasks sc = []" using one sane_length by (fastforce simp: round_one_def)
  with True one show ?thesis by (subst processLoop.simps) simp
next
  case False
  obtain sc1 where sc1: "executeAll B K deliver (exec_order S 0) [0..<length txs] sc = Inr sc1"
    "round_one B K exec st txs (\<lambda>i. if i < length txs then statusExecuted else statusPending) sc1"
    using round_one_executeAll [OF one ind calm, of "exec_order S 0"] perm(1) False by blast
  obtain sc2 where sc2: "validateAll B K (valid_order S 0) sc1 = Inr (sc2, [])"
    "round_one B K exec st txs (\<lambda>i. if i < length txs then statusValidated else statusPending) sc2"
    using round_one_validateAll [OF sc1(2) ind, of "valid_order S 0"] perm(2) False by blast
  have "length (sc_allTasks sc2) = length txs" using sc2(2) sane_length unfolding round_one_def by blast
  then have "allValidated (sc_allTasks sc2)"
    using round_one_task [OF sc2(2)] by (simp add: allValidated_nth task_one_def)
  then have "processLoop B K deliver S 1 0 [] sc2 = Inr sc2" by (subst processLoop.simps) simp
  then have "processLoop B K deliver S 0 0 [0..<length txs] sc = Inr sc2"
    using round_one_first [OF one _ False] sc1(1) sc2(1)
    by (subst processLoop.simps) (simp add: processRound_def maximumIterations_def)
  with sc2(2) show ?thesis by blast
qed

lemma conflict_free:
  assumes "block reqs" and ind: "independent exec st (map en_Tx reqs)"
    and calm: "\<And>st' r. state_values K st' = state_values K st \<Longrightarrow> r \<in> set reqs \<Longrightarrow> \<not> destroys st' (en_Tx r)"
    and perm: "\<And>r is. mset (exec_order S r is) = mset is" "\<And>r is. mset (valid_order S r is) = mset is"
  shows "\<exists>resp sc. ProcessAll B K deliver S reqs (NewScheduler st w) = Inr (resp, sc) \<and>
    \<not> sc_synchronous sc \<and> length (sc_allTasks sc) = length reqs \<and>
    (\<forall>i<length reqs. t_Status (task_at sc i) = statusValidated \<and> t_Incarnation (task_at sc i) = 0)"
proof -
  let ?txs = "map en_Tx reqs"
  have "round_one B K exec st ?txs (\<lambda>_. statusPending) (startState st w reqs)"
    using sane_startState [OF assms(1), of st w]
    by (auto simp: round_one_def task_one_def startState_simps task_at_startState newTask_def)
  then obtain sc1 where loop: "processLoop B K deliver S 0 0 [0..<length reqs] (startState st w reqs) = Inr sc1"
    and one: "round_one B K exec st ?txs (\<lambda>i. if i < length ?txs then statusValidated else statusPending) sc1"
    using round_one_loop [OF _ ind _ perm, of "startState st w reqs"] calm by force
  have sane: "sane B K ?txs sc1" and sync: "\<not> sc_synchronous sc1" using one by (simp_all add: round_one_def)
  from final_flush_ok [OF sane] obtain st' where
    "WriteLatestToStore B K (store_of sc1) (sc_state sc1) = Inr (sdb_Finalise K st' True False)" by blast
  then have "ProcessAll B K deliver S reqs (NewScheduler st w) =
      Inr (collectResponses (sc_allTasks sc1), shareState (sdb_Finalise K st' True False) sc1)"
    by (simp add: ProcessAll_start loop sane_withStore [OF sane])
  with round_one_task [OF one] sync sane_length [OF sane] show ?thesis by (simp add: task_one_def)
qed

end

text \<open>The facts for the program's \<open>deliverTx\<close>.\<close>

context evm
begin

lemmas evm_starved = selfdestruct_starved

end

context deterministic_evm
begin

lemmas evm_conflict_free = conflict_free

end

end
