(* ===== verification/Hook_Steps.thy ===== *)
theory Hook_Steps
  imports Tracer
begin

text \<open>
  The hooks of the tracer, access by access. A hook may consult the multi-version store several times
  (\<open>CaptureStart\<close> reads up to three balances and a nonce), and other transactions may publish between
  two of these looks. A \<open>tracer_op\<close> is a part of a hook that consults the store at most once; which
  parts a hook has depends on the message and the gas price, but not on what it reads. Carried out
  over one store the parts are the hook.
\<close>

datatype tracer_op =
    Touch StorageKey
  | Debit address int
  | Bump address
  | Put StorageKey hash
  | SelfAbort

definition tracerOp ::
  "'t vtree \<Rightarrow> ('s, 'tx) kaia \<Rightarrow> ('s, 't) Store \<Rightarrow> tracer_op \<Rightarrow> 'tx AccessListTracer \<Rightarrow> go_panic + 'tx AccessListTracer" where
  "tracerOp B K s op a =
     (case op of
        Touch key \<Rightarrow> Tracer_touch B K s key a
      | Debit address value \<Rightarrow> updateAndSetBalance B K s address value a
      | Bump address \<Rightarrow> updateAndSetNonce B K s address a
      | Put key value \<Rightarrow> Inr (Tracer_Set a key value)
      | SelfAbort \<Rightarrow> WriteAbort a
          \<lparr>ab_DependentTxIdx = tr_transactionIndex a, ab_Err = ErrNeedSequentialExecution\<rparr>)"

text \<open>The parts of \<open>CaptureStart\<close>, with the gas price it sets, of \<open>CaptureState\<close> and of \<open>CaptureTxEnd\<close>.\<close>

definition startOps ::
  "('s, 'tx) kaia \<Rightarrow> 's vm_EVM \<Rightarrow> address \<Rightarrow> address \<Rightarrow> bool \<Rightarrow> int \<Rightarrow> 'tx AccessListTracer \<Rightarrow>
   tracer_op list \<times> 'tx AccessListTracer" where
  "startOps K env from to create value a0 =
     (let a = (if tr_gasPrice a0 = None then a0\<lparr>tr_gasPrice := Some (evm_GasPrice env)\<rparr> else a0);
          feePayer = msg_ValidatedFeePayer K (tr_msg a);
          sender = msg_ValidatedSender K (tr_msg a);
          (feeRatio, isRatioTx) = msg_FeeRatio K (tr_msg a);
          gasFee = uint (msg_Gas K (tr_msg a)) * the (tr_gasPrice a);
          isContractSender = sdb_GetCodeSize K (evm_StateDB env) sender > 0 in
      ((if isRatioTx then case ty_CalcFeeWithRatio K feeRatio gasFee of (feePayerFee, senderFee) \<Rightarrow>
          [Debit feePayer feePayerFee, Debit sender senderFee] else [Debit feePayer gasFee]) @
       (if isContractSender then (if create then [Bump sender] else []) else [Bump sender]) @
       [Debit from value, Debit to (- value)], a))"

definition stateOps :: "('s, 'tx) kaia \<Rightarrow> vm_OpCode \<Rightarrow> vm_ScopeContext \<Rightarrow> tracer_op list" where
  "stateOps K op scope =
     (let stackData = scope_Stack scope; stackLen = length stackData;
          top = stackData ! (stackLen - 1); addr = u256_Bytes20 K top in
      case op of
        SLOAD \<Rightarrow> if stackLen \<ge> 1 then [Touch (ToStorageKey K (scope_Address scope) (u256_Bytes32 K top))] else []
      | SSTORE \<Rightarrow>
          if stackLen \<ge> 2 then
            [Put (ToStorageKey K (scope_Address scope) (u256_Bytes32 K top))
               (cm_BytesToHash K (u256_Bytes K (stackData ! (stackLen - 2))))]
          else []
      | EXTCODECOPY \<Rightarrow> if stackLen \<ge> 1 then [Touch (ToStorageKey K addr (CodeCopyKey K))] else []
      | EXTCODEHASH \<Rightarrow> if stackLen \<ge> 1 then [Touch (ToStorageKey K addr (CodeHashKey K))] else []
      | EXTCODESIZE \<Rightarrow> if stackLen \<ge> 1 then [Touch (ToStorageKey K addr (CodeSizeKey K))] else []
      | BALANCE \<Rightarrow> if stackLen \<ge> 1 then [Touch (ToStorageKey K addr (BalanceKey K))] else []
      | SELFDESTRUCT \<Rightarrow> [SelfAbort]
      | OtherOpCode _ \<Rightarrow> []
      | _ \<Rightarrow>
          if stackLen \<ge> 1 \<and> scope_Value scope > 0 \<and> scope_CallerAddress scope \<noteq> addr then
            [Debit (scope_CallerAddress scope) (scope_Value scope), Debit addr (- scope_Value scope)]
          else [])"

definition endOps :: "('s, 'tx) kaia \<Rightarrow> 64 word \<Rightarrow> 'tx AccessListTracer \<Rightarrow> go_panic + tracer_op list" where
  "endOps K restGas a =
     (case tr_gasPrice a of
        None \<Rightarrow> Inl NilDereference
      | Some gasPrice \<Rightarrow>
          let remaining = uint restGas * gasPrice;
              validatedFeePayer = msg_ValidatedFeePayer K (tr_msg a);
              validatedSender = msg_ValidatedSender K (tr_msg a);
              (feeRatio, isRatioTx) = msg_FeeRatio K (tr_msg a) in
          Inr (if isRatioTx then case ty_CalcFeeWithRatio K feeRatio remaining of (feePayer, feeSender) \<Rightarrow>
                 [Debit validatedFeePayer (- feePayer), Debit validatedSender (- feeSender)]
               else [Debit validatedFeePayer (- remaining)]))"

fun hookOps :: "('s, 'tx) kaia \<Rightarrow> 's hook \<Rightarrow> 'tx AccessListTracer \<Rightarrow> go_panic + tracer_op list \<times> 'tx AccessListTracer" where
  "hookOps K (HookStart env from to create value) a = Inr (startOps K env from to create value a)"
| "hookOps K (HookState op scope) a = Inr (stateOps K op scope, a)"
| "hookOps K (HookTxEnd restGas) a = pbind (endOps K restGas a) (\<lambda>ops. Inr (ops, a))"
| "hookOps K HookEmpty a = Inr ([], a)"

text \<open>Over one store, the parts are the hook.\<close>

lemma pfold_fun: "pfold f [] = Inr" "pfold f (x # xs) = (\<lambda>a. pbind (f x a) (pfold f xs))"
  by (simp_all add: fun_eq_iff)

lemma tracerOp_fun:
  "tracerOp B K s (Touch key) = Tracer_touch B K s key"
  "tracerOp B K s (Debit address value) = updateAndSetBalance B K s address value"
  "tracerOp B K s (Bump address) = updateAndSetNonce B K s address"
  by (simp_all add: fun_eq_iff tracerOp_def)

lemma pbind_Inr [simp]: "pbind r Inr = r"
  by (cases r) simp_all

lemma CaptureStart_ops:
  "CaptureStart B K s env from to create value a =
   (case startOps K env from to create value a of (ops, a') \<Rightarrow> pfold (tracerOp B K s) ops a')"
  by (simp add: CaptureStart_def startOps_def handleRatioTransaction_def handleRegularTransaction_def Let_def split_beta
      pfold_fun tracerOp_fun pbind_assoc)

lemma CaptureState_ops: "CaptureState B K s op scope a = pfold (tracerOp B K s) (stateOps K op scope) a"
  by (cases op) (simp_all add: CaptureState_def stateOps_def CaptureCall_def Let_def pfold_fun tracerOp_fun,
    simp_all add: tracerOp_def)

lemma CaptureTxEnd_ops: "CaptureTxEnd B K s g a = pbind (endOps K g a) (\<lambda>ops. pfold (tracerOp B K s) ops a)"
  by (simp add: CaptureTxEnd_def endOps_def Let_def split_beta pfold_fun tracerOp_fun split: option.split)

lemma run_hook_ops:
  "run_hook B K s h a = pbind (hookOps K h a) (\<lambda>(ops, a'). pfold (tracerOp B K s) ops a')"
  by (cases h) (simp_all add: CaptureStart_ops CaptureState_ops CaptureTxEnd_ops split_beta pbind_assoc)

text \<open>The parts keep the simulation between tracers over stores with equal parent values, and report like hooks.\<close>

lemma hookOps_erase: "hookOps K h (erase a) = map_sum id (map_prod id erase) (hookOps K h a)"
  by (cases h) (auto simp: startOps_def endOps_def Let_def split_beta pbind_def split: option.split)

lemma hookOps_frame:
  assumes "hookOps K h a = Inr (ops, a')"
  shows "tr_abortedChannel a' = tr_abortedChannel a" "tr_transactionIndex a' = tr_transactionIndex a"
  using assms by (cases h; auto simp: startOps_def Let_def split_beta pbind_eq_Inr)+

lemma sim_tracerOp [sim_intros]:
  "state_values K (parentStore s) = state_values K (parentStore s') \<Longrightarrow> open_chan a \<Longrightarrow>
   sim (tracerOp B K s op a) (tracerOp B K s' op (erase a))"
  by (cases op) (auto simp: tracerOp_def intro!: sim_intros)

lemma signals_tracerOp:
  assumes "warns B s i Q" "chan_sat Q a" "tr_transactionIndex a = i" "accepts Q (self_abort i)"
  shows "signals Q i (tracerOp B K s op a)"
  using assms by (cases op) (auto simp: tracerOp_def self_abort_def intro!: signals_intros)

end
