(* ===== verification/Exec_Phase.thy ===== *)
theory Exec_Phase
  imports Liveness Hook_Steps
begin

text \<open>
  The execution phase of a round with workers that interleave inside the tasks. The execution of a
  task is cut into its start (the tracer, the copy of the state, the transaction context), the parts
  of every hook the EVM calls, each of which looks into the multi-version store at most once, and its
  end, here still one piece. Under every interleaving of these pieces the invariant of the rounds is
  kept, whatever versions of transactions of the block the looks find.
\<close>

section \<open>The pieces of a task\<close>

text \<open>
  A transaction the EVM is running: what is left of the hook it is in, the hooks it has still to call,
  and how it will end.
\<close>

record ('s, 'rc, 'tc) inflight =
  fl_ops :: "tracer_op list"
  fl_hooks :: "'s hook list"
  fl_snap :: int
  fl_state :: 's
  fl_gas :: "64 word"
  fl_out :: "go_error + 'rc \<times> 'tc"

definition beginTask ::
  "('s, 'tx) kaia \<Rightarrow> ('s, 'tx, 'rc, 'tc, 'c, 'h) blockchain \<Rightarrow> 'c \<Rightarrow> 'h \<Rightarrow> nat \<Rightarrow>
   ('s, 't, 'tx, 'rc, 'tc) scheduler \<Rightarrow> go_panic + ('s, 'rc, 'tc) inflight \<times> ('s, 't, 'tx, 'rc, 'tc) scheduler" where
  "beginTask K bc config header i sc =
     pbind (prepareTask i sc) (\<lambda>sc.
       let copy = sdb_Copy K (sc_state sc);
           sc = updTask i (\<lambda>t. t\<lparr>t_State := Some copy\<rparr>) sc;
           task = task_at sc i in
       case sdb_Snapshot K copy of (st, snap) \<Rightarrow>
       case bc_ApplyTransaction bc config (fst (bc_Author bc header)) st header (t_Tx task) (t_UsedGas task) of
         (hooks, st', gas, out) \<Rightarrow>
         Inr (\<lparr>fl_ops = [], fl_hooks = hooks, fl_snap = snap, fl_state = st', fl_gas = gas, fl_out = out\<rparr>,
              shareState (sdb_SetTxContext K (sc_state sc) (tx_Hash bc (t_Tx task)) (hd_Hash bc header)
                (t_AbsoluteIndex task)) sc))"

definition hookTask ::
  "'t vtree \<Rightarrow> ('s, 'tx) kaia \<Rightarrow> nat \<Rightarrow> 's hook \<Rightarrow> ('s, 't, 'tx, 'rc, 'tc) scheduler \<Rightarrow>
   go_panic + ('s, 't, 'tx, 'rc, 'tc) scheduler" where
  "hookTask B K i h sc =
     (case t_VersionStores (task_at sc i) of
        None \<Rightarrow> Inl NilDereference
      | Some a \<Rightarrow> withStore sc (\<lambda>s. pbind (run_hook B K s h a) (\<lambda>a'.
          Inr (updTask i (\<lambda>t. t\<lparr>t_VersionStores := Some a'\<rparr>) sc))))"

definition openHook ::
  "('s, 'tx) kaia \<Rightarrow> nat \<Rightarrow> 's hook \<Rightarrow> ('s, 't, 'tx, 'rc, 'tc) scheduler \<Rightarrow>
   go_panic + tracer_op list \<times> ('s, 't, 'tx, 'rc, 'tc) scheduler" where
  "openHook K i h sc =
     (case t_VersionStores (task_at sc i) of
        None \<Rightarrow> Inl NilDereference
      | Some a \<Rightarrow> pbind (hookOps K h a) (\<lambda>(ops, a').
          Inr (ops, updTask i (\<lambda>t. t\<lparr>t_VersionStores := Some a'\<rparr>) sc)))"

definition opTask ::
  "'t vtree \<Rightarrow> ('s, 'tx) kaia \<Rightarrow> nat \<Rightarrow> tracer_op \<Rightarrow> ('s, 't, 'tx, 'rc, 'tc) scheduler \<Rightarrow>
   go_panic + ('s, 't, 'tx, 'rc, 'tc) scheduler" where
  "opTask B K i op sc =
     (case t_VersionStores (task_at sc i) of
        None \<Rightarrow> Inl NilDereference
      | Some a \<Rightarrow> withStore sc (\<lambda>s. pbind (tracerOp B K s op a) (\<lambda>a'.
          Inr (updTask i (\<lambda>t. t\<lparr>t_VersionStores := Some a'\<rparr>) sc))))"

definition endTask ::
  "'t vtree \<Rightarrow> ('s, 'tx) kaia \<Rightarrow> ('s, 'rc, 'tc) inflight \<Rightarrow> nat \<Rightarrow> ('s, 't, 'tx, 'rc, 'tc) scheduler \<Rightarrow>
   go_panic + ('s, 't, 'tx, 'rc, 'tc) scheduler" where
  "endTask B K fl i sc =
     (let sc = updTask i (\<lambda>t. t\<lparr>t_UsedGas := fl_gas fl, t_State := Some (if isl (fl_out fl)
                 then sdb_RevertToSnapshot K (fl_state fl) (fl_snap fl) else fl_state fl)\<rparr>) sc in
      case fl_out fl of Inl err \<Rightarrow> Inr sc | Inr rt \<Rightarrow> finishTask B rt i sc)"

lemma updTask_updTask [simp]:
  "i < length (sc_allTasks sc) \<Longrightarrow> updTask i f (updTask i g sc) = updTask i (\<lambda>t. f (g t)) sc"
  by (simp add: updTask_def task_at_def)

lemma updTask_same: "i < length (sc_allTasks sc) \<Longrightarrow> f (task_at sc i) = g (task_at sc i) \<Longrightarrow> updTask i f sc = updTask i g sc"
  by (simp add: updTask_def)

lemma updTask_id: "i < length (sc_allTasks sc) \<Longrightarrow> f (task_at sc i) = task_at sc i \<Longrightarrow> updTask i f sc = sc"
  by (simp add: updTask_def task_at_def)

lemma hooks_of_task:
  assumes "sc_multiVersionStores sc = Some s" "i < length (sc_allTasks sc)" "t_VersionStores (task_at sc i) = Some a"
  shows "pfold (hookTask B K i) hs sc =
    pbind (run_hooks B K s hs a) (\<lambda>a'. Inr (updTask i (\<lambda>t. t\<lparr>t_VersionStores := Some a'\<rparr>) sc))"
  using assms
proof (induction hs arbitrary: sc a)
  case Nil
  then show ?case by (simp add: run_hooks_def updTask_id)
next
  case (Cons h hs)
  show ?case
  proof (cases "run_hook B K s h a")
    case (Inl e)
    with Cons.prems show ?thesis by (simp add: run_hooks_def hookTask_def withStore_def)
  next
    case (Inr a1)
    with Cons.prems Cons.IH [of "updTask i (\<lambda>t. t\<lparr>t_VersionStores := Some a1\<rparr>) sc" a1] show ?thesis
      by (simp add: run_hooks_def hookTask_def withStore_def task_at_updTask)
  qed
qed

lemma shareState_updTask: "shareState st (updTask i f sc) = updTask i f (shareState st sc)"
  by (simp add: shareState_def updTask_def task_at_def)

text \<open>Taken one after the other, the pieces are the execution of a task with the processor's \<open>deliverTx\<close>.\<close>

lemma runTask_pieces:
  assumes "sc_multiVersionStores sc = Some s" "parentStore s = sc_state sc" "i < length (sc_allTasks sc)"
  shows "runTask B K (deliverTx B K bc config header) i sc =
    pbind (beginTask K bc config header i sc) (\<lambda>(fl, sc).
      pbind (pfold (hookTask B K i) (fl_hooks fl) sc) (endTask B K fl i))"
proof -
  obtain st snap where snap: "sdb_Snapshot K (sdb_Copy K (sc_state sc)) = (st, snap)" by fastforce
  let ?t = "task_at sc i"
  obtain hooks st' gas out where ap: "bc_ApplyTransaction bc config (fst (bc_Author bc header)) st header
      (t_Tx ?t) (t_UsedGas ?t) = (hooks, st', gas, out)" by (metis prod_cases4)
  let ?shared = "sdb_SetTxContext K (sc_state sc) (tx_Hash bc (t_Tx ?t)) (hd_Hash bc header) (t_AbsoluteIndex ?t)"
  let ?a = "VersionedIndexedStore (t_Tx ?t) (t_AbsoluteIndex ?t) (t_Incarnation ?t) (Some (make_chan 1))"
  let ?f = "\<lambda>t. t\<lparr>t_VersionStores := Some (VersionedIndexedStore (t_Tx t) (t_AbsoluteIndex t) (t_Incarnation t)
      (Some (make_chan 1))), t_State := Some (sdb_Copy K (sc_state sc))\<rparr>"
  let ?fl = "\<lparr>fl_ops = [], fl_hooks = hooks, fl_snap = snap, fl_state = st', fl_gas = gas, fl_out = out\<rparr>"
  let ?s = "s\<lparr>parentStore := ?shared\<rparr>" and ?sc = "shareState ?shared (updTask i ?f sc)"
  have b: "beginTask K bc config header i sc = Inr (?fl, ?sc)"
    using assms by (simp add: beginTask_def prepareTask_def withStore_def Let_def task_at_updTask snap ap)
  have h: "pfold (hookTask B K i) hooks ?sc =
      pbind (run_hooks B K ?s hooks ?a) (\<lambda>a'. Inr (updTask i (\<lambda>t. t\<lparr>t_VersionStores := Some a'\<rparr>) ?sc))"
    using assms by (intro hooks_of_task) (simp_all add: task_at_updTask)
  show ?thesis
  proof (cases "run_hooks B K ?s hooks ?a")
    case (Inl e)
    then show ?thesis
      using assms b h snap ap by (simp add: runTask_def deliverTx_def prepareTask_def withStore_def Let_def task_at_updTask)
  next
    case (Inr a')
    show ?thesis
    proof (cases out)
      case (Inl err)
      with Inr show ?thesis
        using assms b h snap ap
        by (simp add: runTask_def deliverTx_def prepareTask_def withStore_def Let_def task_at_updTask endTask_def
            shareState_updTask) (rule updTask_same, simp_all)
    next
      case (Inr rt)
      with \<open>run_hooks B K ?s hooks ?a = Inr a'\<close> show ?thesis
        using assms b h snap ap
        by (simp add: runTask_def deliverTx_def prepareTask_def withStore_def Let_def task_at_updTask endTask_def
            shareState_updTask) (rule arg_cong [where f = "finishTask B rt i"], rule updTask_same, simp_all)
    qed
  qed
qed

section \<open>Interleaved execution\<close>

text \<open>
  The execution phase of a round: the scheduler, the tasks that are running and the tasks that wait
  for a worker.
\<close>

type_synonym ('s, 't, 'tx, 'rc, 'tc) phase =
  "('s, 't, 'tx, 'rc, 'tc) scheduler \<times> (nat \<rightharpoonup> ('s, 'rc, 'tc) inflight) \<times> nat set"

text \<open>
  What is known of a running task: its tracer is open, reports for the task, and will have, once the
  remaining hooks have been called, the reads and writes of the transaction on a state with the
  values \<open>V\<close> of the shared state.
\<close>

definition running_ok ::
  "'t vtree \<Rightarrow> ('s, 'tx) kaia \<Rightarrow> ('s, 'tx, 'rc, 'tc, 'c, 'h) blockchain \<Rightarrow> 'c \<Rightarrow> 'h \<Rightarrow> (StorageKey \<Rightarrow> hash) \<Rightarrow>
   'tx list \<Rightarrow> ('s, 't, 'tx, 'rc, 'tc) scheduler \<Rightarrow> nat \<Rightarrow> ('s, 'rc, 'tc) inflight \<Rightarrow> bool" where
  "running_ok B K bc config header V txs sc i fl \<longleftrightarrow>
     (\<exists>a c st b. t_VersionStores (task_at sc i) = Some a \<and> tr_abortedChannel a = Some c \<and> \<not> ch_closed c \<and>
        (\<forall>x\<in>set (ch_buf c). 0 \<le> ab_DependentTxIdx x \<and> ab_DependentTxIdx x < int (length txs)) \<and>
        tr_transactionIndex a = int i \<and> state_values K st = V \<and>
        pbind (pfold (tracerOp B K (NewMultiVersionStore st)) (fl_ops fl) (erase a))
          (run_hooks B K (NewMultiVersionStore st) (fl_hooks fl)) = Inr b \<and>
        traced_effects B K bc config header st (txs ! i) = (\<not> isl (fl_out fl), tr_readset b, tr_writeset b))"

lemma running_okI:
  assumes "t_VersionStores (task_at sc i) = Some a" "tr_abortedChannel a = Some c" "\<not> ch_closed c"
    and "\<forall>x\<in>set (ch_buf c). 0 \<le> ab_DependentTxIdx x \<and> ab_DependentTxIdx x < int (length txs)"
    and "tr_transactionIndex a = int i" "state_values K st = V"
    and "pbind (pfold (tracerOp B K (NewMultiVersionStore st)) (fl_ops fl) (erase a))
      (run_hooks B K (NewMultiVersionStore st) (fl_hooks fl)) = Inr b"
    and "traced_effects B K bc config header st (txs ! i) = (\<not> isl (fl_out fl), tr_readset b, tr_writeset b)"
  shows "running_ok B K bc config header V txs sc i fl"
  using assms unfolding running_ok_def by blast

definition phase_inv ::
  "'t vtree \<Rightarrow> ('s, 'tx) kaia \<Rightarrow> ('s, 'tx, 'rc, 'tc, 'c, 'h) blockchain \<Rightarrow> 'c \<Rightarrow> 'h \<Rightarrow> (StorageKey \<Rightarrow> hash) \<Rightarrow>
   (StorageKey \<Rightarrow> hash) \<Rightarrow> 'tx list \<Rightarrow> nat \<Rightarrow> ('s, 't, 'tx, 'rc, 'tc) phase \<Rightarrow> bool" where
  "phase_inv B K bc config header V0 V txs L ph \<longleftrightarrow>
     (case ph of (sc, R, T) \<Rightarrow>
      round_inv B K (traced_effects B K bc config header) V0 txs L sc \<and> prefix_settled B V0 (length txs) sc \<and>
      state_values K (sc_state sc) = V \<and> dom R \<inter> T = {} \<and>
      (\<forall>i<L. validated sc i) \<and> (\<forall>i\<in>dom R \<union> T. i < length txs \<and> L \<le> i \<and> \<not> validated sc i) \<and>
      (\<forall>i fl. R i = Some fl \<longrightarrow> running_ok B K bc config header V txs sc i fl))"

text \<open>
  A hook may see any store over the shared state that holds versions of transactions of the block
  only: what it sees there changes at most the abort it reports.
\<close>

definition visible :: "'t vtree \<Rightarrow> nat \<Rightarrow> ('s, 't) Store \<Rightarrow> bool" where
  "visible B n s \<longleftrightarrow> (\<forall>i k it. column B s i k = Some it \<longrightarrow> 0 \<le> i \<and> i < int n)"

lemma store_ok_visible: "store_ok B K n s \<Longrightarrow> visible B n s"
  by (auto simp: store_ok_def visible_def)

context deterministic_evm
begin

text \<open>A step that leaves the outcome of a task and its row alone keeps what is known of it.\<close>

lemma coherent_kept:
  assumes "round_inv B K exec V0 txs L sc" "i < length txs" "t_Status (task_at sc' i) = statusExecuted"
    and "t_Status (task_at sc' i) = t_Status (task_at sc i)" "t_Tx (task_at sc' i) = t_Tx (task_at sc i)"
      "t_Response (task_at sc' i) = t_Response (task_at sc i)"
    and "column B (store_of sc') = column B (store_of sc)" "txReadSets (store_of sc') = txReadSets (store_of sc)"
  shows "coherent B exec sc' i"
proof -
  have "coherent B exec sc i" using assms(1-4) by (simp add: round_inv_def)
  with assms(5-8) show ?thesis by (simp add: coherent_def)
qed

text \<open>A step at task \<open>i\<close> that keeps the invariant of the rounds only has to be checked at \<open>i\<close>.\<close>

lemma phase_step:
  assumes inv: "phase_inv B K bc config header V0 V txs L (sc, R, T)" and i: "i \<in> dom R \<union> T"
    and step: "sane B K txs sc'" "step_at B K i sc sc'" and nv: "\<not> validated sc' i"
    and coh: "t_Status (task_at sc' i) = statusExecuted \<Longrightarrow> coherent B (traced_effects B K bc config header) sc' i"
    and R': "\<And>j. j \<noteq> i \<Longrightarrow> R' j = R j" and run: "\<And>fl. R' i = Some fl \<Longrightarrow> running_ok B K bc config header V txs sc' i fl"
    and T': "T' = T - (if R' i = None then {} else {i})"
  shows "phase_inv B K bc config header V0 V txs L (sc', R', T')"
proof -
  have r: "round_inv B K (traced_effects B K bc config header) V0 txs L sc" "prefix_settled B V0 (length txs) sc"
    and il: "i < length txs" "L \<le> i" using inv i by (auto simp: phase_inv_def)
  have others: "task_at sc' j = task_at sc j" if "j \<noteq> i" for j using step(2) that by (simp add: step_at_def)
  have sub: "j \<in> dom R \<union> T" if "j \<in> dom R' \<union> T'" for j
    using that i R' [of j] unfolding T' by (cases "j = i") (auto simp: domIff simp del: not_None_eq split: if_splits)
  have "j < length txs \<and> L \<le> j \<and> \<not> validated sc' j" if "j \<in> dom R' \<union> T'" for j
    using sub [OF that] inv nv others [of j] by (cases "j = i") (auto simp: phase_inv_def)
  moreover have "running_ok B K bc config header V txs sc' j fl" if "R' j = Some fl" for j fl
  proof (cases "j = i")
    case True
    with that run show ?thesis by simp
  next
    case False
    with that R' inv have "running_ok B K bc config header V txs sc j fl" by (simp add: phase_inv_def)
    with others [OF False] show ?thesis by (simp add: running_ok_def)
  qed
  moreover have "validated sc' j" if "j < L" for j using that inv il(2) others [of j] by (auto simp: phase_inv_def)
  moreover have "dom R' \<inter> T' = {}"
  proof -
    have "j \<notin> T'" if "R' j \<noteq> None" for j
      using that inv R' [of j] unfolding T' phase_inv_def by (cases "j = i") auto
    then show ?thesis by auto
  qed
  ultimately show ?thesis
    using step_round [OF r il step nv coh] inv step(2) by (simp add: phase_inv_def step_at_def)
qed

lemma begin_phase:
  assumes inv: "phase_inv B K bc config header V0 V txs L (sc, R, T)" and i: "i \<in> T"
  shows "\<exists>fl sc'. beginTask K bc config header i sc = Inr (fl, sc') \<and>
    phase_inv B K bc config header V0 V txs L (sc', R(i \<mapsto> fl), T - {i})"
proof -
  have rinv: "round_inv B K (traced_effects B K bc config header) V0 txs L sc" and il: "i < length txs" "\<not> validated sc i"
    and V: "state_values K (sc_state sc) = V" using inv i by (auto simp: phase_inv_def)
  then have sane: "sane B K txs sc" by (simp add: round_inv_def)
  have len: "i < length (sc_allTasks sc)" using sane_length [OF sane] il by simp
  let ?t = "task_at sc i"
  have tx: "t_Tx ?t = txs ! i" "t_AbsoluteIndex ?t = int i" using sane_task_ok [OF sane il(1)] by (simp_all add: task_ok_def)
  obtain st snap where snap: "sdb_Snapshot K (sdb_Copy K (sc_state sc)) = (st, snap)" by fastforce
  obtain hooks st' gas out where ap: "bc_ApplyTransaction bc config (fst (bc_Author bc header)) st header
      (t_Tx ?t) (t_UsedGas ?t) = (hooks, st', gas, out)" by (metis prod_cases4)
  let ?shared = "sdb_SetTxContext K (sc_state sc) (tx_Hash bc (t_Tx ?t)) (hd_Hash bc header) (t_AbsoluteIndex ?t)"
  let ?f = "\<lambda>t. t\<lparr>t_VersionStores := Some (VersionedIndexedStore (t_Tx t) (t_AbsoluteIndex t) (t_Incarnation t)
      (Some (make_chan 1))), t_State := Some (sdb_Copy K (sc_state sc))\<rparr>"
  let ?fl = "\<lparr>fl_ops = [], fl_hooks = hooks, fl_snap = snap, fl_state = st', fl_gas = gas, fl_out = out\<rparr>"
  define sc' where "sc' = shareState ?shared (updTask i ?f sc)"
  have b: "beginTask K bc config header i sc = Inr (?fl, sc')"
    using sane len by (simp add: beginTask_def prepareTask_def sane_withStore [OF sane] Let_def task_at_updTask snap ap sc'_def)
  have sane1: "sane B K txs (updTask i ?f sc)"
    using sane_task_ok [OF sane il(1)] by (intro sane_updTask sane il) (simp add: task_ok_def)
  note sh = sane_shareState [OF sane1, of ?shared, folded sc'_def]
  have step: "step_at B K i sc sc'" using len sh(2) by (auto simp: step_at_def sc'_def task_at_updTask SetTxContext_values)
  have task: "task_at sc' i = ?f ?t" using len by (simp add: sc'_def task_at_updTask)
  obtain st2 g2 out2 where ap0: "bc_ApplyTransaction bc config (fst (bc_Author bc header)) st header (t_Tx ?t) 0 =
      (hooks, st2, g2, out2)" "isl out2 = isl out" using gas_counter [OF ap] by blast
  let ?tr = "NewAccessListTracer (txs ! i) 0 0 None" and ?S = "NewMultiVersionStore (sc_state sc) :: ('s, 't) Store"
  have "tracer_inv K (parentStore ?S) ?tr" "well_formed_hooks (tr_gasPrice ?tr \<noteq> None) hooks"
    using hooks_well_formed [OF ap] by (simp_all add: tracer_inv_def NewAccessListTracer_def)
  from run_hooks_ok [OF this, of B] obtain b where rb: "run_hooks B K ?S hooks ?tr = Inr b" by blast
  have "erase (VersionedIndexedStore (t_Tx ?t) (t_AbsoluteIndex ?t) (t_Incarnation ?t) (Some (make_chan 1))) = ?tr"
    by (simp add: VersionedIndexedStore_def NewAccessListTracer_def erase_def tx)
  with rb ap0 V have "running_ok B K bc config header V txs sc' i ?fl"
    by (intro running_okI [where st = "sc_state sc" and c = "make_chan 1" and b = b])
      (simp_all add: task traced_effects_def snap tx VersionedIndexedStore_def,
        simp_all add: NewAccessListTracer_def make_chan_def erase_def)
  moreover have "coherent B (traced_effects B K bc config header) sc' i" if "t_Status (task_at sc' i) = statusExecuted"
    using that by (intro coherent_kept [OF rinv il(1)]) (simp_all add: task sh(2))
  ultimately have "phase_inv B K bc config header V0 V txs L (sc', R(i \<mapsto> ?fl), T - {i})"
    using il i task by (intro phase_step [OF inv _ sh(1) step]) auto
  with b show ?thesis by blast
qed

lemma op_tracer:
  assumes run: "running_ok B K bc config header V txs sc i fl" and fl: "fl_ops fl = op # ops" and i: "i < length txs"
    and s: "visible B (length txs) s" "state_values K (parentStore s) = V"
  shows "\<exists>a a'. t_VersionStores (task_at sc i) = Some a \<and> tracerOp B K s op a = Inr a' \<and>
    (\<forall>sc'. t_VersionStores (task_at sc' i) = Some a' \<longrightarrow>
       running_ok B K bc config header V txs sc' i (fl\<lparr>fl_ops := ops\<rparr>))"
proof -
  obtain a c st b where a: "t_VersionStores (task_at sc i) = Some a" "tr_abortedChannel a = Some c" "\<not> ch_closed c"
    "\<forall>x\<in>set (ch_buf c). 0 \<le> ab_DependentTxIdx x \<and> ab_DependentTxIdx x < int (length txs)"
    "tr_transactionIndex a = int i" "state_values K st = V"
    and b: "pbind (pfold (tracerOp B K (NewMultiVersionStore st)) (op # ops) (erase a))
      (run_hooks B K (NewMultiVersionStore st) (fl_hooks fl)) = Inr b"
    and eff: "traced_effects B K bc config header st (txs ! i) = (\<not> isl (fl_out fl), tr_readset b, tr_writeset b)"
    using run unfolding running_ok_def fl by blast
  let ?S = "NewMultiVersionStore st :: ('s, 't) Store"
  have "sim (tracerOp B K s op a) (tracerOp B K ?S op (erase a))"
    using a s(2) by (intro sim_tracerOp) (simp_all add: NewMultiVersionStore_def open_chan_def)
  moreover obtain a0 where a0: "tracerOp B K ?S op (erase a) = Inr a0"
    "pbind (pfold (tracerOp B K ?S) ops a0) (run_hooks B K ?S (fl_hooks fl)) = Inr b"
    using b by (auto simp: pbind_eq_Inr)
  ultimately obtain a' where a': "tracerOp B K s op a = Inr a'" "open_chan a'" "a0 = erase a'"
    by (auto simp: sim_def split: sum.splits)
  let ?Q = "\<lambda>c. \<forall>x\<in>set (ch_buf c). 0 \<le> ab_DependentTxIdx x \<and> ab_DependentTxIdx x < int (length txs)"
  have "signals ?Q (int i) (tracerOp B K s op a)"
  proof (rule signals_tracerOp)
    have "0 \<le> vi_index it \<and> vi_index it < int (length txs)"
      if "Store_GetLatestBeforeIndex B s (int i) k = Some it" for k it
      using that s(1) by (auto simp: store_latest_before_Some visible_def)
    then show "warns B s (int i) ?Q"
      by (auto simp: warns_def NewEstimateAbort_def intro!: accepts_all)
    show "accepts ?Q (self_abort (int i))" using i by (intro accepts_all) (simp add: self_abort_def)
  qed (use a in \<open>simp_all add: chan_sat_def\<close>)
  then obtain c' where c': "tr_abortedChannel a' = Some c'" "?Q c'" "tr_transactionIndex a' = int i"
    by (auto simp: signals_def chan_sat_def a'(1))
  have "running_ok B K bc config header V txs sc' i (fl\<lparr>fl_ops := ops\<rparr>)"
    if "t_VersionStores (task_at sc' i) = Some a'" for sc' :: "('s, 't, 'tx, 'rc, 'tc) scheduler"
    using that a0(2) a' c' a(6) eff
    by (intro running_okI [where st = st and a = a' and c = c' and b = b]) (simp_all add: open_chan_def)
  with a(1) a'(1) show ?thesis by blast
qed

lemma open_tracer:
  assumes run: "running_ok B K bc config header V txs sc i fl" and fl: "fl_ops fl = []" "fl_hooks fl = h # hs"
  shows "\<exists>a a' ops. t_VersionStores (task_at sc i) = Some a \<and> hookOps K h a = Inr (ops, a') \<and>
    (\<forall>sc'. t_VersionStores (task_at sc' i) = Some a' \<longrightarrow>
       running_ok B K bc config header V txs sc' i (fl\<lparr>fl_ops := ops, fl_hooks := hs\<rparr>))"
proof -
  obtain a c st b where a: "t_VersionStores (task_at sc i) = Some a" "tr_abortedChannel a = Some c" "\<not> ch_closed c"
    "\<forall>x\<in>set (ch_buf c). 0 \<le> ab_DependentTxIdx x \<and> ab_DependentTxIdx x < int (length txs)"
    "tr_transactionIndex a = int i" "state_values K st = V"
    and b: "run_hooks B K (NewMultiVersionStore st) (h # hs) (erase a) = Inr b"
    and eff: "traced_effects B K bc config header st (txs ! i) = (\<not> isl (fl_out fl), tr_readset b, tr_writeset b)"
    using run unfolding running_ok_def fl by auto
  let ?S = "NewMultiVersionStore st :: ('s, 't) Store"
  obtain ops a0 where o: "hookOps K h (erase a) = Inr (ops, a0)"
    "pbind (pfold (tracerOp B K ?S) ops a0) (run_hooks B K ?S hs) = Inr b"
    using b by (auto simp: run_hooks_def run_hook_ops pbind_assoc pbind_eq_Inr)
  then obtain a' where a': "hookOps K h a = Inr (ops, a')" "a0 = erase a'"
    by (cases "hookOps K h a") (auto simp: hookOps_erase)
  have "running_ok B K bc config header V txs sc' i (fl\<lparr>fl_ops := ops, fl_hooks := hs\<rparr>)"
    if "t_VersionStores (task_at sc' i) = Some a'" for sc' :: "('s, 't, 'tx, 'rc, 'tc) scheduler"
    using that o(2) a a'(2) hookOps_frame [OF a'(1)] eff
    by (intro running_okI [where st = st and a = a' and c = c and b = b]) simp_all
  with a(1) a'(1) show ?thesis by blast
qed

text \<open>A new state of the tracer of a running task keeps the invariant.\<close>

lemma tracer_phase:
  assumes inv: "phase_inv B K bc config header V0 V txs L (sc, R, T)" and fl: "R i = Some fl"
    and ok: "\<And>sc' :: ('s, 't, 'tx, 'rc, 'tc) scheduler. t_VersionStores (task_at sc' i) = Some a' \<Longrightarrow>
       running_ok B K bc config header V txs sc' i fl'"
  shows "phase_inv B K bc config header V0 V txs L
      (updTask i (\<lambda>t. t\<lparr>t_VersionStores := Some a'\<rparr>) sc, R(i \<mapsto> fl'), T)"
proof -
  have rinv: "round_inv B K (traced_effects B K bc config header) V0 txs L sc" and il: "i < length txs" "\<not> validated sc i"
    and iT: "i \<notin> T" using inv fl by (auto simp: phase_inv_def)
  then have sane: "sane B K txs sc" by (simp add: round_inv_def)
  have len: "i < length (sc_allTasks sc)" using sane_length [OF sane] il by simp
  let ?sc = "updTask i (\<lambda>t. t\<lparr>t_VersionStores := Some a'\<rparr>) sc"
  have task: "task_at ?sc i = (task_at sc i)\<lparr>t_VersionStores := Some a'\<rparr>" using len by (simp add: task_at_updTask)
  have "sane B K txs ?sc"
    using sane_task_ok [OF sane il(1)] by (intro sane_updTask sane il) (simp add: task_ok_def)
  moreover have "running_ok B K bc config header V txs ?sc i fl'" by (rule ok) (simp add: task)
  moreover have "coherent B (traced_effects B K bc config header) ?sc i" if "t_Status (task_at ?sc i) = statusExecuted"
    using that by (intro coherent_kept [OF rinv il(1)]) (simp_all add: task)
  ultimately show ?thesis
    using il fl iT task by (intro phase_step [OF inv _ _ step_at_updTask [OF len]]) auto
qed

lemma op_phase:
  assumes inv: "phase_inv B K bc config header V0 V txs L (sc, R, T)" and fl: "R i = Some fl" "fl_ops fl = op # ops"
    and s: "visible B (length txs) s" "parentStore s = sc_state sc"
  shows "\<exists>a a'. t_VersionStores (task_at sc i) = Some a \<and> tracerOp B K s op a = Inr a' \<and>
    phase_inv B K bc config header V0 V txs L
      (updTask i (\<lambda>t. t\<lparr>t_VersionStores := Some a'\<rparr>) sc, R(i \<mapsto> fl\<lparr>fl_ops := ops\<rparr>), T)"
proof -
  have "i < length txs" "state_values K (parentStore s) = V" "running_ok B K bc config header V txs sc i fl"
    using inv fl(1) s(2) by (auto simp: phase_inv_def)
  from op_tracer [OF this(3) fl(2) this(1) s(1) this(2)] tracer_phase [OF inv fl(1)] show ?thesis by blast
qed

lemma open_phase:
  assumes inv: "phase_inv B K bc config header V0 V txs L (sc, R, T)" and fl: "R i = Some fl" "fl_ops fl = []" "fl_hooks fl = h # hs"
  shows "\<exists>a a' ops. t_VersionStores (task_at sc i) = Some a \<and> hookOps K h a = Inr (ops, a') \<and>
    phase_inv B K bc config header V0 V txs L
      (updTask i (\<lambda>t. t\<lparr>t_VersionStores := Some a'\<rparr>) sc, R(i \<mapsto> fl\<lparr>fl_ops := ops, fl_hooks := hs\<rparr>), T)"
proof -
  have "running_ok B K bc config header V txs sc i fl" using inv fl(1) by (auto simp: phase_inv_def)
  from open_tracer [OF this fl(2,3)] tracer_phase [OF inv fl(1)] show ?thesis by blast
qed

text \<open>A task that has called all its hooks.\<close>

lemma running_traced:
  assumes "running_ok B K bc config header V txs sc i fl" "fl_ops fl = []" "fl_hooks fl = []"
  obtains a c st where "t_VersionStores (task_at sc i) = Some a" "traced K (length txs) i a c"
    "traced_effects B K bc config header st (txs ! i) = (\<not> isl (fl_out fl), tr_readset a, tr_writeset a)"
proof -
  obtain a c st where a: "t_VersionStores (task_at sc i) = Some a" "tr_abortedChannel a = Some c" "\<not> ch_closed c"
    "\<forall>x\<in>set (ch_buf c). 0 \<le> ab_DependentTxIdx x \<and> ab_DependentTxIdx x < int (length txs)"
    "tr_transactionIndex a = int i"
    and eff: "traced_effects B K bc config header st (txs ! i) = (\<not> isl (fl_out fl), tr_readset a, tr_writeset a)"
    using assms unfolding running_ok_def by (auto simp: run_hooks_def)
  then have "traced K (length txs) i a c" using traced_writes [OF eff] by (simp add: traced_def)
  then show ?thesis using that a(1) eff by blast
qed

lemma end_phase:
  assumes inv: "phase_inv B K bc config header V0 V txs L (sc, R, T)" and fl: "R i = Some fl" "fl_ops fl = []" "fl_hooks fl = []"
  shows "\<exists>sc'. endTask B K fl i sc = Inr sc' \<and> phase_inv B K bc config header V0 V txs L (sc', R(i := None), T)"
proof -
  have rinv: "round_inv B K (traced_effects B K bc config header) V0 txs L sc" and il: "i < length txs" "\<not> validated sc i"
    and iR: "i \<in> dom R \<union> T" using inv fl(1) by (auto simp: phase_inv_def)
  then have sane: "sane B K txs sc" by (simp add: round_inv_def)
  have len: "i < length (sc_allTasks sc)" using sane_length [OF sane] il by simp
  have "running_ok B K bc config header V txs sc i fl" using inv fl(1) by (simp add: phase_inv_def)
  from running_traced [OF this fl(2,3)] obtain a c st where a: "t_VersionStores (task_at sc i) = Some a"
    and tr: "traced K (length txs) i a c"
    and eff: "traced_effects B K bc config header st (txs ! i) = (\<not> isl (fl_out fl), tr_readset a, tr_writeset a)" .
  define sc1 where "sc1 = updTask i (\<lambda>t. t\<lparr>t_UsedGas := fl_gas fl, t_State := Some (if isl (fl_out fl)
      then sdb_RevertToSnapshot K (fl_state fl) (fl_snap fl) else fl_state fl)\<rparr>) sc"
  have e: "endTask B K fl i sc = (case fl_out fl of Inl err \<Rightarrow> Inr sc1 | Inr rt \<Rightarrow> finishTask B rt i sc1)"
    unfolding endTask_def Let_def sc1_def ..
  have sane1: "sane B K txs sc1"
    unfolding sc1_def using sane_task_ok [OF sane il(1)] by (intro sane_updTask sane il) (simp add: task_ok_def)
  have step1: "step_at B K i sc sc1" unfolding sc1_def by (rule step_at_updTask [OF len])
  have t1: "t_VersionStores (task_at sc1 i) = Some a" "t_Status (task_at sc1 i) = t_Status (task_at sc i)"
    "t_Response (task_at sc1 i) = t_Response (task_at sc i)" "t_Tx (task_at sc1 i) = t_Tx (task_at sc i)"
    "store_of sc1 = store_of sc" using len a by (simp_all add: sc1_def task_at_updTask)
  show ?thesis
  proof (cases "fl_out fl")
    case (Inl err)
    have "coherent B (traced_effects B K bc config header) sc1 i" if "t_Status (task_at sc1 i) = statusExecuted"
      using that by (intro coherent_kept [OF rinv il(1)]) (simp_all add: t1)
    moreover have "T = T - (if (R(i := None)) i = None then {} else {i})" by simp
    ultimately have "phase_inv B K bc config header V0 V txs L (sc1, R(i := None), T)"
      using il t1 by (intro phase_step [OF inv iR sane1 step1]) auto
    then show ?thesis using Inl by (simp add: e)
  next
    case (Inr rt)
    from finishTask_ok [OF sane1 il(1) t1(1) tr, of rt] obtain sc' where
      f: "finishTask B rt i sc1 = Inr sc'" "sane B K txs sc'" "step_at B K i sc1 sc'" "finished B i a c sc1 sc'" by blast
    have "t_Tx (task_at sc' i) = txs ! i" using sane_task_ok [OF f(2) il(1)] by (simp add: task_ok_def)
    with f(4) eff Inr have "coherent B (traced_effects B K bc config header) sc' i"
      if "t_Status (task_at sc' i) = statusExecuted" using that by (auto simp: coherent_def finished_def Let_def)
    moreover have "T = T - (if (R(i := None)) i = None then {} else {i})" by simp
    ultimately have "phase_inv B K bc config header V0 V txs L (sc', R(i := None), T)"
      using f(4) by (intro phase_step [OF inv iR f(2) step_at_trans [OF step1 f(3)]]) (auto simp: finished_def Let_def)
    then show ?thesis using Inr f(1) by (simp add: e)
  qed
qed

end

end
