(* ===== verification/Publication.thy ===== *)
theory Publication
  imports Rounds
begin

text \<open>
  The publication of a writeset, access by access. \<open>SetWriteset\<close> and \<open>SetEstimatedWriteset\<close> are not
  atomic: they take the keys of the old writeset out of a \<open>sync.Map\<close>, remove the versions that are
  not overwritten one by one, write the new versions one by one, each under the lock of its item, and
  store the new keys; the readset follows. A \<open>store_op\<close> is one of these accesses. Carried out without
  interruption they are the methods of \<open>Store\<close>; each of them touches the row of one transaction only
  (its column, its recorded keys and its readset), so the rows of concurrent publications do not mix.
\<close>

section \<open>Accesses\<close>

datatype store_op =
    LoadAndDelete WriteSet
  | RemoveVersion StorageKey
  | WriteVersion int WriteSet StorageKey
  | EstimateVersion int StorageKey
  | StoreKeys "StorageKey list"
  | StoreReads ReadSet

text \<open>The effect of an access of transaction \<open>index\<close>, and the accesses it gives rise to.\<close>

fun storeOp :: "'t vtree \<Rightarrow> int \<Rightarrow> store_op \<Rightarrow> ('s, 't) Store \<Rightarrow> store_op list \<times> ('s, 't) Store" where
  "storeOp B index (LoadAndDelete writeset) s =
     (case fmlookup (txWritesetKeys s) index of
        None \<Rightarrow> ([], s)
      | Some keys \<Rightarrow> (map RemoveVersion (filter (\<lambda>key. fmlookup writeset key = None) keys),
                      s\<lparr>txWritesetKeys := fmdrop index (txWritesetKeys s)\<rparr>))"
| "storeOp B index (RemoveVersion key) s =
     ([], s\<lparr>multiVersionMap := removeOldKey B index fmempty key (multiVersionMap s)\<rparr>)"
| "storeOp B index (WriteVersion incarnation writeset key) s =
     ([], s\<lparr>multiVersionMap := writeKey B index incarnation writeset key (multiVersionMap s)\<rparr>)"
| "storeOp B index (EstimateVersion incarnation key) s =
     ([], s\<lparr>multiVersionMap := estimateKey B index incarnation key (multiVersionMap s)\<rparr>)"
| "storeOp B index (StoreKeys keys) s = ([], s\<lparr>txWritesetKeys := fmupd index keys (txWritesetKeys s)\<rparr>)"
| "storeOp B index (StoreReads readset) s = ([], SetReadset s index readset)"

definition writeOps :: "int \<Rightarrow> WriteSet \<Rightarrow> store_op list" where
  "writeOps incarnation writeset =
     LoadAndDelete writeset # map (WriteVersion incarnation writeset) (fmkeys writeset) @ [StoreKeys (sort (fmkeys writeset))]"

definition estimateOps :: "int \<Rightarrow> WriteSet \<Rightarrow> store_op list" where
  "estimateOps incarnation writeset =
     LoadAndDelete writeset # map (EstimateVersion incarnation) (fmkeys writeset) @ [StoreKeys (sort (fmkeys writeset))]"

text \<open>What \<open>WriteToMultiVersionStore\<close> and \<open>WriteEstimatesToMultiVersionStore\<close> do, access by access.\<close>

definition publishOps :: "bool \<Rightarrow> 'tx AccessListTracer \<Rightarrow> store_op list" where
  "publishOps aborted a =
     (if aborted then estimateOps (tr_incarnation a) (tr_writeset a)
      else writeOps (tr_incarnation a) (tr_writeset a) @ [StoreReads (tr_readset a)])"

section \<open>Accesses carried out without interruption\<close>

inductive run_ops :: "('o \<Rightarrow> 'x \<Rightarrow> 'o list \<times> 'x) \<Rightarrow> 'o list \<Rightarrow> 'x \<Rightarrow> 'x \<Rightarrow> bool" for f where
  Nil: "run_ops f [] x x"
| Cons: "f op x = (new, y) \<Longrightarrow> run_ops f (new @ ops) y z \<Longrightarrow> run_ops f (op # ops) x z"

inductive_cases run_ops_NilE: "run_ops f [] x y"
inductive_cases run_ops_ConsE: "run_ops f (op # ops) x y"

lemma run_ops_map:
  assumes "\<And>k x. k \<in> set ks \<Longrightarrow> f (op k) x = ([], g k x)" "run_ops f ops (fold g ks x) y"
  shows "run_ops f (map op ks @ ops) x y"
  using assms by (induction ks arbitrary: x) (auto intro: run_ops.Cons)

lemma fold_map_update:
  "fold (\<lambda>k s. s\<lparr>multiVersionMap := h k (multiVersionMap s)\<rparr>) ks s = s\<lparr>multiVersionMap := fold h ks (multiVersionMap s)\<rparr>"
  by (induction ks arbitrary: s) simp_all

lemma fold_removeOldKey:
  "fold (removeOldKey B i ws) ks m = fold (removeOldKey B i fmempty) (filter (\<lambda>k. fmlookup ws k = None) ks) m"
  by (induction ks arbitrary: m) (simp_all add: removeOldKey_def)

lemma run_LoadAndDelete:
  assumes "run_ops (storeOp B i) ops (removeOldWriteset B s i (Some ws)) s'"
  shows "run_ops (storeOp B i) (LoadAndDelete ws # ops) s s'"
proof (cases "fmlookup (txWritesetKeys s) i")
  case None
  with assms show ?thesis by (intro run_ops.Cons [of "storeOp B i" "LoadAndDelete ws" s "[]" s]) (simp_all add: removeOldWriteset_def)
next
  case (Some ks)
  let ?ks = "filter (\<lambda>k. fmlookup ws k = None) ks" and ?s = "s\<lparr>txWritesetKeys := fmdrop i (txWritesetKeys s)\<rparr>"
  have "fold (\<lambda>k s. s\<lparr>multiVersionMap := removeOldKey B i fmempty k (multiVersionMap s)\<rparr>) ?ks ?s =
      removeOldWriteset B s i (Some ws)"
    unfolding fold_map_update using Some by (simp add: removeOldWriteset_def fold_removeOldKey [of B i ws])
  with assms have "run_ops (storeOp B i) (map RemoveVersion ?ks @ ops) ?s s'"
    by (intro run_ops_map [where g = "\<lambda>k s. s\<lparr>multiVersionMap := removeOldKey B i fmempty k (multiVersionMap s)\<rparr>"]) simp_all
  with Some show ?thesis by (intro run_ops.Cons [of "storeOp B i" "LoadAndDelete ws" s]) simp_all
qed

lemma run_last: "f op x = ([], y) \<Longrightarrow> run_ops f [op] x y"
  by (rule run_ops.Cons [of f op x "[]" y]) (simp_all add: run_ops.Nil)

lemma run_writeOps:
  assumes "run_ops (storeOp B i) ops (SetWriteset B s i inc ws) s'"
  shows "run_ops (storeOp B i) (writeOps inc ws @ ops) s s'"
proof -
  let ?s = "removeOldWriteset B s i (Some ws)"
  have "run_ops (storeOp B i) (StoreKeys (sort (fmkeys ws)) # ops)
      (fold (\<lambda>k s. s\<lparr>multiVersionMap := writeKey B i inc ws k (multiVersionMap s)\<rparr>) (fmkeys ws) ?s) s'"
    using assms unfolding fold_map_update
    by (intro run_ops.Cons [of _ _ _ "[]"]) (simp_all add: SetWriteset_def SetWriteset_in_order_def Let_def)
  then show ?thesis
    unfolding writeOps_def append_Cons append_assoc
    by (intro run_LoadAndDelete run_ops_map [where g = "\<lambda>k s. s\<lparr>multiVersionMap := writeKey B i inc ws k (multiVersionMap s)\<rparr>"])
      simp_all
qed

lemma run_estimateOps: "run_ops (storeOp B i) (estimateOps inc ws) s (SetEstimatedWriteset B s i inc ws)"
proof -
  let ?s = "removeOldWriteset B s i (Some ws)"
  have "run_ops (storeOp B i) [StoreKeys (sort (fmkeys ws))]
      (fold (\<lambda>k s. s\<lparr>multiVersionMap := estimateKey B i inc k (multiVersionMap s)\<rparr>) (fmkeys ws) ?s)
      (SetEstimatedWriteset B s i inc ws)"
    unfolding fold_map_update
    by (intro run_last) (simp add: SetEstimatedWriteset_def SetEstimatedWriteset_in_order_def Let_def)
  then show ?thesis
    unfolding estimateOps_def
    by (intro run_LoadAndDelete run_ops_map [where g = "\<lambda>k s. s\<lparr>multiVersionMap := estimateKey B i inc k (multiVersionMap s)\<rparr>"])
      simp_all
qed

lemma run_publishOps:
  "run_ops (storeOp B (tr_transactionIndex a)) (publishOps aborted a) s
     (if aborted then WriteEstimatesToMultiVersionStore B a s else WriteToMultiVersionStore B a s)"
  by (auto simp: publishOps_def WriteEstimatesToMultiVersionStore_def WriteToMultiVersionStore_def
      intro!: run_estimateOps run_writeOps run_last)

section \<open>Rows\<close>

type_synonym row = "(StorageKey \<rightharpoonup> valueItem) \<times> StorageKey list option \<times> ReadSet option"

definition row :: "'t vtree \<Rightarrow> ('s, 't) Store \<Rightarrow> int \<Rightarrow> row" where
  "row B s i = (column B s i, fmlookup (txWritesetKeys s) i, fmlookup (txReadSets s) i)"

text \<open>The accesses as they appear in the row of the transaction.\<close>

fun rowOp :: "int \<Rightarrow> store_op \<Rightarrow> row \<Rightarrow> store_op list \<times> row" where
  "rowOp i (LoadAndDelete ws) (c, ks, rs) =
     (case ks of None \<Rightarrow> ([], c, ks, rs)
      | Some keys \<Rightarrow> (map RemoveVersion (filter (\<lambda>key. fmlookup ws key = None) keys), c, None, rs))"
| "rowOp i (RemoveVersion k) (c, ks, rs) = ([], c(k := None), ks, rs)"
| "rowOp i (WriteVersion inc ws k) (c, ks, rs) =
     ([], (case fmlookup ws k of None \<Rightarrow> c | Some v \<Rightarrow> c(k \<mapsto> written i inc v)), ks, rs)"
| "rowOp i (EstimateVersion inc k) (c, ks, rs) = ([], c(k \<mapsto> NewEstimateItem i inc), ks, rs)"
| "rowOp i (StoreKeys keys) (c, ks, rs) = ([], c, Some keys, rs)"
| "rowOp i (StoreReads reads) (c, ks, rs) = ([], c, ks, Some reads)"

text \<open>The keys an access may bring into the store.\<close>

primrec op_keys :: "store_op \<Rightarrow> StorageKey set" where
  "op_keys (LoadAndDelete ws) = {}"
| "op_keys (RemoveVersion k) = {}"
| "op_keys (WriteVersion inc ws k) = {k}"
| "op_keys (EstimateVersion inc k) = {k}"
| "op_keys (StoreKeys ks) = {}"
| "op_keys (StoreReads rs) = {}"

definition ops_keys :: "store_op list \<Rightarrow> StorageKey set" where
  "ops_keys ops = (\<Union>op\<in>set ops. op_keys op)"

lemma ops_keys_simps [simp]:
  "ops_keys [] = {}" "ops_keys (op # ops) = op_keys op \<union> ops_keys ops" "ops_keys (ops @ ops') = ops_keys ops \<union> ops_keys ops'"
  by (simp_all add: ops_keys_def)

lemma ops_keys_publish: "ops_keys (publishOps aborted a) = fset (fmdom (tr_writeset a))"
  by (auto simp: publishOps_def writeOps_def estimateOps_def ops_keys_def)

lemma storeOp_keys:
  assumes "storeOp B i op s = (new, s')"
  shows "fset (fmdom (multiVersionMap s')) \<subseteq> fset (fmdom (multiVersionMap s)) \<union> op_keys op" "ops_keys new = {}"
    "parentStore s' = parentStore s"
  using assms
  by (cases op; auto simp: removeOldKey_def writeKey_def estimateKey_def ops_keys_def SetReadset_def fmdomI split: option.splits)+

context value_tree
begin

lemma map_versions_column: "column B s i k = map_versions B (multiVersionMap s) k i"
  by (simp add: column_def store_versions_def)

lemma storeOp_row:
  assumes "storeOp B i op s = (new, s')"
  shows "rowOp i op (row B s i) = (new, row B s' i)" "j \<noteq> i \<Longrightarrow> row B s' j = row B s j"
  using assms
  by (cases op; auto simp: row_def fun_eq_iff map_versions_column map_versions_removeOldKey map_versions_writeKey
      map_versions_estimateKey SetReadset_def split: option.splits)+

lemma run_ops_row:
  assumes "run_ops (storeOp B i) ops s s'"
  shows "run_ops (rowOp i) ops (row B s i) (row B s' i)" "\<And>j. j \<noteq> i \<Longrightarrow> row B s' j = row B s j" "parentStore s' = parentStore s"
proof -
  have "run_ops (rowOp i) ops (row B s i) (row B s' i) \<and> (\<forall>j. j \<noteq> i \<longrightarrow> row B s' j = row B s j) \<and> parentStore s' = parentStore s"
    using assms
  proof (induction rule: run_ops.induct)
    case (Nil s)
    then show ?case by (simp add: run_ops.Nil)
  next
    case (Cons op s new s1 ops s')
    with storeOp_row [OF Cons.hyps(1)] storeOp_keys(3) [OF Cons.hyps(1)] show ?case by (auto intro: run_ops.Cons)
  qed
  then show "run_ops (rowOp i) ops (row B s i) (row B s' i)" "\<And>j. j \<noteq> i \<Longrightarrow> row B s' j = row B s j"
    "parentStore s' = parentStore s" by auto
qed

end

end
