(* ===== verification/Workers.thy ===== *)
theory Workers
  imports Prelude
begin

text \<open>
  The worker pool of the scheduler. \<open>ProcessAll\<close> makes a buffered channel of closures with room for
  every task and starts goroutines that take closures from it and run them; \<open>DoExecute\<close> and
  \<open>DoValidate\<close> send to the channel. A closure is a job that runs in pieces: a first piece \<open>start\<close>, and
  then \<open>next\<close> as long as it leaves something to do. \<open>run_step\<close> lets the running jobs take their pieces
  in any order; \<open>pool_step\<close> is the pool with its channel and workers, a refinement of it. The locale
  \<open>job_system\<close> states when jobs do not get stuck and do not run forever; then the pool empties.
\<close>

section \<open>Jobs\<close>

inductive run_step ::
  "(nat \<Rightarrow> 's \<Rightarrow> go_panic + 'c \<times> 's) \<Rightarrow> (nat \<Rightarrow> 'c \<Rightarrow> 's \<Rightarrow> go_panic + 'c option \<times> 's) \<Rightarrow>
   's \<times> (nat \<rightharpoonup> 'c) \<times> nat set \<Rightarrow> 's \<times> (nat \<rightharpoonup> 'c) \<times> nat set \<Rightarrow> bool"
  for start "next" where
  Start: "i \<in> T \<Longrightarrow> start i s = Inr (c, s') \<Longrightarrow> run_step start next (s, R, T) (s', R(i \<mapsto> c), T - {i})"
| Next: "R i = Some c \<Longrightarrow> next i c s = Inr (c', s') \<Longrightarrow> run_step start next (s, R, T) (s', R(i := c'), T)"

text \<open>A job carried out without interruption, from what is left of it, and jobs one after the other.\<close>

inductive job ::
  "(nat \<Rightarrow> 'c \<Rightarrow> 's \<Rightarrow> go_panic + 'c option \<times> 's) \<Rightarrow> nat \<Rightarrow> 'c option \<times> 's \<Rightarrow> 's \<Rightarrow> bool"
  for "next" i where
  Done: "job next i (None, s) s"
| More: "next i c s = Inr (c', s') \<Longrightarrow> job next i (c', s') s'' \<Longrightarrow> job next i (Some c, s) s''"

inductive jobs ::
  "(nat \<Rightarrow> 's \<Rightarrow> go_panic + 'c \<times> 's) \<Rightarrow> (nat \<Rightarrow> 'c \<Rightarrow> 's \<Rightarrow> go_panic + 'c option \<times> 's) \<Rightarrow>
   nat list \<Rightarrow> 's \<Rightarrow> 's \<Rightarrow> bool"
  for start "next" where
  Nil: "jobs start next [] s s"
| Cons: "start i s = Inr (c, s1) \<Longrightarrow> job next i (Some c, s1) s2 \<Longrightarrow> jobs start next is s2 s' \<Longrightarrow>
    jobs start next (i # is) s s'"

section \<open>The pool\<close>

text \<open>
  The closures the scheduler has still to send, the channel, and what each worker is running. A send
  needs room in the channel; an idle worker receives the oldest closure; \<open>Work\<close> is a piece of the
  closure a worker runs.
\<close>

record 'c pool =
  pl_unsent :: "nat list"
  pl_chan :: "nat list"
  pl_workers :: "(nat \<times> 'c) option list"

inductive pool_step ::
  "nat \<Rightarrow> (nat \<Rightarrow> 's \<Rightarrow> go_panic + 'c \<times> 's) \<Rightarrow> (nat \<Rightarrow> 'c \<Rightarrow> 's \<Rightarrow> go_panic + 'c option \<times> 's) \<Rightarrow>
   's \<times> 'c pool \<Rightarrow> 's \<times> 'c pool \<Rightarrow> bool"
  for room start "next" where
  Send: "pl_unsent p = i # is \<Longrightarrow> length (pl_chan p) < room \<Longrightarrow>
    pool_step room start next (s, p) (s, p\<lparr>pl_unsent := is, pl_chan := pl_chan p @ [i]\<rparr>)"
| Receive: "w < length (pl_workers p) \<Longrightarrow> pl_workers p ! w = None \<Longrightarrow> pl_chan p = i # is \<Longrightarrow> start i s = Inr (c, s') \<Longrightarrow>
    pool_step room start next (s, p) (s', p\<lparr>pl_chan := is, pl_workers := (pl_workers p)[w := Some (i, c)]\<rparr>)"
| Work: "w < length (pl_workers p) \<Longrightarrow> pl_workers p ! w = Some (i, c) \<Longrightarrow> next i c s = Inr (c', s') \<Longrightarrow>
    pool_step room start next (s, p) (s', p\<lparr>pl_workers := (pl_workers p)[w := map_option (Pair i) c']\<rparr>)"

definition new_pool :: "nat \<Rightarrow> nat list \<Rightarrow> 'c pool" where
  "new_pool workers is = \<lparr>pl_unsent = is, pl_chan = [], pl_workers = replicate workers None\<rparr>"

text \<open>The pool is idle when everything has been sent, received and carried out.\<close>

definition idle :: "'c pool \<Rightarrow> bool" where
  "idle p \<longleftrightarrow> pl_unsent p = [] \<and> pl_chan p = [] \<and> set (pl_workers p) \<subseteq> {None}"

section \<open>The pool refines the jobs\<close>

definition active :: "(nat \<times> 'c) option list \<Rightarrow> (nat \<times> 'c) list" where
  "active ws = concat (map (\<lambda>w. case w of None \<Rightarrow> [] | Some x \<Rightarrow> [x]) ws)"

definition waiting :: "'c pool \<Rightarrow> nat set" where
  "waiting p = set (pl_unsent p) \<union> set (pl_chan p)"

definition running :: "'c pool \<Rightarrow> (nat \<rightharpoonup> 'c)" where
  "running p = map_of (active (pl_workers p))"

text \<open>Every job is in the pool at most once, and the channel has room for all that are to be sent.\<close>

definition pool_ok :: "nat \<Rightarrow> 'c pool \<Rightarrow> bool" where
  "pool_ok room p \<longleftrightarrow> distinct (pl_unsent p @ pl_chan p @ map fst (active (pl_workers p))) \<and>
     length (pl_unsent p @ pl_chan p) \<le> room"

lemma active_simps [simp]:
  "active [] = []" "active (None # ws) = active ws" "active (Some x # ws) = x # active ws"
  "active (ws @ ws') = active ws @ active ws'" "active (replicate n None) = []"
  by (simp_all add: active_def)

lemma set_active: "x \<in> set (active ws) \<longleftrightarrow> Some x \<in> set ws"
  by (cases x) (auto simp: active_def split: option.splits)

text \<open>Splitting the workers at one of them.\<close>

lemma worker_split:
  assumes "w < length ws" "ws ! w = x"
  obtains us vs where "ws = us @ x # vs" "\<And>y. ws[w := y] = us @ y # vs"
  using assms id_take_nth_drop [of w ws] upd_conv_take_nth_drop [of w ws] that by metis

lemma map_of_middle:
  assumes "distinct (map fst (us @ (i, c) # vs))"
  shows "map_of (us @ (i, c) # vs) = (map_of (us @ vs))(i \<mapsto> c)"
proof -
  have "i \<notin> fst ` set us" using assms by auto
  then have "map_of us i = None" by (simp add: map_of_eq_None_iff)
  then show ?thesis by (auto simp: map_add_def fun_eq_iff split: option.splits)
qed

lemma map_of_removed:
  assumes "distinct (map fst (us @ (i, c) # vs))"
  shows "map_of (us @ vs) = (map_of (us @ (i, c) # vs))(i := None)"
proof -
  have "map_of (us @ vs) i = None" using assms by (auto simp: map_of_eq_None_iff map_add_None)
  then show ?thesis unfolding map_of_middle [OF assms] by (simp add: fun_upd_idem)
qed

lemma pool_refines:
  assumes "pool_step room start next (s, p) (s', p')" "pool_ok room p"
  shows "pool_ok room p' \<and> length (pl_workers p') = length (pl_workers p) \<and>
    (run_step start next (s, running p, waiting p) (s', running p', waiting p') \<or>
     s' = s \<and> running p' = running p \<and> waiting p' = waiting p \<and> length (pl_unsent p') < length (pl_unsent p))"
  using assms(1)
proof (cases rule: pool_step.cases)
  case (Send i "is")
  then have "running p' = running p" "waiting p' = waiting p" by (auto simp: running_def waiting_def)
  with Send assms(2) show ?thesis by (auto simp: pool_ok_def)
next
  case (Receive w i "is" c)
  then obtain us vs where ws: "pl_workers p = us @ None # vs" "pl_workers p' = us @ Some (i, c) # vs"
    using worker_split by (metis pool.select_convs(3) pool.surjective pool.update_convs(2,3))
  have d: "distinct (map fst (active us @ (i, c) # active vs))"
    using assms(2) Receive(4) unfolding pool_ok_def ws(1) by auto
  have "pool_ok room p'" using assms(2) Receive(1,4) unfolding pool_ok_def ws by auto
  moreover have "running p' = (running p)(i \<mapsto> c)" using map_of_middle [OF d] by (simp add: running_def ws)
  moreover have "waiting p' = waiting p - {i}" "i \<in> waiting p"
    using assms(2) Receive(1,4) by (auto simp: waiting_def pool_ok_def)
  ultimately show ?thesis using run_step.Start [of i "waiting p" start s c s' "next" "running p"] Receive(1,5) by auto
next
  case (Work w i c c')
  then obtain us vs where ws: "pl_workers p = us @ Some (i, c) # vs" "pl_workers p' = us @ map_option (Pair i) c' # vs"
    using worker_split by (metis pool.select_convs(3) pool.surjective pool.update_convs(3))
  have d: "distinct (map fst (active us @ (i, c) # active vs))"
    using assms(2) unfolding pool_ok_def ws(1) by auto
  have "running p i = Some c" using map_of_middle [OF d] by (simp add: running_def ws)
  moreover have "running p' = (running p)(i := c')"
  proof (cases c')
    case None
    then show ?thesis using map_of_removed [OF d] by (simp add: running_def ws)
  next
    case (Some d')
    have "distinct (map fst (active us @ (i, d') # active vs))" using d by simp
    from map_of_middle [OF this] map_of_middle [OF d] Some show ?thesis by (simp add: running_def ws)
  qed
  moreover have "waiting p' = waiting p" "pl_unsent p' = pl_unsent p" "pl_chan p' = pl_chan p"
    using Work(1) by (simp_all add: waiting_def)
  moreover from this have "pool_ok room p'"
    using assms(2) unfolding pool_ok_def ws by (cases c') auto
  ultimately show ?thesis using run_step.Next [of "running p" i c "next" s c' s' start "waiting p"] Work(1,4) by auto
qed

lemma pool_runs_refine:
  assumes "rtranclp (pool_step room start next) (s, p) (s', p')" "pool_ok room p"
  shows "pool_ok room p' \<and> length (pl_workers p') = length (pl_workers p) \<and>
    rtranclp (run_step start next) (s, running p, waiting p) (s', running p', waiting p')"
  using assms
proof (induction "(s', p')" arbitrary: s' p' rule: rtranclp_induct)
  case base
  then show ?case by simp
next
  case (step sp)
  obtain s1 p1 where sp: "sp = (s1, p1)" by fastforce
  from step.hyps(3) [OF sp step.prems] have one: "pool_ok room p1" "length (pl_workers p1) = length (pl_workers p)"
    "rtranclp (run_step start next) (s, running p, waiting p) (s1, running p1, waiting p1)" by simp_all
  from pool_refines [OF step.hyps(2) [unfolded sp] one(1)] one(2,3) show ?case
    by (auto intro: rtranclp.rtrancl_into_rtrancl)
qed

lemma new_pool_ok: "distinct is \<Longrightarrow> length is \<le> room \<Longrightarrow> pool_ok room (new_pool workers is)"
  by (simp add: pool_ok_def new_pool_def)

lemma new_pool_simps:
  "running (new_pool workers is) = Map.empty" "waiting (new_pool workers is) = set is"
  by (simp_all add: running_def waiting_def new_pool_def)

lemma idle_simps:
  assumes "idle p"
  shows "running p = Map.empty" "waiting p = {}"
proof -
  have "active (pl_workers p) = []"
    using assms set_active [of _ "pl_workers p"] by (auto simp: idle_def) (metis set_active equals0I set_empty subsetD
      singletonD option.distinct(1))
  then show "running p = Map.empty" by (simp add: running_def)
  show "waiting p = {}" using assms by (simp add: idle_def waiting_def)
qed

text \<open>A send never blocks: the channel has room while something is to be sent.\<close>

lemma send_enabled:
  assumes "pool_ok room p" "pl_unsent p \<noteq> []"
  shows "\<exists>p'. pool_step room start next (s, p) (s, p')"
proof -
  obtain i "is" where i: "pl_unsent p = i # is" using assms(2) by (cases "pl_unsent p") auto
  with assms(1) have "length (pl_chan p) < room" by (simp add: pool_ok_def)
  from pool_step.Send [OF i this] show ?thesis by (rule exI)
qed

lemma pool_no_deadlock:
  assumes ok: "pool_ok room p" and workers: "pl_workers p \<noteq> []" and busy: "\<not> idle p"
    and start: "\<And>i. i \<in> waiting p \<Longrightarrow> \<exists>c s'. start i s = Inr (c, s')"
    and more: "\<And>i c. running p i = Some c \<Longrightarrow> \<exists>c' s'. next i c s = Inr (c', s')"
  shows "\<exists>s' p'. pool_step room start next (s, p) (s', p')"
proof (cases "active (pl_workers p)")
  case (Cons x xs)
  obtain i c where x: "x = (i, c)" by fastforce
  have "Some (i, c) \<in> set (pl_workers p)" using Cons x by (simp flip: set_active)
  then obtain w where w: "w < length (pl_workers p)" "pl_workers p ! w = Some (i, c)" by (auto simp: in_set_conv_nth)
  have "running p i = Some c" using Cons x by (simp add: running_def)
  from more [OF this] obtain c' s' where "next i c s = Inr (c', s')" by blast
  from pool_step.Work [of w p i c "next" s c' s', OF w this] show ?thesis by (intro exI)
next
  case Nil
  then have "set (pl_workers p) \<subseteq> {None}" using set_active [of _ "pl_workers p"] by (metis empty_iff empty_set insertCI not_None_eq subsetI)
  with busy have left: "pl_unsent p \<noteq> [] \<or> pl_chan p \<noteq> []" by (auto simp: idle_def)
  show ?thesis
  proof (cases "pl_chan p")
    case Nil
    with left send_enabled [OF ok, of start "next" s] show ?thesis by auto
  next
    case (Cons i "is")
    have w: "0 < length (pl_workers p)" "pl_workers p ! 0 = None"
      using workers \<open>set (pl_workers p) \<subseteq> {None}\<close> by (auto simp: subset_iff in_set_conv_nth)
    from Cons start [of i] obtain c s' where "start i s = Inr (c, s')" by (auto simp: waiting_def)
    from pool_step.Receive [of 0 p i "is" start s c s', OF w Cons this] show ?thesis by (intro exI)
  qed
qed

text \<open>No worker can run into a panic with what it takes next.\<close>

definition sound_pool ::
  "(nat \<Rightarrow> 's \<Rightarrow> go_panic + 'c \<times> 's) \<Rightarrow> (nat \<Rightarrow> 'c \<Rightarrow> 's \<Rightarrow> go_panic + 'c option \<times> 's) \<Rightarrow> 's \<Rightarrow> 'c pool \<Rightarrow> bool" where
  "sound_pool start next s p \<longleftrightarrow> (\<forall>i\<in>waiting p. \<not> isl (start i s)) \<and>
     (\<forall>i c. running p i = Some c \<longrightarrow> \<not> isl (next i c s))"

section \<open>Jobs one after the other\<close>

text \<open>One worker is enough to carry out the jobs in the order in which they are sent.\<close>

lemma pool_job:
  assumes "job next i (c, s) s'" "ws = map_option (Pair i) c # replicate n None"
  shows "rtranclp (pool_step room start next) (s, p\<lparr>pl_workers := ws\<rparr>) (s', p\<lparr>pl_workers := replicate (Suc n) None\<rparr>)"
  using assms
proof (induction "(c, s)" s' arbitrary: c s ws rule: job.induct)
  case (Done s)
  then show ?case by simp
next
  case (More c s c' s' s'')
  have "pool_step room start next (s, p\<lparr>pl_workers := ws\<rparr>)
      (s', p\<lparr>pl_workers := map_option (Pair i) c' # replicate n None\<rparr>)"
    using pool_step.Work [of 0 "p\<lparr>pl_workers := ws\<rparr>" i c "next" s c' s' room start] More by simp
  with More.hyps(3) [OF refl] show ?case by (rule converse_rtranclp_into_rtranclp [rotated])
qed

lemma pool_jobs:
  assumes "jobs start next is s s'" "0 < workers" "0 < room"
  shows "\<exists>p'. rtranclp (pool_step room start next) (s, new_pool workers is) (s', p') \<and> idle p'"
  using assms(1)
proof (induction rule: jobs.induct)
  case (Nil s)
  have "idle (new_pool workers [])" by (auto simp: idle_def new_pool_def)
  then show ?case by blast
next
  case (Cons i s c s1 s2 "is" s')
  obtain n where n: "workers = Suc n" using assms(2) by (cases workers) auto
  let ?p = "\<lparr>pl_unsent = is, pl_chan = [], pl_workers = replicate workers None\<rparr> :: 'b pool"
  have "pool_step room start next (s, new_pool workers (i # is)) (s, ?p\<lparr>pl_chan := [i]\<rparr>)"
    using pool_step.Send [of "new_pool workers (i # is)" i "is" room start "next" s] assms(3) by (simp add: new_pool_def)
  moreover have "pool_step room start next (s, ?p\<lparr>pl_chan := [i]\<rparr>) (s1, ?p\<lparr>pl_workers := Some (i, c) # replicate n None\<rparr>)"
    using pool_step.Receive [of 0 "?p\<lparr>pl_chan := [i]\<rparr>" i "[]" start s c s1 room "next"] Cons.hyps(1) n by simp
  moreover have "rtranclp (pool_step room start next) (s1, ?p\<lparr>pl_workers := Some (i, c) # replicate n None\<rparr>) (s2, ?p)"
    using pool_job [OF Cons.hyps(2), of _ n room start ?p] n by simp
  ultimately have "rtranclp (pool_step room start next) (s, new_pool workers (i # is)) (s2, new_pool workers is)"
    unfolding new_pool_def by (meson converse_rtranclp_into_rtranclp)
  with Cons.IH show ?case by (meson rtranclp_trans)
qed

section \<open>Pools that come to an end\<close>

text \<open>
  The work that is left: the jobs that wait, and the multiset of what is left of the jobs that run.
  A step takes a job from the first, or replaces an element of the second by a smaller one.
\<close>

definition work_left :: "'s \<times> (nat \<rightharpoonup> 'c) \<times> nat set \<Rightarrow> nat \<times> 'c multiset" where
  "work_left ph = (case ph of (s, R, T) \<Rightarrow> (card T, image_mset (\<lambda>i. the (R i)) (mset_set (dom R))))"

lemma run_step_work:
  assumes "run_step start next (s, R, T) ph'" "finite T" "finite (dom R)"
    and smaller: "\<And>i c s c' s'. next i c s = Inr (Some c', s') \<Longrightarrow> (c', c) \<in> r"
  shows "(work_left ph', work_left (s, R, T)) \<in> less_than <*lex*> mult r"
  using assms(1)
proof (cases rule: run_step.cases)
  case (Start i c s')
  then have "card (T - {i}) < card T" using assms(2) by (intro card_Diff1_less)
  with Start show ?thesis by (simp add: work_left_def)
next
  case (Next i c c' s')
  let ?left = "\<lambda>R. image_mset (\<lambda>i. the (R i)) (mset_set (dom R))"
    and ?M = "image_mset (\<lambda>i. the (R i)) (mset_set (dom R - {i}))"
  have dom: "dom R = insert i (dom R - {i})" using Next(2) by auto
  then have "?left R = add_mset c ?M"
    using Next(2) assms(3) by (metis (no_types, lifting) Diff_iff finite_Diff image_mset_add_mset insertI1
      mset_set.insert option.sel)
  moreover have rest: "image_mset (\<lambda>j. the ((R(i := c')) j)) (mset_set (dom R - {i})) = ?M"
    using assms(3) by (intro image_mset_cong) simp
  have "?left (R(i := c')) = (case c' of None \<Rightarrow> ?M | Some d \<Rightarrow> add_mset d ?M)"
    using rest assms(3) by (cases c') (simp_all del: mset_set.insert add: mset_set.insert_remove)
  moreover have "(case c' of None \<Rightarrow> ?M | Some d \<Rightarrow> add_mset d ?M, add_mset c ?M) \<in> mult r"
    using smaller [of i c s _ s'] Next(3) one_step_implies_mult [of "{#c#}" "case c' of None \<Rightarrow> {#} | Some d \<Rightarrow> {#d#}" r ?M]
    by (cases c') auto
  ultimately show ?thesis using Next by (simp add: work_left_def)
qed

text \<open>
  What makes a pool reliable: an invariant of the jobs under which none of them is stuck, and a
  well-founded relation in which every piece of a job gets smaller what is left of it.
\<close>

locale job_system =
  fixes start :: "nat \<Rightarrow> 's \<Rightarrow> go_panic + 'c \<times> 's"
    and "next" :: "nat \<Rightarrow> 'c \<Rightarrow> 's \<Rightarrow> go_panic + 'c option \<times> 's"
    and inv :: "'s \<times> (nat \<rightharpoonup> 'c) \<times> nat set \<Rightarrow> bool"
    and r :: "('c \<times> 'c) set"
  assumes preserved: "run_step start next ph ph' \<Longrightarrow> inv ph \<Longrightarrow> inv ph'"
    and starts: "inv (s, R, T) \<Longrightarrow> i \<in> T \<Longrightarrow> \<exists>c s'. start i s = Inr (c, s')"
    and goes_on: "inv (s, R, T) \<Longrightarrow> R i = Some c \<Longrightarrow> \<exists>c' s'. next i c s = Inr (c', s')"
    and finite_jobs: "inv (s, R, T) \<Longrightarrow> finite T \<and> finite (dom R)"
    and smaller: "next i c s = Inr (Some c', s') \<Longrightarrow> (c', c) \<in> r"
    and wf_left: "wf r"
begin

lemma less_work:
  assumes "run_step start next ph ph'" "inv ph"
  shows "(work_left ph', work_left ph) \<in> less_than <*lex*> mult r"
  using assms finite_jobs by (cases ph) (auto intro!: run_step_work smaller simp del: in_lex_prod)

lemma runs_preserved:
  assumes "rtranclp (run_step start next) ph ph'" "inv ph"
  shows "inv ph'"
  using assms by (induction rule: rtranclp_induct) (auto intro: preserved)

lemma pool_preserved:
  assumes "rtranclp (pool_step room start next) (s, p) (s', p')" "pool_ok room p" "inv (s, running p, waiting p)"
  shows "inv (s', running p', waiting p')"
  using pool_runs_refine [OF assms(1,2)] runs_preserved assms(3) by blast

lemma pool_sound: "inv (s, running p, waiting p) \<Longrightarrow> sound_pool start next s p"
  using starts [of s "running p" "waiting p"] goes_on [of s "running p" "waiting p"]
  unfolding sound_pool_def by (metis sum.disc(2))

text \<open>No run of the pool is infinite, and every run can only end with the pool idle.\<close>

definition pool_work :: "'s \<times> 'c pool \<Rightarrow> (nat \<times> 'c multiset) \<times> nat" where
  "pool_work sp = (case sp of (s, p) \<Rightarrow> (work_left (s, running p, waiting p), length (pl_unsent p)))"

lemma pool_less_work:
  assumes "pool_step room start next (s, p) (s', p')" "pool_ok room p" "inv (s, running p, waiting p)"
  shows "(pool_work (s', p'), pool_work (s, p)) \<in> (less_than <*lex*> mult r) <*lex*> less_than"
  using pool_refines [OF assms(1,2)] less_work [OF _ assms(3)] by (auto simp: pool_work_def)

lemma pool_terminates:
  "wf {((s', p'), (s, p)). pool_step room start next (s, p) (s', p') \<and> pool_ok room p \<and> inv (s, running p, waiting p)}"
proof (rule wf_subset)
  show "wf (inv_image ((less_than <*lex*> mult r) <*lex*> less_than) pool_work)"
    by (intro wf_inv_image wf_lex_prod wf_less_than wf_mult wf_left)
qed (auto simp del: in_lex_prod dest: pool_less_work)

lemma pool_completes:
  assumes "pool_ok room p" "pl_workers p \<noteq> []" "inv (s, running p, waiting p)"
  shows "\<exists>s' p'. rtranclp (pool_step room start next) (s, p) (s', p') \<and> idle p'"
  using assms
proof (induction "(s, p)" arbitrary: s p rule: wf_induct_rule [OF pool_terminates [of room]])
  case (1 s p)
  show ?case
  proof (cases "idle p")
    case False
    obtain s1 p1 where step: "pool_step room start next (s, p) (s1, p1)"
      using pool_no_deadlock [OF 1(2,3) False, of start s "next"] starts [OF 1(4)] goes_on [OF 1(4)] by metis
    from pool_refines [OF step 1(2)] 1(3) have p1: "pool_ok room p1" "pl_workers p1 \<noteq> []" by auto
    have "inv (s1, running p1, waiting p1)" by (rule pool_preserved [OF r_into_rtranclp [of "pool_step room start next", OF step] 1(2,4)])
    with 1(1) [of s1 p1] step 1(2,4) p1 obtain s' p' where
      "rtranclp (pool_step room start next) (s1, p1) (s', p')" "idle p'" by auto
    with step show ?thesis by (blast intro: converse_rtranclp_into_rtranclp)
  qed blast
qed

lemma pool_run_finite:
  assumes "pool_ok room p" "inv (s, running p, waiting p)"
  shows "\<not> (\<exists>f. f 0 = (s, p) \<and> (\<forall>k. pool_step room start next (f k) (f (Suc k))))"
proof
  assume "\<exists>f. f 0 = (s, p) \<and> (\<forall>k. pool_step room start next (f k) (f (Suc k)))"
  then obtain f where f: "f 0 = (s, p)" "\<And>k. pool_step room start next (f k) (f (Suc k))" by blast
  let ?r = "{((s', p'), (s, p)). pool_step room start next (s, p) (s', p') \<and> pool_ok room p \<and> inv (s, running p, waiting p)}"
  have "rtranclp (pool_step room start next) (f 0) (f k)" for k
    by (induction k) (auto intro: rtranclp.rtrancl_into_rtrancl f(2))
  then have ok: "pool_ok room (snd (f k))" "inv (fst (f k), running (snd (f k)), waiting (snd (f k)))" for k
    using pool_runs_refine [of room start "next" s p "fst (f k)" "snd (f k)"]
      pool_preserved [of room s p "fst (f k)" "snd (f k)"] assms f(1) by simp_all
  have "(f (Suc k), f k) \<in> ?r" for k using f(2) [of k] ok [of k] by (cases "f k"; cases "f (Suc k)") auto
  then show False using pool_terminates [of room] by (metis (no_types, lifting) wf_iff_no_infinite_down_chain)
qed

end

end
