(* ===== verification/Exec_Jobs.thy ===== *)
theory Exec_Jobs
  imports Exec_Phase Publication Workers
begin

text \<open>
  The closures of \<open>executeAll\<close> as jobs of the worker pool, cut at every access to what the tasks
  share: the start of a task, each look of a hook into the store, the close of its abort channel with the change of its status,
  and each access of the publication of its writeset. While a publication is under way the store is
  in a state no method of \<open>Store\<close> leaves behind: the invariant relates it to the store in which every
  publication that was begun is complete, for which the invariant of the phase holds.
\<close>

section \<open>The pieces of a closure\<close>

text \<open>A task at work: the EVM runs its transaction, or its writeset is being published.\<close>

datatype ('s, 'rc, 'tc) execution = Running "('s, 'rc, 'tc) inflight" | Publishing int "store_op list"

definition startTask ::
  "('s, 'tx) kaia \<Rightarrow> ('s, 'tx, 'rc, 'tc, 'c, 'h) blockchain \<Rightarrow> 'c \<Rightarrow> 'h \<Rightarrow> nat \<Rightarrow>
   ('s, 't, 'tx, 'rc, 'tc) scheduler \<Rightarrow> go_panic + ('s, 'rc, 'tc) execution \<times> ('s, 't, 'tx, 'rc, 'tc) scheduler" where
  "startTask K bc config header i sc =
     pbind (beginTask K bc config header i sc) (\<lambda>(fl, sc). Inr (Running fl, sc))"

definition closeTask ::
  "('s, 'tx) kaia \<Rightarrow> ('s, 'rc, 'tc) inflight \<Rightarrow> nat \<Rightarrow> ('s, 't, 'tx, 'rc, 'tc) scheduler \<Rightarrow>
   go_panic + ('s, 'rc, 'tc) execution \<times> ('s, 't, 'tx, 'rc, 'tc) scheduler" where
  "closeTask K fl i sc =
     (let sc = updTask i (\<lambda>t. t\<lparr>t_UsedGas := fl_gas fl, t_State := Some (if isl (fl_out fl)
                 then sdb_RevertToSnapshot K (fl_state fl) (fl_snap fl) else fl_state fl)\<rparr>) sc in
      case fl_out fl of
        Inl err \<Rightarrow> Inr (Publishing (t_AbsoluteIndex (task_at sc i)) [], sc)
      | Inr out \<Rightarrow> pbind (concludeTask out i sc) (\<lambda>((aborted, a), sc).
          Inr (Publishing (tr_transactionIndex a) (publishOps aborted a), sc)))"

text \<open>What a worker does next with a task; the last piece is the \<open>wg.Done()\<close> of the closure.\<close>

definition nextTask ::
  "'t vtree \<Rightarrow> ('s, 'tx) kaia \<Rightarrow> nat \<Rightarrow> ('s, 'rc, 'tc) execution \<Rightarrow> ('s, 't, 'tx, 'rc, 'tc) scheduler \<Rightarrow>
   go_panic + ('s, 'rc, 'tc) execution option \<times> ('s, 't, 'tx, 'rc, 'tc) scheduler" where
  "nextTask B K i c sc =
     (case c of
        Running fl \<Rightarrow>
          (case fl_ops fl of
             op # ops \<Rightarrow> pbind (opTask B K i op sc) (\<lambda>sc. Inr (Some (Running (fl\<lparr>fl_ops := ops\<rparr>)), sc))
           | [] \<Rightarrow>
               (case fl_hooks fl of
                  h # hs \<Rightarrow> pbind (openHook K i h sc) (\<lambda>(ops, sc).
                    Inr (Some (Running (fl\<lparr>fl_ops := ops, fl_hooks := hs\<rparr>)), sc))
                | [] \<Rightarrow> pbind (closeTask K fl i sc) (\<lambda>(c, sc). Inr (Some c, sc))))
      | Publishing index ops \<Rightarrow>
          (case ops of
             [] \<Rightarrow> Inr (None, sc)
           | op # ops \<Rightarrow> withStore sc (\<lambda>s. case storeOp B index op s of (new, s') \<Rightarrow>
               Inr (Some (Publishing index (new @ ops)), updStore s' sc))))"

abbreviation exec_step ::
  "'t vtree \<Rightarrow> ('s, 'tx) kaia \<Rightarrow> ('s, 'tx, 'rc, 'tc, 'c, 'h) blockchain \<Rightarrow> 'c \<Rightarrow> 'h \<Rightarrow>
   ('s, 't, 'tx, 'rc, 'tc) scheduler \<times> (nat \<rightharpoonup> ('s, 'rc, 'tc) execution) \<times> nat set \<Rightarrow>
   ('s, 't, 'tx, 'rc, 'tc) scheduler \<times> (nat \<rightharpoonup> ('s, 'rc, 'tc) execution) \<times> nat set \<Rightarrow> bool" where
  "exec_step B K bc config header \<equiv> run_step (startTask K bc config header) (nextTask B K)"

text \<open>Only the publication touches the store; the other pieces are the same over another store.\<close>

lemma concludeTask_updStore:
  "concludeTask out i (updStore s sc) = map_sum id (\<lambda>(x, sc). (x, updStore s sc)) (concludeTask out i sc)"
  by (auto simp: concludeTask_def Let_def updTask_updStore split: option.splits prod.splits)

lemma closeTask_updStore:
  "closeTask K fl i (updStore s sc) = map_sum id (\<lambda>(c, sc). (c, updStore s sc)) (closeTask K fl i sc)"
  by (auto simp: closeTask_def Let_def concludeTask_updStore pbind_def simp flip: updTask_updStore split: sum.splits)

lemma beginTask_updStore:
  assumes "sc_multiVersionStores sc = Some s" "beginTask K bc config header i sc = Inr (fl, sc')" "i < length (sc_allTasks sc)"
  shows "sc_multiVersionStores sc' = Some (s\<lparr>parentStore := sc_state sc'\<rparr>)"
    "beginTask K bc config header i (updStore s' sc) = Inr (fl, updStore (s'\<lparr>parentStore := sc_state sc'\<rparr>) sc')"
  using assms
  by (auto simp: beginTask_def prepareTask_def withStore_def Let_def task_at_updTask shareState_def updStore_def
      updTask_def task_at_def split: prod.splits)

text \<open>The close of a task and the accesses it leaves, taken together, are its end in one step.\<close>

lemma concludeTask_tracer:
  assumes "concludeTask out i sc = Inr ((aborted, a), sc')"
  shows "\<exists>a0. t_VersionStores (task_at sc i) = Some a0 \<and> tr_transactionIndex a = tr_transactionIndex a0 \<and>
    tr_writeset a = tr_writeset a0 \<and> sc_multiVersionStores sc' = sc_multiVersionStores sc \<and> sc_state sc' = sc_state sc"
  using assms by (auto simp: concludeTask_def Let_def split: option.splits prod.splits if_splits)

lemma endTask_close:
  assumes "sc_multiVersionStores sc = Some s" "closeTask K fl i sc = Inr (c, sc1)"
  obtains index ops s' where "c = Publishing index ops" "run_ops (storeOp B index) ops s s'"
    "endTask B K fl i sc = Inr (updStore s' sc1)" "sc_multiVersionStores sc1 = Some s" "sc_state sc1 = sc_state sc"
proof (cases "fl_out fl")
  case (Inl err)
  with assms show ?thesis
    by (intro that [OF _ run_ops.Nil]) (auto simp: closeTask_def endTask_def Let_def updStore_id)
next
  case (Inr out)
  let ?sc = "updTask i (\<lambda>t. t\<lparr>t_UsedGas := fl_gas fl, t_State := Some (if isl (fl_out fl)
      then sdb_RevertToSnapshot K (fl_state fl) (fl_snap fl) else fl_state fl)\<rparr>) sc"
  from assms(2) Inr obtain aborted a where c: "concludeTask out i ?sc = Inr ((aborted, a), sc1)"
    "c = Publishing (tr_transactionIndex a) (publishOps aborted a)"
    by (auto simp: closeTask_def Let_def pbind_eq_Inr)
  have sc1: "sc_multiVersionStores sc1 = Some s" "sc_state sc1 = sc_state sc"
    using concludeTask_tracer [OF c(1)] assms(1) by auto
  then have "endTask B K fl i sc = Inr (updStore (if aborted then WriteEstimatesToMultiVersionStore B a s
      else WriteToMultiVersionStore B a s) sc1)"
    using Inr c(1) by (simp add: endTask_def Let_def finishTask_def withStore_def)
  with that [OF c(2) run_publishOps _ sc1] show ?thesis by blast
qed

lemma closeTask_ops:
  assumes "closeTask K fl i sc = Inr (Publishing index ops, sc1)" "i < length (sc_allTasks sc)"
    and "t_VersionStores (task_at sc i) = Some a" "t_AbsoluteIndex (task_at sc i) = tr_transactionIndex a"
  shows "index = tr_transactionIndex a \<and> ops_keys ops \<subseteq> fset (fmdom (tr_writeset a))"
proof (cases "fl_out fl")
  case (Inl err)
  with assms show ?thesis by (auto simp: closeTask_def Let_def task_at_updTask)
next
  case (Inr out)
  with assms show ?thesis
    by (auto simp: closeTask_def Let_def pbind_eq_Inr task_at_updTask ops_keys_publish dest!: concludeTask_tracer)
qed

lemma endTask_Inl: "closeTask K fl i sc = Inl e \<Longrightarrow> endTask B K fl i sc = Inl e"
  by (auto simp: closeTask_def endTask_def Let_def finishTask_def pbind_def split: sum.splits)

lemma ops_job:
  assumes "run_ops (storeOp B index) ops s s'" "sc_multiVersionStores sc = Some s"
  shows "job (nextTask B K) i (Some (Publishing index ops), sc) (updStore s' sc)"
  using assms
proof (induction arbitrary: sc rule: run_ops.induct)
  case (Nil s)
  then show ?case by (intro job.More [of _ _ _ _ None sc]) (simp_all add: nextTask_def updStore_id job.Done)
next
  case (Cons op s new s1 ops s')
  have "nextTask B K i (Publishing index (op # ops)) sc = Inr (Some (Publishing index (new @ ops)), updStore s1 sc)"
    using Cons.hyps(1) Cons.prems by (simp add: nextTask_def withStore_def)
  moreover from Cons.IH [of "updStore s1 sc"]
  have "job (nextTask B K) i (Some (Publishing index (new @ ops)), updStore s1 sc) (updStore s' sc)" by simp
  ultimately show ?case by (rule job.More)
qed

section \<open>The invariant\<close>

definition running_part :: "(nat \<rightharpoonup> ('s, 'rc, 'tc) execution) \<Rightarrow> (nat \<rightharpoonup> ('s, 'rc, 'tc) inflight)" where
  "running_part C i = (case C i of Some (Running fl) \<Rightarrow> Some fl | _ \<Rightarrow> None)"

definition publishing :: "(nat \<rightharpoonup> ('s, 'rc, 'tc) execution) \<Rightarrow> nat set" where
  "publishing C = {i. \<exists>index ops. C i = Some (Publishing index ops)}"

text \<open>
  The store \<open>s\<close> against the store \<open>s'\<close> in which the publications are complete: they agree on the rows
  of all other transactions, and what is left of a publication leads from the one row to the other.
\<close>

definition publish_ok ::
  "'t vtree \<Rightarrow> ('s, 'tx) kaia \<Rightarrow> nat \<Rightarrow> (nat \<rightharpoonup> ('s, 'rc, 'tc) execution) \<Rightarrow> ('s, 't) Store \<Rightarrow> ('s, 't) Store \<Rightarrow> bool" where
  "publish_ok B K n C s s' \<longleftrightarrow>
     (\<forall>k\<in>fset (fmdom (multiVersionMap s)). canonical_key K k) \<and>
     (\<forall>j. j \<notin> int ` publishing C \<longrightarrow> row B s j = row B s' j) \<and>
     (\<forall>i index ops. C i = Some (Publishing index ops) \<longrightarrow> index = int i \<and> i < n \<and>
        (\<forall>k\<in>ops_keys ops. canonical_key K k) \<and> run_ops (rowOp index) ops (row B s index) (row B s' index))"

definition exec_inv ::
  "'t vtree \<Rightarrow> ('s, 'tx) kaia \<Rightarrow> ('s, 'tx, 'rc, 'tc, 'c, 'h) blockchain \<Rightarrow> 'c \<Rightarrow> 'h \<Rightarrow> (StorageKey \<Rightarrow> hash) \<Rightarrow>
   (StorageKey \<Rightarrow> hash) \<Rightarrow> 'tx list \<Rightarrow> nat \<Rightarrow>
   ('s, 't, 'tx, 'rc, 'tc) scheduler \<times> (nat \<rightharpoonup> ('s, 'rc, 'tc) execution) \<times> nat set \<Rightarrow> bool" where
  "exec_inv B K bc config header V0 V txs L ph \<longleftrightarrow>
     (case ph of (sc, C, T) \<Rightarrow> dom C \<inter> T = {} \<and>
      (\<exists>s s'. sc_multiVersionStores sc = Some s \<and> parentStore s = sc_state sc \<and> publish_ok B K (length txs) C s s' \<and>
         phase_inv B K bc config header V0 V txs L (updStore s' sc, running_part C, T)))"

lemma exec_invI:
  assumes "dom C \<inter> T = {}" "sc_multiVersionStores sc = Some s" "parentStore s = sc_state sc"
    and "publish_ok B K (length txs) C s s'"
    and "phase_inv B K bc config header V0 V txs L (updStore s' sc, running_part C, T)"
  shows "exec_inv B K bc config header V0 V txs L (sc, C, T)"
  using assms unfolding exec_inv_def by blast

lemma running_part_upd:
  "running_part (C(i := Some (Running fl))) = (running_part C)(i \<mapsto> fl)"
  "running_part (C(i := Some (Publishing index ops))) = (running_part C)(i := None)"
  "running_part (C(i := None)) = (running_part C)(i := None)"
  by (auto simp: running_part_def fun_eq_iff)

lemma publishing_upd:
  "publishing (C(i := Some (Running fl))) = publishing C - {i}"
  "publishing (C(i := Some (Publishing index ops))) = insert i (publishing C)"
  "publishing (C(i := None)) = publishing C - {i}"
  by (auto simp: publishing_def split: if_splits)

text \<open>A task that is not publishing, before and after, does not matter.\<close>

lemma publish_ok_other:
  assumes "publish_ok B K n C s s'" "i \<notin> publishing C" "i \<notin> publishing (C(i := c))"
  shows "publish_ok B K n (C(i := c)) s s'"
proof -
  have "(C(i := c)) j = Some (Publishing index ops) \<longleftrightarrow> C j = Some (Publishing index ops)" for j index ops
    using assms(2,3) by (auto simp: publishing_def)
  then show ?thesis using assms(1) unfolding publish_ok_def publishing_def by simp
qed

lemma row_cong:
  "multiVersionMap s' = multiVersionMap s \<Longrightarrow> txWritesetKeys s' = txWritesetKeys s \<Longrightarrow> txReadSets s' = txReadSets s \<Longrightarrow>
   row B s' = row B s"
  by (simp add: row_def column_def store_versions_def fun_eq_iff)

lemma publish_ok_parent:
  assumes "publish_ok B K n C s s'"
  shows "publish_ok B K n C (s\<lparr>parentStore := st\<rparr>) (s'\<lparr>parentStore := st\<rparr>)"
proof -
  have "row B (x\<lparr>parentStore := st\<rparr>) = row B x" for x by (rule row_cong) simp_all
  with assms show ?thesis by (simp add: publish_ok_def)
qed

lemma row_column: "row B s j = row B s' j \<Longrightarrow> column B s j = column B s' j"
  by (simp add: row_def)

lemma publish_ok_visible:
  assumes "publish_ok B K n C s s'" "visible B n s'"
  shows "visible B n s"
  unfolding visible_def
proof (intro allI impI)
  fix j k it assume c: "column B s j k = Some it"
  show "0 \<le> j \<and> j < int n"
  proof (cases "j \<in> int ` publishing C")
    case True
    then obtain i index ops where i: "j = int i" "C i = Some (Publishing index ops)" by (auto simp: publishing_def)
    with assms(1) have "i < n" unfolding publish_ok_def by blast
    with i(1) show ?thesis by simp
  next
    case False
    with assms(1) have "column B s' j k = Some it" using c row_column [of B s j s'] by (simp add: publish_ok_def)
    with assms(2) show ?thesis by (auto simp: visible_def)
  qed
qed

text \<open>A step of a publication, or its beginning: only the row of its transaction changes.\<close>

lemma publish_ok_step:
  assumes ok: "publish_ok B K n C s s'" and i: "i < n" "\<forall>k\<in>ops_keys ops. canonical_key K k"
    and can: "\<forall>k\<in>fset (fmdom (multiVersionMap t)). canonical_key K k"
    and rows: "\<And>j. j \<noteq> int i \<Longrightarrow> row B t j = row B s j \<and> row B t' j = row B s' j"
    and left: "run_ops (rowOp (int i)) ops (row B t (int i)) (row B t' (int i))"
  shows "publish_ok B K n (C(i \<mapsto> Publishing (int i) ops)) t t'"
  unfolding publish_ok_def
proof (intro conjI can allI impI)
  let ?C = "C(i \<mapsto> Publishing (int i) ops)"
  show "row B t j = row B t' j" if "j \<notin> int ` publishing ?C" for j
    using that ok rows [of j] by (auto simp: publish_ok_def publishing_upd)
  fix j index ops' assume j: "?C j = Some (Publishing index ops')"
  have "index = int j \<and> j < n \<and> (\<forall>k\<in>ops_keys ops'. canonical_key K k) \<and>
      run_ops (rowOp index) ops' (row B t index) (row B t' index)"
  proof (cases "j = i")
    case True
    with j i left show ?thesis by auto
  next
    case False
    with j have "C j = Some (Publishing index ops')" by simp
    with ok have "index = int j \<and> j < n \<and> (\<forall>k\<in>ops_keys ops'. canonical_key K k) \<and>
        run_ops (rowOp index) ops' (row B s index) (row B s' index)" unfolding publish_ok_def by blast
    with False rows [of index] show ?thesis by auto
  qed
  then show "index = int j" "j < n" "\<forall>k\<in>ops_keys ops'. canonical_key K k"
    "run_ops (rowOp index) ops' (row B t index) (row B t' index)" by blast+
qed

text \<open>When nothing is being published, the invariant of the phase holds for the store itself.\<close>

context deterministic_evm
begin

lemma phase_inv_rows:
  assumes inv: "phase_inv B K bc config header V0 V txs L (updStore s' sc, R, T)" and s: "sc_multiVersionStores sc = Some s"
    and rows: "\<And>j. row B s j = row B s' j" and par: "parentStore s = sc_state sc"
    and can: "\<forall>k\<in>fset (fmdom (multiVersionMap s)). canonical_key K k"
  shows "phase_inv B K bc config header V0 V txs L (sc, R, T)"
proof -
  have so: "store_of sc = s" using s by (simp add: store_of_def)
  have rinv: "round_inv B K (traced_effects B K bc config header) V0 txs L (updStore s' sc)"
    and pre: "prefix_settled B V0 (length txs) (updStore s' sc)" using inv by (simp_all add: phase_inv_def)
  have same: "column B s = column B s'" "txWritesetKeys s = txWritesetKeys s'" "txReadSets s = txReadSets s'"
    using rows by (auto simp: row_def fun_eq_iff intro: fmap_ext)
  have "store_ok B K (length txs) s'" using rinv by (simp add: round_inv_def sane_def)
  then have "store_ok B K (length txs) s" using can by (simp add: store_ok_def store_inv_def recorded_keys_def same)
  then have "sane B K txs sc" using rinv s par by (simp add: round_inv_def sane_def so)
  moreover have "coherent B (traced_effects B K bc config header) sc i =
      coherent B (traced_effects B K bc config header) (updStore s' sc) i" for i
    by (rule coherent_cong) (simp_all add: so same)
  ultimately have "round_inv B K (traced_effects B K bc config header) V0 txs L sc"
    using rinv by (simp add: round_inv_def so same)
  moreover have "settled B V0 sc i = settled B V0 (updStore s' sc) i" for i
    by (rule settled_cong) (simp_all add: so same)
  then have "prefix_settled B V0 (length txs) sc" using pre by (simp add: prefix_settled_def)
  ultimately show ?thesis using inv by (simp add: phase_inv_def running_ok_def)
qed

lemma exec_inv_end:
  assumes "exec_inv B K bc config header V0 V txs L (sc, Map.empty, {})"
  shows "phase_inv B K bc config header V0 V txs L (sc, Map.empty, {})"
proof -
  obtain s s' where s: "sc_multiVersionStores sc = Some s" "parentStore s = sc_state sc"
    "publish_ok B K (length txs) (Map.empty :: nat \<rightharpoonup> ('s, 'rc, 'tc) execution) s s'"
    "phase_inv B K bc config header V0 V txs L (updStore s' sc, running_part (Map.empty :: nat \<rightharpoonup> ('s, 'rc, 'tc) execution), {})"
    using assms by (auto simp: exec_inv_def)
  have "running_part (Map.empty :: nat \<rightharpoonup> ('s, 'rc, 'tc) execution) = Map.empty" by (simp add: running_part_def fun_eq_iff)
  with s(4) have "phase_inv B K bc config header V0 V txs L (updStore s' sc, Map.empty, {})" by simp
  from phase_inv_rows [OF this s(1)] s show ?thesis by (simp add: publish_ok_def publishing_def)
qed

lemma exec_inv_start:
  assumes "phase_inv B K bc config header V0 V txs L (sc, Map.empty, T)"
  shows "exec_inv B K bc config header V0 V txs L (sc, Map.empty, T)"
proof -
  have sane: "sane B K txs sc" using assms by (simp add: phase_inv_def round_inv_def)
  then have s: "sc_multiVersionStores sc = Some (store_of sc)" by (simp add: sane_def)
  have "publish_ok B K (length txs) (Map.empty :: nat \<rightharpoonup> ('s, 'rc, 'tc) execution) (store_of sc) (store_of sc)"
    using sane by (simp add: publish_ok_def sane_def store_ok_def)
  moreover have "running_part (Map.empty :: nat \<rightharpoonup> ('s, 'rc, 'tc) execution) = Map.empty" by (simp add: running_part_def fun_eq_iff)
  ultimately show ?thesis
    using sane s assms by (intro exec_invI [where s = "store_of sc" and s' = "store_of sc"]) (simp_all add: sane_def updStore_id)
qed

section \<open>The pieces keep the invariant\<close>

lemma start_exec:
  assumes "exec_inv B K bc config header V0 V txs L (sc, C, T)" "i \<in> T"
  shows "\<exists>c sc'. startTask K bc config header i sc = Inr (c, sc') \<and>
    exec_inv B K bc config header V0 V txs L (sc', C(i \<mapsto> c), T - {i})"
proof -
  obtain s s' where s: "sc_multiVersionStores sc = Some s" "parentStore s = sc_state sc" "publish_ok B K (length txs) C s s'"
    and inv: "phase_inv B K bc config header V0 V txs L (updStore s' sc, running_part C, T)" and dom: "dom C \<inter> T = {}"
    using assms(1) by (auto simp: exec_inv_def)
  from begin_phase [OF inv assms(2)] obtain fl sc1 where b: "beginTask K bc config header i (updStore s' sc) = Inr (fl, sc1)"
    "phase_inv B K bc config header V0 V txs L (sc1, (running_part C)(i \<mapsto> fl), T - {i})" by blast
  have "i < length txs" "length (sc_allTasks sc) = length txs"
    using inv assms(2) by (auto simp: phase_inv_def round_inv_def sane_def)
  then have "i < length (sc_allTasks (updStore s' sc))" by simp
  note other = beginTask_updStore [OF _ b(1) this, of s', simplified]
  let ?s = "s\<lparr>parentStore := sc_state sc1\<rparr>" and ?s' = "s'\<lparr>parentStore := sc_state sc1\<rparr>"
  have iC: "C i = None" using assms(2) dom by (auto simp: domIff)
  then have "publish_ok B K (length txs) (C(i \<mapsto> Running fl)) ?s ?s'"
    by (intro publish_ok_other publish_ok_parent s(3)) (auto simp: publishing_def)
  moreover have "updStore ?s' (updStore ?s sc1) = sc1" using other(1) by (simp add: updStore_id)
  ultimately have "exec_inv B K bc config header V0 V txs L (updStore ?s sc1, C(i \<mapsto> Running fl), T - {i})"
    using dom b(2) by (intro exec_invI [where s = ?s and s' = ?s']) (auto simp: running_part_upd)
  moreover have "startTask K bc config header i sc = Inr (Running fl, updStore ?s sc1)"
    using other(2) [of s] s(1) by (simp add: startTask_def updStore_id)
  ultimately show ?thesis by blast
qed

text \<open>A new state of the tracer of a running task.\<close>

lemma tracer_exec:
  assumes s: "sc_multiVersionStores sc = Some s" "parentStore s = sc_state sc" "publish_ok B K (length txs) C s s'"
    and dom: "dom C \<inter> T = {}" and c: "C i = Some (Running fl)"
    and inv: "phase_inv B K bc config header V0 V txs L
      (updTask i (\<lambda>t. t\<lparr>t_VersionStores := Some a'\<rparr>) (updStore s' sc), (running_part C)(i \<mapsto> fl'), T)"
  shows "exec_inv B K bc config header V0 V txs L
    (updTask i (\<lambda>t. t\<lparr>t_VersionStores := Some a'\<rparr>) sc, C(i \<mapsto> Running fl'), T)"
proof -
  have "publish_ok B K (length txs) (C(i \<mapsto> Running fl')) s s'"
    using c by (intro publish_ok_other s(3)) (auto simp: publishing_def)
  moreover have "i \<notin> T" using c dom by (auto simp: domIff)
  ultimately show ?thesis
    using s dom inv by (intro exec_invI [where s = s and s' = s']) (auto simp: running_part_upd updTask_updStore)
qed

lemma look_exec:
  assumes "exec_inv B K bc config header V0 V txs L (sc, C, T)" "C i = Some (Running fl)" "fl_ops fl = op # ops"
  shows "\<exists>sc'. opTask B K i op sc = Inr sc' \<and>
    exec_inv B K bc config header V0 V txs L (sc', C(i \<mapsto> Running (fl\<lparr>fl_ops := ops\<rparr>)), T)"
proof -
  obtain s s' where s: "sc_multiVersionStores sc = Some s" "parentStore s = sc_state sc" "publish_ok B K (length txs) C s s'"
    and inv: "phase_inv B K bc config header V0 V txs L (updStore s' sc, running_part C, T)" and dom: "dom C \<inter> T = {}"
    using assms(1) by (auto simp: exec_inv_def)
  have "visible B (length txs) s'"
    using inv store_ok_visible [of B K _ s'] by (simp add: phase_inv_def round_inv_def sane_def)
  then have vis: "visible B (length txs) s" by (rule publish_ok_visible [OF s(3)])
  have fl: "running_part C i = Some fl" using assms(2) by (simp add: running_part_def)
  obtain a a' where a: "t_VersionStores (task_at sc i) = Some a" "tracerOp B K s op a = Inr a'"
    "phase_inv B K bc config header V0 V txs L (updTask i (\<lambda>t. t\<lparr>t_VersionStores := Some a'\<rparr>) (updStore s' sc),
       (running_part C)(i \<mapsto> fl\<lparr>fl_ops := ops\<rparr>), T)"
    using op_phase [OF inv fl assms(3) vis] s(2) by auto
  then have "opTask B K i op sc = Inr (updTask i (\<lambda>t. t\<lparr>t_VersionStores := Some a'\<rparr>) sc)"
    using s(1) by (simp add: opTask_def withStore_def)
  with tracer_exec [OF s dom assms(2) a(3)] show ?thesis by blast
qed

lemma open_exec:
  assumes "exec_inv B K bc config header V0 V txs L (sc, C, T)" "C i = Some (Running fl)" "fl_ops fl = []" "fl_hooks fl = h # hs"
  shows "\<exists>ops sc'. openHook K i h sc = Inr (ops, sc') \<and>
    exec_inv B K bc config header V0 V txs L (sc', C(i \<mapsto> Running (fl\<lparr>fl_ops := ops, fl_hooks := hs\<rparr>)), T)"
proof -
  obtain s s' where s: "sc_multiVersionStores sc = Some s" "parentStore s = sc_state sc" "publish_ok B K (length txs) C s s'"
    and inv: "phase_inv B K bc config header V0 V txs L (updStore s' sc, running_part C, T)" and dom: "dom C \<inter> T = {}"
    using assms(1) by (auto simp: exec_inv_def)
  have fl: "running_part C i = Some fl" using assms(2) by (simp add: running_part_def)
  obtain a a' ops where a: "t_VersionStores (task_at sc i) = Some a" "hookOps K h a = Inr (ops, a')"
    "phase_inv B K bc config header V0 V txs L (updTask i (\<lambda>t. t\<lparr>t_VersionStores := Some a'\<rparr>) (updStore s' sc),
       (running_part C)(i \<mapsto> fl\<lparr>fl_ops := ops, fl_hooks := hs\<rparr>), T)"
    using open_phase [OF inv fl assms(3,4)] by auto
  then have "openHook K i h sc = Inr (ops, updTask i (\<lambda>t. t\<lparr>t_VersionStores := Some a'\<rparr>) sc)"
    by (simp add: openHook_def)
  with tracer_exec [OF s dom assms(2) a(3)] show ?thesis by blast
qed

lemma done_exec:
  assumes "exec_inv B K bc config header V0 V txs L (sc, C, T)" "C i = Some (Publishing index [])"
  shows "exec_inv B K bc config header V0 V txs L (sc, C(i := None), T)"
proof -
  obtain s s' where s: "sc_multiVersionStores sc = Some s" "parentStore s = sc_state sc" "publish_ok B K (length txs) C s s'"
    and inv: "phase_inv B K bc config header V0 V txs L (updStore s' sc, running_part C, T)" and dom: "dom C \<inter> T = {}"
    using assms(1) by (auto simp: exec_inv_def)
  have "index = int i" "run_ops (rowOp index) [] (row B s index) (row B s' index)"
    using s(3) assms(2) unfolding publish_ok_def by blast+
  then have "row B s (int i) = row B s' (int i)" by (auto elim: run_ops_NilE)
  then have "row B s j = row B s' j" if "j \<notin> int ` publishing (C(i := None))" for j
    using that s(3) by (cases "j = int i") (auto simp: publish_ok_def publishing_upd)
  then have "publish_ok B K (length txs) (C(i := None)) s s'" using s(3) unfolding publish_ok_def by auto
  moreover have "running_part C i = None" using assms(2) by (simp add: running_part_def)
  then have "running_part (C(i := None)) = running_part C" by (simp add: running_part_upd fun_upd_idem)
  ultimately show ?thesis using s inv dom by (intro exec_invI [where s = s and s' = s']) auto
qed

lemma op_exec:
  assumes "exec_inv B K bc config header V0 V txs L (sc, C, T)" "C i = Some (Publishing index (op # ops))"
  shows "\<exists>s new s1. sc_multiVersionStores sc = Some s \<and> storeOp B index op s = (new, s1) \<and>
    exec_inv B K bc config header V0 V txs L (updStore s1 sc, C(i \<mapsto> Publishing index (new @ ops)), T)"
proof -
  obtain s s' where s: "sc_multiVersionStores sc = Some s" "parentStore s = sc_state sc" "publish_ok B K (length txs) C s s'"
    and inv: "phase_inv B K bc config header V0 V txs L (updStore s' sc, running_part C, T)" and dom: "dom C \<inter> T = {}"
    using assms(1) by (auto simp: exec_inv_def)
  have i: "index = int i" "i < length txs" "\<forall>k\<in>ops_keys (op # ops). canonical_key K k"
    "run_ops (rowOp index) (op # ops) (row B s index) (row B s' index)"
    using s(3) assms(2) unfolding publish_ok_def by blast+
  obtain new s1 where op: "storeOp B index op s = (new, s1)" by fastforce
  note rows = storeOp_row [OF op] and keys = storeOp_keys [OF op]
  let ?C = "C(i \<mapsto> Publishing index (new @ ops))"
  have left: "run_ops (rowOp index) (new @ ops) (row B s1 index) (row B s' index)"
    using i(4) rows(1) by (auto elim: run_ops_ConsE)
  have can: "\<forall>k\<in>fset (fmdom (multiVersionMap s1)). canonical_key K k"
    using keys(1) i(3) s(3) by (auto simp: publish_ok_def)
  have "publish_ok B K (length txs) ?C s1 s'"
    unfolding i(1) using i left rows(2) keys(2) can by (intro publish_ok_step [OF s(3)]) auto
  moreover have "running_part C i = None" using assms(2) by (simp add: running_part_def)
  then have "running_part ?C = running_part C" by (simp add: running_part_upd fun_upd_idem)
  moreover have "i \<notin> T" using assms(2) dom by (auto simp: domIff)
  ultimately have "exec_inv B K bc config header V0 V txs L (updStore s1 sc, ?C, T)"
    using s inv dom keys(3) by (intro exec_invI [where s = s1 and s' = s']) auto
  with s(1) op show ?thesis by blast
qed

text \<open>The close of a task: the store is as before, the complete store has the publication.\<close>

lemma close_exec:
  assumes "exec_inv B K bc config header V0 V txs L (sc, C, T)" "C i = Some (Running fl)" "fl_ops fl = []" "fl_hooks fl = []"
  shows "\<exists>c sc'. closeTask K fl i sc = Inr (c, sc') \<and> exec_inv B K bc config header V0 V txs L (sc', C(i \<mapsto> c), T)"
proof -
  obtain s s' where s: "sc_multiVersionStores sc = Some s" "parentStore s = sc_state sc" "publish_ok B K (length txs) C s s'"
    and inv: "phase_inv B K bc config header V0 V txs L (updStore s' sc, running_part C, T)" and dom: "dom C \<inter> T = {}"
    using assms(1) by (auto simp: exec_inv_def)
  have fl: "running_part C i = Some fl" and iT: "i \<notin> T" using assms(2) dom by (auto simp: running_part_def domIff)
  have sane: "sane B K txs (updStore s' sc)" and il: "i < length txs" and run: "running_ok B K bc config header V txs (updStore s' sc) i fl"
    using inv fl by (auto simp: phase_inv_def round_inv_def)
  obtain a c st where "t_VersionStores (task_at (updStore s' sc) i) = Some a" "traced K (length txs) i a c"
    by (rule running_traced [OF run assms(3,4)])
  then have a: "t_VersionStores (task_at sc i) = Some a" "tr_transactionIndex a = int i"
    "\<And>k. k \<in> fset (fmdom (tr_writeset a)) \<Longrightarrow> canonical_key K k"
    by (auto simp: traced_def in_fmdom_iff data_key_def)
  from end_phase [OF inv fl assms(3,4)] obtain sc2 where e: "endTask B K fl i (updStore s' sc) = Inr sc2"
    "phase_inv B K bc config header V0 V txs L (sc2, (running_part C)(i := None), T)" by blast
  obtain c sc1 where c: "closeTask K fl i sc = Inr (c, sc1)" "closeTask K fl i (updStore s' sc) = Inr (c, updStore s' sc1)"
    using e(1) endTask_Inl [of K fl i "updStore s' sc" _ B] closeTask_updStore [of K fl i s' sc]
    by (cases "closeTask K fl i sc") auto
  obtain index ops s2 where ops: "c = Publishing index ops" "run_ops (storeOp B index) ops s' s2"
    and "endTask B K fl i (updStore s' sc) = Inr (updStore s2 (updStore s' sc1))"
    by (rule endTask_close [OF _ c(2), of s' B]) simp
  with e(1) have sc2: "sc2 = updStore s2 sc1" by simp
  have sc1: "sc_multiVersionStores sc1 = Some s" "sc_state sc1 = sc_state sc"
    by (rule endTask_close [OF s(1) c(1)], assumption)+
  have "t_AbsoluteIndex (task_at sc i) = int i" "length (sc_allTasks sc) = length txs"
    using sane_task_ok [OF sane il] sane_length [OF sane] by (simp_all add: task_ok_def)
  with closeTask_ops [OF c(1) [unfolded ops(1)] _ a(1)] a(2,3) il
  have index: "index = int i" and keys: "\<forall>k\<in>ops_keys ops. canonical_key K k" by auto
  note rows = run_ops_row [OF ops(2) [unfolded index]]
  let ?C = "C(i \<mapsto> c)"
  have "int i \<notin> int ` publishing C" using assms(2) by (auto simp: publishing_def)
  then have "row B s (int i) = row B s' (int i)" using s(3) unfolding publish_ok_def by blast
  with rows(1) have left: "run_ops (rowOp (int i)) ops (row B s (int i)) (row B s2 (int i))" by simp
  have can: "\<forall>k\<in>fset (fmdom (multiVersionMap s)). canonical_key K k" using s(3) by (simp add: publish_ok_def)
  have "publish_ok B K (length txs) ?C s s2"
    unfolding ops(1) index using rows(2) by (intro publish_ok_step [OF s(3) il keys can _ left]) simp
  then have "exec_inv B K bc config header V0 V txs L (sc1, ?C, T)"
    using s dom iT e(2) sc1 unfolding sc2
    by (intro exec_invI [where s = s and s' = s2]) (auto simp: running_part_upd ops(1))
  with c(1) show ?thesis by blast
qed

lemma next_exec:
  assumes inv: "exec_inv B K bc config header V0 V txs L (sc, C, T)" and c: "C i = Some c"
  shows "\<exists>c' sc'. nextTask B K i c sc = Inr (c', sc') \<and> exec_inv B K bc config header V0 V txs L (sc', C(i := c'), T)"
proof (cases c)
  case (Running fl)
  note running = inv c [unfolded Running]
  show ?thesis
  proof (cases "fl_ops fl")
    case ops: Nil
    show ?thesis
    proof (cases "fl_hooks fl")
      case Nil
      from close_exec [OF running ops Nil] show ?thesis by (auto simp: nextTask_def Running ops Nil)
    next
      case (Cons h hs)
      from open_exec [OF running ops Cons] show ?thesis by (auto simp: nextTask_def Running ops Cons)
    qed
  next
    case (Cons op ops)
    from look_exec [OF running Cons] show ?thesis by (auto simp: nextTask_def Running Cons)
  qed
next
  case (Publishing index ops)
  then show ?thesis
  proof (cases ops)
    case Nil
    from done_exec [OF inv c [unfolded Publishing Nil]] show ?thesis by (auto simp: nextTask_def Publishing Nil)
  next
    case (Cons op ops')
    from op_exec [OF inv c [unfolded Publishing Cons]] show ?thesis
      by (auto simp: nextTask_def Publishing Cons withStore_def)
  qed
qed

lemma exec_preserved:
  assumes "exec_step B K bc config header ph ph'" "exec_inv B K bc config header V0 V txs L ph"
  shows "exec_inv B K bc config header V0 V txs L ph'"
  using assms
proof (cases rule: run_step.cases)
  case (Start i T sc c sc' C)
  with start_exec [of V0 V txs L sc C T i] assms(2) show ?thesis by auto
next
  case (Next C i c sc c' sc' T)
  with next_exec [of V0 V txs L sc C T i c] assms(2) show ?thesis by auto
qed

lemma exec_reaches:
  assumes "rtranclp (exec_step B K bc config header) ph ph'" "exec_inv B K bc config header V0 V txs L ph"
  shows "exec_inv B K bc config header V0 V txs L ph'"
  using assms by (induction rule: rtranclp_induct) (auto intro: exec_preserved)

lemma exec_finite:
  assumes "exec_inv B K bc config header V0 V txs L (sc, C, T)"
  shows "finite T \<and> finite (dom C)"
proof -
  obtain s s' where s: "publish_ok B K (length txs) C s s'"
    and inv: "phase_inv B K bc config header V0 V txs L (updStore s' sc, running_part C, T)"
    using assms by (auto simp: exec_inv_def)
  have "i < length txs" if "C i = Some c" for i c
  proof (cases c)
    case (Running fl)
    then have "i \<in> dom (running_part C)" using that by (auto simp: running_part_def)
    with inv show ?thesis by (auto simp: phase_inv_def)
  next
    case (Publishing index ops)
    with that s show ?thesis unfolding publish_ok_def by blast
  qed
  then have "dom C \<subseteq> {..<length txs}" by auto
  moreover have "T \<subseteq> {..<length txs}" using inv by (auto simp: phase_inv_def)
  ultimately show ?thesis by (auto intro: finite_subset)
qed

end

text \<open>
  No piece of a closure panics, and the closures come to an end: the hooks of a transaction are
  finitely many, the looks of a hook are known when it is opened, and so are the accesses of a publication once the keys of the old writeset are known.
\<close>

definition accesses_left :: "('s, 'rc, 'tc) execution \<Rightarrow> nat \<times> nat" where
  "accesses_left c =
     (case c of
        Running fl \<Rightarrow> (Suc (Suc (length (fl_hooks fl))), length (fl_ops fl))
      | Publishing index ops \<Rightarrow> (length (filter (\<lambda>op. \<exists>ws. op = LoadAndDelete ws) ops), length ops))"

definition exec_order_left :: "(('s, 'rc, 'tc) execution \<times> ('s, 'rc, 'tc) execution) set" where
  "exec_order_left = inv_image (less_than <*lex*> less_than) accesses_left"

lemma filter_publishOps: "length (filter (\<lambda>op. \<exists>ws. op = LoadAndDelete ws) (publishOps aborted a)) = 1"
  by (simp add: publishOps_def writeOps_def estimateOps_def filter_map o_def)

lemma closeTask_left:
  assumes "closeTask K fl i sc = Inr (c, sc')"
  shows "fst (accesses_left c) \<le> 1"
  using assms
  by (auto simp: closeTask_def Let_def accesses_left_def pbind_eq_Inr filter_publishOps split: sum.splits)

lemma storeOp_left:
  assumes "storeOp B index op s = (new, s')"
  shows "(accesses_left (Publishing index (new @ ops)), accesses_left (Publishing index (op # ops))) \<in> less_than <*lex*> less_than"
  using assms by (cases op) (auto simp: accesses_left_def filter_map o_def split: option.splits)

lemma nextTask_left:
  assumes "nextTask B K i c sc = Inr (Some c', sc')"
  shows "(c', c) \<in> exec_order_left"
proof (cases c)
  case (Running fl)
  show ?thesis
  proof (cases "fl_ops fl")
    case ops: Nil
    show ?thesis
    proof (cases "fl_hooks fl")
      case Nil
      with ops assms Running have "fst (accesses_left c') \<le> 1" by (auto simp: nextTask_def pbind_eq_Inr dest: closeTask_left)
      then show ?thesis by (cases "accesses_left c'") (simp add: exec_order_left_def accesses_left_def [of "Running fl"] Running)
    next
      case (Cons h hs)
      with ops assms Running show ?thesis by (auto simp: nextTask_def pbind_eq_Inr exec_order_left_def accesses_left_def)
    qed
  next
    case (Cons op ops)
    with assms Running show ?thesis by (auto simp: nextTask_def pbind_eq_Inr exec_order_left_def accesses_left_def)
  qed
next
  case (Publishing index ops)
  show ?thesis
  proof (cases ops)
    case Nil
    with assms Publishing show ?thesis by (simp add: nextTask_def)
  next
    case (Cons op ops')
    with assms Publishing show ?thesis
      unfolding exec_order_left_def in_inv_image
      by (auto simp del: in_lex_prod simp: nextTask_def withStore_def split: option.splits prod.splits intro: storeOp_left)
  qed
qed

sublocale deterministic_evm \<subseteq> execs: job_system "startTask K bc config header" "nextTask B K"
  "\<lambda>ph. \<exists>V0 V txs L. exec_inv B K bc config header V0 V txs L ph"
  "exec_order_left :: (('s, 'rc, 'tc) execution \<times> ('s, 'rc, 'tc) execution) set"
proof
  fix ph ph' :: "('s, 't, 'tx, 'rc, 'tc) scheduler \<times> (nat \<rightharpoonup> ('s, 'rc, 'tc) execution) \<times> nat set"
  assume step: "exec_step B K bc config header ph ph'" and inv: "\<exists>V0 V txs L. exec_inv B K bc config header V0 V txs L ph"
  from inv exec_preserved [OF step] show "\<exists>V0 V txs L. exec_inv B K bc config header V0 V txs L ph'" by blast
next
  fix sc :: "('s, 't, 'tx, 'rc, 'tc) scheduler" and C T i c
  assume inv: "\<exists>V0 V txs L. exec_inv B K bc config header V0 V txs L (sc, C, T)"
  from inv show "\<exists>c sc'. startTask K bc config header i sc = Inr (c, sc')" if "i \<in> T"
    using start_exec that by blast
  from inv show "\<exists>c' sc'. nextTask B K i c sc = Inr (c', sc')" if "C i = Some c"
    using next_exec that by blast
  from inv show "finite T \<and> finite (dom C)" using exec_finite by blast
next
  show "wf (exec_order_left :: (('s, 'rc, 'tc) execution \<times> ('s, 'rc, 'tc) execution) set)"
    unfolding exec_order_left_def by (intro wf_inv_image wf_lex_prod wf_less_than)
qed (rule nextTask_left)

section \<open>Whole tasks\<close>

text \<open>\<open>runTask\<close> with the processor's \<open>deliverTx\<close> is a job carried out without interruption.\<close>

lemma hookTask_open:
  assumes "i < length (sc_allTasks sc)" "hookTask B K i h sc = Inr sc'"
  obtains ops sc1 where "openHook K i h sc = Inr (ops, sc1)" "pfold (opTask B K i) ops sc1 = Inr sc'"
proof -
  obtain a s a' where a: "t_VersionStores (task_at sc i) = Some a" "sc_multiVersionStores sc = Some s"
    "run_hook B K s h a = Inr a'" "sc' = updTask i (\<lambda>t. t\<lparr>t_VersionStores := Some a'\<rparr>) sc"
    using assms(2) by (auto simp: hookTask_def withStore_def pbind_eq_Inr split: option.splits)
  obtain ops a1 where o: "hookOps K h a = Inr (ops, a1)" "pfold (tracerOp B K s) ops a1 = Inr a'"
    using a(3) by (auto simp: run_hook_ops pbind_eq_Inr)
  let ?sc = "\<lambda>x. updTask i (\<lambda>t. t\<lparr>t_VersionStores := Some x\<rparr>) sc"
  have "pfold (opTask B K i) ops (?sc x) = pbind (pfold (tracerOp B K s) ops x) (\<lambda>x. Inr (?sc x))" for x
  proof (induction ops arbitrary: x)
    case (Cons op ops)
    then show ?case
      using assms(1) a(2) by (cases "tracerOp B K s op x") (simp_all add: opTask_def withStore_def task_at_updTask)
  qed simp
  with o(2) have "pfold (opTask B K i) ops (?sc a1) = Inr sc'" by (simp add: a(4))
  with o(1) a(1) show ?thesis by (intro that [of ops "?sc a1"]) (simp_all add: openHook_def)
qed

lemma looks_job:
  assumes "pfold (opTask B K i) ops sc = Inr sc1" "job (nextTask B K) i (Some (Running (fl\<lparr>fl_ops := []\<rparr>)), sc1) sc'"
  shows "job (nextTask B K) i (Some (Running (fl\<lparr>fl_ops := ops\<rparr>)), sc) sc'"
  using assms(1)
proof (induction ops arbitrary: sc)
  case Nil
  with assms(2) show ?case by simp
next
  case (Cons op ops)
  then obtain sc2 where "opTask B K i op sc = Inr sc2" "job (nextTask B K) i (Some (Running (fl\<lparr>fl_ops := ops\<rparr>)), sc2) sc'"
    by (auto simp: pbind_eq_Inr)
  then show ?case by (intro job.More [of "nextTask B K"]) (auto simp: nextTask_def [of B K i "Running _" sc])
qed

lemma hookTask_frame:
  "hookTask B K i h sc = Inr sc' \<Longrightarrow> sc_multiVersionStores sc' = sc_multiVersionStores sc \<and>
   length (sc_allTasks sc') = length (sc_allTasks sc)"
  by (auto simp: hookTask_def withStore_def pbind_eq_Inr split: option.splits)

lemma hooks_job:
  assumes "pfold (hookTask B K i) hs sc = Inr sc1" "endTask B K fl i sc1 = Inr sc'" "fl_hooks fl = hs" "fl_ops fl = []"
    and "sc_multiVersionStores sc = Some s" "i < length (sc_allTasks sc)"
  shows "job (nextTask B K) i (Some (Running fl), sc) sc'"
  using assms
proof (induction hs arbitrary: sc fl)
  case Nil
  then obtain c sc2 where c: "closeTask K fl i sc = Inr (c, sc2)"
    using endTask_Inl [of K fl i sc _ B] by (cases "closeTask K fl i sc") auto
  obtain index ops s' where ops: "c = Publishing index ops" "run_ops (storeOp B index) ops s s'"
    "endTask B K fl i sc = Inr (updStore s' sc2)" "sc_multiVersionStores sc2 = Some s"
    by (rule endTask_close [OF Nil.prems(5) c])
  with Nil.prems have "job (nextTask B K) i (Some c, sc2) sc'" using ops_job [OF ops(2,4), of K i] by simp
  moreover have "nextTask B K i (Running fl) sc = Inr (Some c, sc2)" using Nil.prems(3,4) c by (simp add: nextTask_def)
  ultimately show ?case by (rule job.More [rotated])
next
  case (Cons h hs)
  from Cons.prems(1) obtain sc2 where sc2: "hookTask B K i h sc = Inr sc2" "pfold (hookTask B K i) hs sc2 = Inr sc1"
    by (auto simp: pbind_eq_Inr)
  obtain ops sc0 where o: "openHook K i h sc = Inr (ops, sc0)" "pfold (opTask B K i) ops sc0 = Inr sc2"
    by (rule hookTask_open [OF Cons.prems(6) sc2(1)])
  let ?fl = "fl\<lparr>fl_ops := [], fl_hooks := hs\<rparr>"
  have "endTask B K ?fl i sc1 = Inr sc'"
    using Cons.prems(2) unfolding endTask_def by (cases fl) (simp only: inflight.select_convs inflight.update_convs)
  from Cons.IH [OF sc2(2) this] have "job (nextTask B K) i (Some (Running ?fl), sc2) sc'"
    using hookTask_frame [OF sc2(1)] Cons.prems(5,6) by simp
  then have "job (nextTask B K) i (Some (Running (fl\<lparr>fl_ops := ops, fl_hooks := hs\<rparr>)), sc0) sc'"
    using looks_job [OF o(2), of ?fl] by (cases fl) simp
  moreover have "nextTask B K i (Running fl) sc = Inr (Some (Running (fl\<lparr>fl_ops := ops, fl_hooks := hs\<rparr>)), sc0)"
    using o(1) Cons.prems(3,4) by (simp add: nextTask_def)
  ultimately show ?case by (rule job.More [rotated])
qed

lemma beginTask_frame:
  "beginTask K bc config header i sc = Inr (fl, sc') \<Longrightarrow>
   sc_multiVersionStores sc' \<noteq> None \<and> fl_ops fl = [] \<and> length (sc_allTasks sc') = length (sc_allTasks sc)"
  by (auto simp: beginTask_def prepareTask_def withStore_def Let_def split: option.splits prod.splits)

lemma runTask_job:
  assumes "sane B K txs sc" "i < length txs" "runTask B K (deliverTx B K bc config header) i sc = Inr sc'"
  shows "\<exists>c sc1. startTask K bc config header i sc = Inr (c, sc1) \<and> job (nextTask B K) i (Some c, sc1) sc'"
proof -
  have sc: "sc_multiVersionStores sc = Some (store_of sc)" "parentStore (store_of sc) = sc_state sc"
    "i < length (sc_allTasks sc)" using assms(1,2) sane_length [OF assms(1)] by (simp_all add: sane_def)
  from runTask_pieces [OF sc, of B K bc config header, unfolded assms(3), symmetric] obtain fl sc1 sc2 where
    b: "beginTask K bc config header i sc = Inr (fl, sc1)" "pfold (hookTask B K i) (fl_hooks fl) sc1 = Inr sc2"
      "endTask B K fl i sc2 = Inr sc'"
    by (auto simp: pbind_eq_Inr)
  obtain s where "sc_multiVersionStores sc1 = Some s" "fl_ops fl = []" "i < length (sc_allTasks sc1)"
    using beginTask_frame [OF b(1)] sc(3) by auto
  from hooks_job [OF b(2,3) refl this(2,1,3)] b(1) show ?thesis by (auto simp: startTask_def)
qed

context deterministic_evm
begin

lemma executeAll_jobs:
  assumes "sane B K txs sc" "\<not> sc_synchronous sc" "\<forall>i\<in>set is. i < length txs"
    and "pfold (executeTask B K (deliverTx B K bc config header)) is sc = Inr sc'"
  shows "jobs (startTask K bc config header) (nextTask B K) is sc sc'"
  using assms
proof (induction "is" arbitrary: sc)
  case Nil
  then show ?case by (simp add: jobs.Nil)
next
  case (Cons i "is")
  from executeTask_ok [OF Cons.prems(1), of i] Cons.prems(3,4) obtain sc1 where
    sc1: "executeTask B K (deliverTx B K bc config header) i sc = Inr sc1" "sane B K txs sc1" "step_at B K i sc sc1"
      "pfold (executeTask B K (deliverTx B K bc config header)) is sc1 = Inr sc'" by (auto simp: pbind_eq_Inr)
  have "runTask B K (deliverTx B K bc config header) i sc = Inr sc1"
    using sc1(1) Cons.prems(2) by (simp add: executeTask_def resumeTask_def)
  with runTask_job [OF Cons.prems(1), of i bc config header sc1] Cons.prems(3) obtain c sc0 where
    "startTask K bc config header i sc = Inr (c, sc0)" "job (nextTask B K) i (Some c, sc0) sc1" by auto
  moreover have "jobs (startTask K bc config header) (nextTask B K) is sc1 sc'"
    using Cons.IH [OF sc1(2)] Cons.prems sc1(3,4) by (simp add: step_at_def)
  ultimately show ?case by (rule jobs.Cons)
qed

end

end
