(* ===== verification/Valid_Phase.thy ===== *)
theory Valid_Phase
  imports Serializability Workers
begin

text \<open>
  The validation phase of a round with workers that interleave inside the validations. A closure of
  \<open>validateAll\<close> is cut at every access to what the validations share: the look at the readset, the
  check of each of its keys against the versions of lower transactions, the verdict, the withdrawal of
  an invalid task's versions, one by one, the look at the status of each task it depends on, and the
  reset of a task that is to run again. Between these pieces other validations withdraw versions and
  change statuses, so a check may be out of date when the verdict is acted on. Under every
  interleaving the validated prefix is settled when the phase ends.
\<close>

section \<open>The pieces of a validation\<close>

text \<open>
  What is left of a running validation: keys of the readset to check, with the flag and the conflicts
  found so far; a verdict to act on; versions to withdraw; dependencies to look at (of a task that was
  just withdrawn, and has to be marked as waiting, or of one that waits already); or the reset of the
  task.
\<close>

datatype verdict =
    Check ReadSet "StorageKey list" bool "(int, unit) fmap"
  | Judge bool "int list"
  | Withdraw "StorageKey list" "int list"
  | Depend bool "int list"
  | Rerun

type_synonym ('s, 't, 'tx, 'rc, 'tc) validation = "('s, 't, 'tx, 'rc, 'tc) scheduler \<times> nat list"

definition beginValidation ::
  "nat \<Rightarrow> ('s, 't, 'tx, 'rc, 'tc) validation \<Rightarrow> go_panic + verdict \<times> ('s, 't, 'tx, 'rc, 'tc) validation" where
  "beginValidation i acc =
     (case acc of (sc, res) \<Rightarrow>
      let task = task_at sc i in
      if t_Status task \<in> {statusAborted, statusPending} then Inr (Rerun, sc, res)
      else if t_Status task \<in> {statusExecuted, statusValidated} then
        withStore sc (\<lambda>s. Inr
          (case fmlookup (txReadSets s) (t_AbsoluteIndex task) of
             None \<Rightarrow> Judge True (uniqueConflicts [])
           | Some readset \<Rightarrow> Check readset (fmkeys readset) True fmempty, sc, res))
      else Inr (Depend False (fmkeys (t_Dependencies task)), sc, res))"

definition checkStep ::
  "'t vtree \<Rightarrow> ('s, 'tx) kaia \<Rightarrow> nat \<Rightarrow> ReadSet \<Rightarrow> StorageKey list \<Rightarrow> bool \<Rightarrow> (int, unit) fmap \<Rightarrow>
   ('s, 't, 'tx, 'rc, 'tc) scheduler \<Rightarrow> go_panic + verdict" where
  "checkStep B K i readset keys valid conflictSet sc =
     (case keys of
        [] \<Rightarrow> Inr (Judge (True \<and> valid) (uniqueConflicts (sort (fmkeys conflictSet))))
      | key # keys \<Rightarrow> withStore sc (\<lambda>s.
          case checkRead B K s (t_AbsoluteIndex (task_at sc i)) readset key (valid, conflictSet) of
            (valid, conflictSet) \<Rightarrow> Inr (Check readset keys valid conflictSet)))"

definition withdrawStep ::
  "'t vtree \<Rightarrow> nat \<Rightarrow> StorageKey list \<Rightarrow> int list \<Rightarrow> ('s, 't, 'tx, 'rc, 'tc) scheduler \<Rightarrow>
   go_panic + verdict \<times> ('s, 't, 'tx, 'rc, 'tc) scheduler" where
  "withdrawStep B i keys conflicts sc =
     withStore sc (\<lambda>s.
       let task = task_at sc i in
       case keys of
         [] \<Rightarrow>
           let sc = updTask i (AppendDependencies conflicts) (updStore (ClearReadset s (t_AbsoluteIndex task)) sc) in
           Inr (Depend True (fmkeys (t_Dependencies (task_at sc i))), sc)
       | key # keys \<Rightarrow>
           Inr (Withdraw keys conflicts, updStore (s\<lparr>multiVersionMap :=
             estimateKey B (t_AbsoluteIndex task) (t_Incarnation task) key (multiVersionMap s)\<rparr>) sc))"

definition dependStep ::
  "nat \<Rightarrow> bool \<Rightarrow> int list \<Rightarrow> ('s, 't, 'tx, 'rc, 'tc) scheduler \<Rightarrow>
   go_panic + verdict option \<times> ('s, 't, 'tx, 'rc, 'tc) scheduler" where
  "dependStep i marks deps sc =
     (case deps of
        [] \<Rightarrow> Inr (Some Rerun, sc)
      | d # deps \<Rightarrow>
          (case fmlookup (sc_allTasksMap sc) d of
             None \<Rightarrow> Inl NilDereference
           | Some p \<Rightarrow> Inr (if \<not> IsValidated (task_at sc p)
               then (None, if marks then updTask i (SetStatus statusWaiting) sc else sc)
               else (Some (Depend marks deps), sc))))"

definition nextValidation ::
  "'t vtree \<Rightarrow> ('s, 'tx) kaia \<Rightarrow> nat \<Rightarrow> verdict \<Rightarrow> ('s, 't, 'tx, 'rc, 'tc) validation \<Rightarrow>
   go_panic + verdict option \<times> ('s, 't, 'tx, 'rc, 'tc) validation" where
  "nextValidation B K i v acc =
     (case acc of (sc, res) \<Rightarrow>
      case v of
        Check readset keys valid conflictSet \<Rightarrow>
          pbind (checkStep B K i readset keys valid conflictSet sc) (\<lambda>v. Inr (Some v, sc, res))
      | Judge valid conflicts \<Rightarrow>
          if \<not> valid then withStore sc (\<lambda>s. Inr (Some (Withdraw
            (case fmlookup (txWritesetKeys s) (t_AbsoluteIndex (task_at sc i)) of None \<Rightarrow> [] | Some keys \<Rightarrow> keys)
            conflicts), sc, res))
          else if length conflicts = 0 then Inr (None, updTask i (SetStatus statusValidated) sc, res)
          else Inr (None, sc, res)
      | Withdraw keys conflicts \<Rightarrow>
          pbind (withdrawStep B i keys conflicts sc) (\<lambda>(v, sc). Inr (Some v, sc, res))
      | Depend marks deps \<Rightarrow> pbind (dependStep i marks deps sc) (\<lambda>(v, sc). Inr (v, sc, res))
      | Rerun \<Rightarrow>
          let sc = updTask i (\<lambda>t. Increment (Task_Reset t)) sc;
              inc = t_Incarnation (task_at sc i) in
          Inr (None, if inc > sint (sc_maxIncarnation sc) then sc\<lparr>sc_maxIncarnation := word_of_int inc\<rparr> else sc,
               res @ [i]))"

section \<open>Whole validations\<close>

text \<open>Taken one after the other, the pieces are the closure of \<open>Scheduler\<close>.\<close>

lemma job_Rerun:
  "nextValidation B K i Rerun acc = Inr (None, acc') \<Longrightarrow> job (nextValidation B K) i (Some Rerun, acc) acc'"
  by (rule job.More [OF _ job.Done])

lemma job_Check:
  assumes "sc_multiVersionStores sc = Some s"
    and "fold (checkRead B K s (t_AbsoluteIndex (task_at sc i)) rs) ks (valid, cs) = (valid', cs')"
    and "job (nextValidation B K) i (Some (Judge valid' (uniqueConflicts (sort (fmkeys cs')))), sc, res) acc'"
  shows "job (nextValidation B K) i (Some (Check rs ks valid cs), sc, res) acc'"
  using assms
proof (induction ks arbitrary: valid cs)
  case Nil
  then show ?case by (intro job.More [OF _ Nil(3)]) (simp add: nextValidation_def checkStep_def)
next
  case (Cons k ks)
  obtain v c where vc: "checkRead B K s (t_AbsoluteIndex (task_at sc i)) rs k (valid, cs) = (v, c)" by fastforce
  with Cons have "job (nextValidation B K) i (Some (Check rs ks v c), sc, res) acc'" by simp
  then show ?case
    by (rule job.More [rotated]) (simp add: nextValidation_def checkStep_def withStore_def Cons.prems(1) vc)
qed

lemma job_Withdraw:
  assumes "sc_multiVersionStores sc = Some s"
    and "job (nextValidation B K) i (Some (Withdraw [] cs), updStore (s\<lparr>multiVersionMap := fold
      (estimateKey B (t_AbsoluteIndex (task_at sc i)) (t_Incarnation (task_at sc i))) ks (multiVersionMap s)\<rparr>) sc, res) acc'"
  shows "job (nextValidation B K) i (Some (Withdraw ks cs), sc, res) acc'"
  using assms
proof (induction ks arbitrary: sc s)
  case Nil
  then show ?case by (simp add: updStore_id)
next
  case (Cons k ks)
  let ?s = "s\<lparr>multiVersionMap := estimateKey B (t_AbsoluteIndex (task_at sc i)) (t_Incarnation (task_at sc i)) k (multiVersionMap s)\<rparr>"
  have "job (nextValidation B K) i (Some (Withdraw ks cs), updStore ?s sc, res) acc'"
    using Cons.prems by (intro Cons.IH [of "updStore ?s sc" ?s]) (simp_all add: updStore_def task_at_def)
  then show ?case
    by (rule job.More [rotated]) (simp add: nextValidation_def withdrawStep_def withStore_def Cons.prems(1) Let_def)
qed

lemma job_Depend:
  assumes "depsValidated_in_order sc ds = Inr ok"
    and "job (nextValidation B K) i (if ok then Some Rerun else None,
      if \<not> ok \<and> marks then updTask i (SetStatus statusWaiting) sc else sc, res) acc'"
  shows "job (nextValidation B K) i (Some (Depend marks ds), sc, res) acc'"
  using assms
proof (induction ds)
  case Nil
  then have "job (nextValidation B K) i (Some Rerun, sc, res) acc'" by auto
  then show ?case by (rule job.More [rotated]) (simp add: nextValidation_def dependStep_def)
next
  case (Cons d ds)
  then obtain p where p: "fmlookup (sc_allTasksMap sc) d = Some p" by (auto split: option.splits)
  show ?case
  proof (cases "IsValidated (task_at sc p)")
    case True
    with Cons p have "job (nextValidation B K) i (Some (Depend marks ds), sc, res) acc'" by simp
    then show ?thesis by (rule job.More [rotated]) (simp add: nextValidation_def dependStep_def p True)
  next
    case False
    with Cons p have "\<not> ok" by simp
    with Cons.prems(2) have "job (nextValidation B K) i (None, if marks then updTask i (SetStatus statusWaiting) sc else sc, res) acc'"
      by simp
    then show ?thesis by (rule job.More [rotated]) (simp add: nextValidation_def dependStep_def p False)
  qed
qed

text \<open>The verdict of \<open>findConflicts\<close>, reached by checking the readset key by key.\<close>

lemma job_findConflicts:
  assumes "t_Status (task_at sc i) \<in> {statusExecuted, statusValidated}" "findConflicts B K i sc = Inr (valid, cs)"
    and "job (nextValidation B K) i (Some (Judge valid cs), sc, res) acc'"
  shows "\<exists>v. beginValidation i (sc, res) = Inr (v, sc, res) \<and> job (nextValidation B K) i (Some v, sc, res) acc'"
proof -
  obtain s where s: "sc_multiVersionStores sc = Some s" using assms(2) by (auto simp: findConflicts_def withStore_def split: option.splits)
  let ?i = "t_AbsoluteIndex (task_at sc i)"
  show ?thesis
  proof (cases "fmlookup (txReadSets s) ?i")
    case None
    with assms(2) s have "valid" "cs = uniqueConflicts []"
      by (auto simp: findConflicts_def withStore_def ValidateTransactionState_def checkReadsetAtIndex_def)
    with assms(1,3) s None show ?thesis by (auto simp: beginValidation_def Let_def withStore_def)
  next
    case (Some rs)
    obtain v c where vc: "fold (checkRead B K s ?i rs) (fmkeys rs) (True, fmempty) = (v, c)" by fastforce
    with assms(2) s Some have "valid = v" "cs = uniqueConflicts (sort (fmkeys c))"
      by (auto simp: findConflicts_def withStore_def ValidateTransactionState_def checkReadsetAtIndex_def
          checkReadsetAtIndex_in_order_def)
    with job_Check [OF s vc] assms(1,3) s Some show ?thesis by (auto simp: beginValidation_def Let_def withStore_def)
  qed
qed

lemma job_invalid:
  assumes w: "invalidateTask B i sc = Inr sc0" and sc1: "sc1 = updTask i (AppendDependencies cs) sc0"
    and d: "dependenciesValidated sc1 (t_Dependencies (task_at sc1 i)) = Inr ok"
    and j: "job (nextValidation B K) i (if ok then Some Rerun else None,
      if ok then sc1 else updTask i (SetStatus statusWaiting) sc1, res) acc'"
  shows "job (nextValidation B K) i (Some (Judge False cs), sc, res) acc'"
proof -
  obtain s where s: "sc_multiVersionStores sc = Some s" using w by (auto simp: invalidateTask_def withStore_def split: option.splits)
  let ?t = "task_at sc i"
  let ?ks = "case fmlookup (txWritesetKeys s) (t_AbsoluteIndex ?t) of None \<Rightarrow> [] | Some keys \<Rightarrow> keys"
    and ?s = "InvalidateWriteset B s (t_AbsoluteIndex ?t) (t_Incarnation ?t)"
  have inval: "s\<lparr>multiVersionMap := fold (estimateKey B (t_AbsoluteIndex ?t) (t_Incarnation ?t)) ?ks (multiVersionMap s)\<rparr> = ?s"
    by (simp add: InvalidateWriteset_def split: option.split)
  have "sc1 = updTask i (AppendDependencies cs) (updStore (ClearReadset ?s (t_AbsoluteIndex ?t)) (updStore ?s sc))"
    using w s sc1 by (simp add: invalidateTask_def withStore_def Let_def updStore_def)
  then have step: "nextValidation B K i (Withdraw [] cs) (updStore ?s sc, res) =
      Inr (Some (Depend True (fmkeys (t_Dependencies (task_at sc1 i)))), sc1, res)"
    by (simp add: nextValidation_def withdrawStep_def withStore_def Let_def)
  have "job (nextValidation B K) i (Some (Depend True (fmkeys (t_Dependencies (task_at sc1 i)))), sc1, res) acc'"
    using d j by (intro job_Depend [of sc1 _ ok]) (auto simp: dependenciesValidated_def cong: if_cong)
  from job.More [OF step this] have "job (nextValidation B K) i (Some (Withdraw ?ks cs), sc, res) acc'"
    by (intro job_Withdraw [OF s]) (simp add: inval)
  then show ?thesis by (rule job.More [rotated]) (simp add: nextValidation_def withStore_def s)
qed

lemma validateOne_job:
  assumes "validateOne B K i acc = Inr acc'"
  shows "\<exists>v acc1. beginValidation i acc = Inr (v, acc1) \<and> job (nextValidation B K) i (Some v, acc1) acc'"
proof -
  obtain sc res where acc: "acc = (sc, res)" by fastforce
  let ?close = "\<lambda>rerun sc. if \<not> rerun then (sc, res) else projr (map_sum id snd (nextValidation B K i Rerun (sc, res)))"
  from assms obtain rerun sc1 where sr: "shouldRerun B K i sc = Inr (rerun, sc1)" and acc': "acc' = ?close rerun sc1"
    unfolding acc by (auto simp: validateOne_def validateTask_def pbind_eq_Inr nextValidation_def Let_def split: if_splits)
  have fin: "job (nextValidation B K) i (if rerun then Some Rerun else None, sc1, res) acc'"
    using acc' by (auto intro!: job.Done job_Rerun simp: nextValidation_def Let_def)
  consider (rerun) "t_Status (task_at sc i) \<in> {statusAborted, statusPending}"
    | (check) "t_Status (task_at sc i) \<in> {statusExecuted, statusValidated}"
    | (wait) "t_Status (task_at sc i) = statusWaiting"
    by (cases "t_Status (task_at sc i)") auto
  then show ?thesis
  proof cases
    case rerun
    with sr have "rerun" "sc1 = sc" by (auto simp: shouldRerun_def Let_def)
    with fin rerun show ?thesis by (auto simp: acc beginValidation_def Let_def)
  next
    case wait
    with sr have "depsValidated_in_order sc (fmkeys (t_Dependencies (task_at sc i))) = Inr rerun" "sc1 = sc"
      by (auto simp: shouldRerun_def Let_def pbind_eq_Inr dependenciesValidated_def)
    from job_Depend [OF this(1), of B K i False res acc'] fin this(2) wait show ?thesis
      by (auto simp: acc beginValidation_def Let_def)
  next
    case check
    with sr obtain valid cs where fc: "findConflicts B K i sc = Inr (valid, cs)"
      by (auto simp: shouldRerun_def Let_def pbind_eq_Inr)
    have "job (nextValidation B K) i (Some (Judge valid cs), sc, res) acc'"
    proof (cases valid)
      case True
      with sr check fc have "nextValidation B K i (Judge valid cs) (sc, res) = Inr (if rerun then Some Rerun else None, sc1, res)"
        by (auto simp: shouldRerun_def Let_def nextValidation_def split: if_splits)
      from job.More [OF this fin] show ?thesis .
    next
      case False
      with sr check fc obtain sc0 where w: "invalidateTask B i sc = Inr sc0"
        "dependenciesValidated (updTask i (AppendDependencies cs) sc0)
           (t_Dependencies (task_at (updTask i (AppendDependencies cs) sc0) i)) = Inr rerun"
        "sc1 = (if rerun then updTask i (AppendDependencies cs) sc0
                else updTask i (SetStatus statusWaiting) (updTask i (AppendDependencies cs) sc0))"
        by (auto simp: shouldRerun_def rerunInvalid_def Let_def pbind_eq_Inr split: if_splits)
      from job_invalid [OF w(1) refl w(2), of K res acc'] fin w(3) False show ?thesis by simp
    qed
    from job_findConflicts [OF check fc this] show ?thesis unfolding acc by blast
  qed
qed

lemma validations_jobs:
  assumes "pfold (validateOne B K) is acc = Inr acc'"
  shows "jobs beginValidation (nextValidation B K) is acc acc'"
  using assms
proof (induction "is" arbitrary: acc)
  case Nil
  then show ?case by (simp add: jobs.Nil)
next
  case (Cons i "is")
  then obtain acc1 where "validateOne B K i acc = Inr acc1" "pfold (validateOne B K) is acc1 = Inr acc'"
    by (auto simp: pbind_eq_Inr)
  with validateOne_job Cons.IH show ?case by (metis jobs.Cons)
qed

section \<open>Tasks that are being withdrawn\<close>

text \<open>
  A task whose versions have been withdrawn keeps its status until its validation goes on. \<open>shadow\<close>
  anticipates that: it marks the tasks \<open>W\<close>, whose validation can only end with the task not validated,
  as waiting. The invariant of a pass is stated for the shadow.
\<close>

definition shadow :: "nat set \<Rightarrow> ('s, 't, 'tx, 'rc, 'tc) scheduler \<Rightarrow> ('s, 't, 'tx, 'rc, 'tc) scheduler" where
  "shadow W sc = sc\<lparr>sc_allTasks := map (\<lambda>i. if i \<in> W then SetStatus statusWaiting (task_at sc i) else task_at sc i)
     [0..<length (sc_allTasks sc)]\<rparr>"

lemma nth_beyond: "length xs = length ys \<Longrightarrow> length xs \<le> n \<Longrightarrow> xs ! n = ys ! n"
proof (induction xs ys arbitrary: n rule: list_induct2)
  case (Cons x xs y ys)
  then show ?case by (cases n) simp_all
qed simp

lemma task_at_shadow:
  "task_at (shadow W sc) i =
   (if i \<in> W \<and> i < length (sc_allTasks sc) then SetStatus statusWaiting (task_at sc i) else task_at sc i)"
proof (cases "i < length (sc_allTasks sc)")
  case True
  then show ?thesis by (simp add: shadow_def task_at_def)
next
  case False
  then show ?thesis
    using nth_beyond [of "sc_allTasks (shadow W sc)" "sc_allTasks sc" i] by (simp add: task_at_def shadow_def)
qed

lemma shadow_simps [simp]:
  "store_of (shadow W sc) = store_of sc" "sc_state (shadow W sc) = sc_state sc"
  "sc_synchronous (shadow W sc) = sc_synchronous sc" "length (sc_allTasks (shadow W sc)) = length (sc_allTasks sc)"
  "sc_multiVersionStores (shadow W sc) = sc_multiVersionStores sc" "sc_allTasksMap (shadow W sc) = sc_allTasksMap sc"
  by (simp_all add: shadow_def store_of_def)

lemma sane_shadow [simp]: "sane B K txs (shadow W sc) = sane B K txs sc"
proof -
  have "task_ok txs i (task_at (shadow W sc) i) = task_ok txs i (task_at sc i)" for i
    by (simp add: task_at_shadow task_ok_def)
  then show ?thesis by (simp add: sane_def)
qed

lemma shadow_empty [simp]: "shadow {} sc = sc"
  by (simp add: shadow_def task_at_def map_nth)

lemma step_at_shadow:
  assumes "step_at B K i sc sc'" "length (sc_allTasks sc') = length (sc_allTasks sc)" "W' - {i} = W - {i}"
  shows "step_at B K i (shadow W sc) (shadow W' sc')"
proof -
  have "j \<in> W' \<longleftrightarrow> j \<in> W" if "j \<noteq> i" for j using assms(3) that by blast
  with assms(1,2) show ?thesis by (auto simp: step_at_def task_at_shadow)
qed

lemma shadow_waiting:
  assumes "i < length (sc_allTasks sc)" "W' = W - {i} \<or> W' = W" "i \<in> W"
  shows "shadow W' (updTask i (SetStatus statusWaiting) sc) = shadow W sc"
proof -
  have "task_at (shadow W' (updTask i (SetStatus statusWaiting) sc)) j = task_at (shadow W sc) j" for j
    using assms by (auto simp: task_at_shadow task_at_updTask SetStatus_def)
  then have "sc_allTasks (shadow W' (updTask i (SetStatus statusWaiting) sc)) = sc_allTasks (shadow W sc)"
    by (intro nth_equalityI) (simp_all add: task_at_def)
  then show ?thesis by (simp add: shadow_def updTask_def)
qed

section \<open>The invariant of the phase\<close>

text \<open>
  A running validation is decided when it can only leave the task not validated; the tasks that wait
  for a worker or are undecided are open. The checks that were passed, and an undecided verdict that
  the readset is valid, are right as long as no version below the task has changed. A task is
  withdrawn only after an execution, whose versions are no estimates.
\<close>

primrec decided :: "verdict \<Rightarrow> bool" where
  "decided (Check rs ks valid cs) = False"
| "decided (Judge valid cs) = False"
| "decided (Withdraw ks cs) = True"
| "decided (Depend marks ds) = marks"
| "decided Rerun = True"

definition shadowed :: "(nat \<rightharpoonup> verdict) \<Rightarrow> nat set" where
  "shadowed V = {i. \<exists>v. V i = Some v \<and> decided v}"

definition still_open :: "(nat \<rightharpoonup> verdict) \<Rightarrow> nat set \<Rightarrow> nat set" where
  "still_open V T = T \<union> {i. \<exists>v. V i = Some v \<and> \<not> decided v}"

definition still_reads ::
  "'t vtree \<Rightarrow> ('s, 'tx) kaia \<Rightarrow> ('s, 't, 'tx, 'rc, 'tc) scheduler \<Rightarrow> ('s, 't, 'tx, 'rc, 'tc) scheduler \<Rightarrow>
   nat \<Rightarrow> ReadSet \<Rightarrow> StorageKey list \<Rightarrow> bool" where
  "still_reads B K sc0 sc i rs ks \<longleftrightarrow>
     ((\<forall>j<i. column B (store_of sc) (int j) = column B (store_of sc0) (int j)) \<longrightarrow>
      (\<forall>k. k \<notin> set ks \<longrightarrow> read_valid B K (store_of sc) (int i) rs k))"

definition verdict_ok ::
  "'t vtree \<Rightarrow> ('s, 'tx) kaia \<Rightarrow> nat \<Rightarrow> ('s, 't, 'tx, 'rc, 'tc) scheduler \<Rightarrow> ('s, 't, 'tx, 'rc, 'tc) scheduler \<Rightarrow>
   nat \<Rightarrow> verdict \<Rightarrow> bool" where
  "verdict_ok B K n sc0 sc i v \<longleftrightarrow>
     (case v of
        Check rs ks valid cs \<Rightarrow> t_Status (task_at sc i) \<in> {statusExecuted, statusValidated} \<and>
          fmlookup (txReadSets (store_of sc)) (int i) = Some rs \<and> fset (fmdom cs) \<subseteq> {0..<int n} \<and>
          (valid \<longrightarrow> cs = fmempty \<and> still_reads B K sc0 sc i rs ks)
      | Judge valid cs \<Rightarrow> t_Status (task_at sc i) \<in> {statusExecuted, statusValidated} \<and>
          (valid \<longrightarrow> cs = [] \<and> still_valid B K sc0 sc i) \<and> set cs \<subseteq> {0..<int n}
      | Withdraw ks cs \<Rightarrow> t_Status (task_at sc i) = statusWaiting \<and> set cs \<subseteq> {0..<int n} \<and>
          (\<forall>k\<in>set ks. column B (store_of sc) (int i) k \<noteq> None) \<and>
          (\<forall>k it. column B (store_of sc0) (int i) k = Some it \<longrightarrow> \<not> vi_estimate it)
      | Depend marks ds \<Rightarrow> t_Status (task_at sc i) = statusWaiting \<and> set ds \<subseteq> {0..<int n}
      | Rerun \<Rightarrow> True)"

definition valid_inv ::
  "'t vtree \<Rightarrow> ('s, 'tx) kaia \<Rightarrow> ('s, 'tx) effects \<Rightarrow> (StorageKey \<Rightarrow> hash) \<Rightarrow> 'tx list \<Rightarrow> nat \<Rightarrow> nat \<Rightarrow>
   ('s, 't, 'tx, 'rc, 'tc) scheduler \<Rightarrow> ('s, 't, 'tx, 'rc, 'tc) validation \<times> (nat \<rightharpoonup> verdict) \<times> nat set \<Rightarrow> bool" where
  "valid_inv B K exec V0 txs L p sc0 ph \<longleftrightarrow>
     (case ph of ((sc, res), V, T) \<Rightarrow>
      let g = shadow (shadowed V) sc in
      pass_inv B K exec V0 txs L sc0 ({p..<length txs} - still_open V T) g res \<and>
      dom V \<inter> T = {} \<and> dom V \<union> T \<subseteq> {p..<length txs} \<and> L \<le> p \<and>
      distinct res \<and> set res \<inter> (dom V \<union> T) = {} \<and>
      (\<forall>i v. V i = Some v \<longrightarrow> verdict_ok B K (length txs) sc0 g i v))"

context deterministic_delivery
begin

text \<open>What is known of a running validation is not affected by a step at another task.\<close>

lemma still_reads_step:
  assumes "sane B K txs sc" "sane B K txs sc'" "step_at B K i sc sc'" "sc_state sc' = sc_state sc"
    and stays: "column B (store_of sc') (int i) = column B (store_of sc0) (int i) \<Longrightarrow>
      column B (store_of sc) (int i) = column B (store_of sc0) (int i)"
    and "still_reads B K sc0 sc j rs ks"
  shows "still_reads B K sc0 sc' j rs ks"
  unfolding still_reads_def
proof
  assume low: "\<forall>j'<j. column B (store_of sc') (int j') = column B (store_of sc0) (int j')"
  note cols = low_columns_step [OF assms(3) stays low]
  have "\<forall>k. k \<notin> set ks \<longrightarrow> read_valid B K (store_of sc) (int j) rs k" using assms(6) cols(1) by (simp add: still_reads_def)
  moreover have "read_valid B K (store_of sc') (int j) rs = read_valid B K (store_of sc) (int j) rs"
    using assms(1,2,4) by (intro reads_cong) (simp_all add: cols(2) sane_def)
  ultimately show "\<forall>k. k \<notin> set ks \<longrightarrow> read_valid B K (store_of sc') (int j) rs k" by simp
qed

lemma verdict_ok_step:
  assumes "sane B K txs sc" "sane B K txs sc'" "step_at B K i sc sc'" "sc_state sc' = sc_state sc"
    and stays: "column B (store_of sc') (int i) = column B (store_of sc0) (int i) \<Longrightarrow>
      column B (store_of sc) (int i) = column B (store_of sc0) (int i)"
    and "j \<noteq> i" "verdict_ok B K n sc0 sc j v"
  shows "verdict_ok B K n sc0 sc' j v"
proof -
  have "task_at sc' j = task_at sc j" "column B (store_of sc') (int j) = column B (store_of sc) (int j)"
    "fmlookup (txReadSets (store_of sc')) (int j) = fmlookup (txReadSets (store_of sc)) (int j)"
    using assms(3,6) by (simp_all add: step_at_def)
  with still_reads_step [OF assms(1-4) stays, of j] still_valid_step [OF assms(1-4) stays assms(6)] assms(7)
  show ?thesis by (auto simp: verdict_ok_def split: verdict.splits)
qed

text \<open>A step at a task that is decided or done: it is reset, or it goes on waiting.\<close>

lemma pass_again:
  assumes inv: "pass_inv B K exec V0 txs L sc0 done sc res" and i: "i < length txs" "L \<le> i" "i \<in> done"
    and sane': "sane B K txs sc'" and step: "step_at B K i sc sc'" and st: "sc_state sc' = sc_state sc"
    and stays: "column B (store_of sc') (int i) = column B (store_of sc0) (int i) \<Longrightarrow>
      column B (store_of sc) (int i) = column B (store_of sc0) (int i)"
    and out: "t_Status (task_at sc' i) = statusPending \<and> res' = res @ [i] \<or>
      t_Status (task_at sc' i) = statusWaiting \<and> res' = res"
  shows "pass_inv B K exec V0 txs L sc0 done sc' res'"
proof -
  have rinv: "round_inv B K exec V0 txs L sc" and sane: "sane B K txs sc" using inv by (simp_all add: pass_inv_def round_inv_def)
  have rinv': "round_inv B K exec V0 txs L sc'"
    using out by (intro round_inv_validateOne [OF rinv i(1,2) sane' step st]) auto
  have nv: "\<not> validated sc' i" using out by auto
  have others: "\<And>j. j \<noteq> i \<Longrightarrow> task_at sc' j = task_at sc j"
    "\<And>j. j \<noteq> int i \<Longrightarrow> column B (store_of sc') j = column B (store_of sc) j \<and>
       fmlookup (txReadSets (store_of sc')) j = fmlookup (txReadSets (store_of sc)) j"
    using step by (simp_all add: step_at_def)
  show ?thesis
    unfolding pass_inv_def
  proof (intro conjI allI impI ballI)
    show "task_at sc' j = task_at sc0 j" if "j \<notin> done" for j
      using that i(3) inv others(1) [of j] by (auto simp: pass_inv_def)
    show "column B (store_of sc') j = column B (store_of sc0) j" "fmlookup (txReadSets (store_of sc')) j =
        fmlookup (txReadSets (store_of sc0)) j" if "j \<notin> int ` done" for j
      using that i(3) inv others(2) [of j] by (auto simp: pass_inv_def)
    show "still_valid B K sc0 sc' j" if "j \<in> done" "validated sc' j" for j
    proof -
      have "j \<noteq> i" using that nv by auto
      with that others(1) inv show ?thesis
        by (intro still_valid_step [OF sane sane' step st stays]) (auto simp: pass_inv_def)
    qed
    show "\<not> validated sc' j" if "column B (store_of sc') (int j) \<noteq> column B (store_of sc0) (int j)" for j
      using that inv nv others(1) [of j] others(2) [of "int j"] by (cases "j = i") (auto simp: pass_inv_def)
    show "j < length txs" "\<not> validated sc' j" if "j \<in> set res'" for j
      using that inv out nv i(1) others(1) [of j] by (cases "j = i"; auto simp: pass_inv_def)+
  qed (use inv rinv' i out in \<open>auto simp: pass_inv_def\<close>)
qed

text \<open>A step at an open task closes it, if it leaves the task not validated, or validates it by a verdict that is right.\<close>

lemma valid_close:
  assumes inv: "valid_inv B K exec V0 txs L p sc0 ((sc, res), V, T)" and i: "i \<in> still_open V T"
    and v': "\<And>v. v' = Some v \<Longrightarrow> decided v" and T': "T' = T - {i}"
    and sc': "sane B K txs sc'" "step_at B K i sc sc'" "sc_state sc' = sc_state sc"
    and ok: "\<And>v. v' = Some v \<Longrightarrow> verdict_ok B K (length txs) sc0 (shadow (shadowed (V(i := v'))) sc') i v"
    and out: "t_Status (task_at (shadow (shadowed (V(i := v'))) sc') i) = statusWaiting \<or>
     v' = None \<and> task_at sc' i = SetStatus statusValidated (task_at (shadow (shadowed V) sc) i) \<and> store_of sc' = store_of sc \<and>
       still_valid B K sc0 (shadow (shadowed V) sc) i \<and>
       t_Status (task_at (shadow (shadowed V) sc) i) \<in> {statusExecuted, statusValidated}"
  shows "valid_inv B K exec V0 txs L p sc0 ((sc', res), V(i := v'), T')"
proof -
  let ?g = "shadow (shadowed V) sc" and ?V = "V(i := v')"
  let ?g' = "shadow (shadowed ?V) sc'"
  have pass: "pass_inv B K exec V0 txs L sc0 ({p..<length txs} - still_open V T) ?g res" and Lp: "L \<le> p"
    and dom: "dom V \<inter> T = {}" "dom V \<union> T \<subseteq> {p..<length txs}" using inv by (simp_all add: valid_inv_def Let_def)
  have sane: "sane B K txs sc" using pass by (simp add: pass_inv_def round_inv_def)
  have ip: "i \<in> {p..<length txs}" using i dom by (auto simp: still_open_def)
  have nopen: "i \<notin> still_open ?V T'" "i \<notin> shadowed V"
    using v' T' i dom by (auto simp: still_open_def shadowed_def)
  have "shadowed ?V - {i} = shadowed V - {i}" by (auto simp: shadowed_def)
  then have step: "step_at B K i ?g ?g'" "sane B K txs ?g'" "sc_state ?g' = sc_state ?g"
    using sc' sane_length [OF sane] sane_length [OF sc'(1)] by (simp_all add: step_at_shadow)
  have "v' = None \<Longrightarrow> task_at ?g' i = task_at sc' i" by (simp add: task_at_shadow shadowed_def)
  then have "pass_inv B K exec V0 txs L sc0 (insert i ({p..<length txs} - still_open V T)) ?g' res"
    using out i ip Lp by (intro pass_at [OF pass _ _ _ step(2,1,3)]) auto
  moreover have "insert i ({p..<length txs} - still_open V T) = {p..<length txs} - still_open ?V T'"
    using ip nopen(1) dom by (auto simp: still_open_def T')
  moreover have "verdict_ok B K (length txs) sc0 ?g' j v" if "?V j = Some v" for j v
  proof (cases "j = i")
    case True
    with that ok show ?thesis by simp
  next
    case False
    with that inv have "verdict_ok B K (length txs) sc0 ?g j v" by (simp add: valid_inv_def Let_def)
    moreover have "int i \<notin> int ` ({p..<length txs} - still_open V T)" using i by auto
    then have "column B (store_of ?g) (int i) = column B (store_of sc0) (int i)" using pass by (simp add: pass_inv_def)
    ultimately show ?thesis using sane step False by (intro verdict_ok_step [of txs ?g ?g' i]) simp_all
  qed
  moreover have "i \<in> dom V \<union> T" using i by (auto simp: still_open_def)
  then have "i \<notin> set res" using inv by (auto simp: valid_inv_def Let_def)
  moreover have "dom ?V \<inter> T' = {}" "dom ?V \<union> T' \<subseteq> {p..<length txs}" "set res \<inter> (dom ?V \<union> T') = {}"
    using inv ip \<open>i \<notin> set res\<close> by (auto simp: valid_inv_def Let_def T')
  ultimately show ?thesis using inv unfolding valid_inv_def Let_def prod.case by simp
qed

text \<open>An open task stays open while nothing changes but what is known of it.\<close>

lemma valid_undecided:
  assumes inv: "valid_inv B K exec V0 txs L p sc0 ((sc, res), V, T)" and i: "i \<in> still_open V T"
    and v: "\<not> decided v" "verdict_ok B K (length txs) sc0 (shadow (shadowed V) sc) i v" and T': "T' = T - {i}"
  shows "valid_inv B K exec V0 txs L p sc0 ((sc, res), V(i \<mapsto> v), T')"
proof -
  have "shadowed (V(i \<mapsto> v)) = shadowed V" "still_open (V(i \<mapsto> v)) T' = still_open V T"
    using v(1) i inv by (auto simp: shadowed_def still_open_def T' valid_inv_def Let_def)
  moreover have "i \<in> dom V \<union> T" using i by (auto simp: still_open_def)
  ultimately show ?thesis using inv v(2) by (auto simp: valid_inv_def Let_def T')
qed

text \<open>A decided validation goes on.\<close>

lemma valid_decided:
  assumes inv: "valid_inv B K exec V0 txs L p sc0 ((sc, res), V, T)" and v: "V i = Some v" "decided v"
    and v': "\<And>w. v' = Some w \<Longrightarrow> decided w"
    and sc': "sane B K txs sc'" "step_at B K i sc sc'" "sc_state sc' = sc_state sc"
    and stays: "column B (store_of sc') (int i) = column B (store_of sc0) (int i) \<Longrightarrow>
      column B (store_of sc) (int i) = column B (store_of sc0) (int i)"
    and ok: "\<And>w. v' = Some w \<Longrightarrow> verdict_ok B K (length txs) sc0 (shadow (shadowed (V(i := v'))) sc') i w"
    and out: "v' = None \<and> t_Status (task_at sc' i) = statusPending \<and> res' = res @ [i] \<or>
      v' = None \<and> t_Status (task_at sc' i) = statusWaiting \<and> res' = res \<or> v' \<noteq> None \<and> res' = res"
  shows "valid_inv B K exec V0 txs L p sc0 ((sc', res'), V(i := v'), T)"
proof -
  let ?g = "shadow (shadowed V) sc" and ?V = "V(i := v')"
  let ?g' = "shadow (shadowed ?V) sc'"
  have pass: "pass_inv B K exec V0 txs L sc0 ({p..<length txs} - still_open V T) ?g res" and Lp: "L \<le> p"
    and dom: "dom V \<inter> T = {}" "dom V \<union> T \<subseteq> {p..<length txs}" using inv by (simp_all add: valid_inv_def Let_def)
  have sane: "sane B K txs sc" using pass by (simp add: pass_inv_def round_inv_def)
  have ip: "i \<in> {p..<length txs}" "i \<notin> T" "i \<notin> set res" using v dom inv by (auto simp: valid_inv_def Let_def)
  have sh: "shadowed ?V - {i} = shadowed V - {i}" "still_open ?V T = still_open V T" "i \<notin> still_open V T"
    "v' \<noteq> None \<longleftrightarrow> i \<in> shadowed ?V"
    using v v' ip(2) by (auto simp: shadowed_def still_open_def)
  then have step: "step_at B K i ?g ?g'" "sane B K txs ?g'" "sc_state ?g' = sc_state ?g"
    using sc' sane_length [OF sane] sane_length [OF sc'(1)] by (simp_all add: step_at_shadow)
  have "task_at ?g' i = (if v' = None then task_at sc' i else SetStatus statusWaiting (task_at sc' i))"
    using sh(4) ip(1) sane_length [OF sc'(1)] by (cases "v' = None") (auto simp: task_at_shadow)
  then have pass': "pass_inv B K exec V0 txs L sc0 ({p..<length txs} - still_open V T) ?g' res'"
    using out ip(1) sh(3) Lp stays by (intro pass_again [OF pass _ _ _ step(2,1,3)]) (auto split: if_splits)
  have verdicts: "verdict_ok B K (length txs) sc0 ?g' j w" if "?V j = Some w" for j w
  proof (cases "j = i")
    case True
    with that ok show ?thesis by simp
  next
    case False
    with that inv have "verdict_ok B K (length txs) sc0 ?g j w" by (simp add: valid_inv_def Let_def)
    then show ?thesis using sane step False stays by (intro verdict_ok_step [of txs ?g ?g' i]) simp_all
  qed
  have "dom ?V \<subseteq> dom V" "v' = None \<Longrightarrow> i \<notin> dom ?V" using v by auto
  with ip out inv have "distinct res'" "set res' \<inter> (dom ?V \<union> T) = {}" "dom ?V \<inter> T = {}" "dom ?V \<union> T \<subseteq> {p..<length txs}"
    by (auto simp: valid_inv_def Let_def)
  with pass' verdicts Lp show ?thesis unfolding valid_inv_def Let_def prod.case sh(2) by blast
qed

subsection \<open>The pieces keep the invariant\<close>

lemma begin_valid:
  assumes inv: "valid_inv B K exec V0 txs L p sc0 ((sc, res), V, T)" and i: "i \<in> T"
  shows "\<exists>v acc. beginValidation i (sc, res) = Inr (v, acc) \<and>
    valid_inv B K exec V0 txs L p sc0 (acc, V(i \<mapsto> v), T - {i})"
proof -
  let ?g = "shadow (shadowed V) sc"
  have pass: "pass_inv B K exec V0 txs L sc0 ({p..<length txs} - still_open V T) ?g res"
    and dom: "dom V \<inter> T = {}" "dom V \<union> T \<subseteq> {p..<length txs}" using inv by (simp_all add: valid_inv_def Let_def)
  have sane: "sane B K txs sc" using pass by (simp add: pass_inv_def round_inv_def)
  have il: "i < length txs" "i < length (sc_allTasks sc)" using i dom sane_length [OF sane] by auto
  have task: "t_AbsoluteIndex (task_at sc i) = int i" "fset (fmdom (t_Dependencies (task_at sc i))) \<subseteq> {0..<int (length txs)}"
    using sane_task_ok [OF sane il(1)] by (simp_all add: task_ok_def)
  have io: "i \<in> still_open V T" "V i = None" using i dom by (auto simp: still_open_def)
  then have gi: "task_at ?g i = task_at sc i" by (simp add: task_at_shadow shadowed_def)
  note undecided = valid_undecided [OF inv io(1) _ _ refl]
  consider (rerun) "t_Status (task_at sc i) \<in> {statusAborted, statusPending}"
    | (check) "t_Status (task_at sc i) \<in> {statusExecuted, statusValidated}"
    | (wait) "t_Status (task_at sc i) = statusWaiting"
    by (cases "t_Status (task_at sc i)") auto
  then show ?thesis
  proof cases
    case rerun
    have "valid_inv B K exec V0 txs L p sc0 ((sc, res), V(i \<mapsto> Rerun), T - {i})"
      using il sane by (intro valid_close [OF inv io(1)]) (auto simp: task_at_shadow shadowed_def verdict_ok_def)
    with rerun show ?thesis by (auto simp: beginValidation_def Let_def)
  next
    case check
    let ?v = "case fmlookup (txReadSets (store_of sc)) (int i) of None \<Rightarrow> Judge True (uniqueConflicts [])
      | Some rs \<Rightarrow> Check rs (fmkeys rs) True fmempty"
    have "verdict_ok B K (length txs) sc0 ?g i ?v"
    proof (cases "fmlookup (txReadSets (store_of sc)) (int i)")
      case None
      then have "still_valid B K sc0 ?g i" by (simp add: still_valid_def ValidateTransactionState_eq)
      with None check gi show ?thesis by (simp add: verdict_ok_def uniqueConflicts_id)
    next
      case (Some rs)
      then have "still_reads B K sc0 ?g i rs (fmkeys rs)"
        by (auto simp: still_reads_def read_valid_def in_fmdom_iff split: option.splits)
      with Some check gi show ?thesis by (simp add: verdict_ok_def)
    qed
    then have "valid_inv B K exec V0 txs L p sc0 ((sc, res), V(i \<mapsto> ?v), T - {i})"
      by (intro undecided) (simp_all split: option.split)
    with check show ?thesis by (auto simp: beginValidation_def Let_def sane_withStore [OF sane] task(1))
  next
    case wait
    then have "valid_inv B K exec V0 txs L p sc0 ((sc, res), V(i \<mapsto> Depend False (fmkeys (t_Dependencies (task_at sc i)))), T - {i})"
      using gi task(2) by (intro undecided) (simp_all add: verdict_ok_def)
    with wait show ?thesis by (auto simp: beginValidation_def Let_def)
  qed
qed

text \<open>What is known of a running validation.\<close>

lemma valid_running:
  assumes inv: "valid_inv B K exec V0 txs L p sc0 ((sc, res), V, T)" and v: "V i = Some v"
  shows "sane B K txs sc" "i < length txs" "i < length (sc_allTasks sc)" "i \<notin> T" "t_AbsoluteIndex (task_at sc i) = int i"
    "verdict_ok B K (length txs) sc0 (shadow (shadowed V) sc) i v" "\<not> decided v \<Longrightarrow> i \<in> still_open V T"
    "task_at (shadow (shadowed V) sc) i = (if decided v then SetStatus statusWaiting (task_at sc i) else task_at sc i)"
proof -
  have pass: "pass_inv B K exec V0 txs L sc0 ({p..<length txs} - still_open V T) (shadow (shadowed V) sc) res"
    and dom: "dom V \<inter> T = {}" "dom V \<union> T \<subseteq> {p..<length txs}" using inv by (simp_all add: valid_inv_def Let_def)
  show "verdict_ok B K (length txs) sc0 (shadow (shadowed V) sc) i v" "\<not> decided v \<Longrightarrow> i \<in> still_open V T"
    using inv v by (simp_all add: valid_inv_def Let_def still_open_def)
  show sane: "sane B K txs sc" using pass by (simp add: pass_inv_def round_inv_def)
  show il: "i < length txs" "i < length (sc_allTasks sc)" "i \<notin> T" using v dom sane_length [OF sane] by auto
  show "t_AbsoluteIndex (task_at sc i) = int i" using sane_task_ok [OF sane il(1)] by (simp add: task_ok_def)
  show "task_at (shadow (shadowed V) sc) i = (if decided v then SetStatus statusWaiting (task_at sc i) else task_at sc i)"
    using v il by (auto simp: task_at_shadow shadowed_def)
qed

lemma check_valid:
  assumes inv: "valid_inv B K exec V0 txs L p sc0 ((sc, res), V, T)" and v: "V i = Some (Check rs ks valid cs)"
  shows "\<exists>w. checkStep B K i rs ks valid cs sc = Inr w \<and> valid_inv B K exec V0 txs L p sc0 ((sc, res), V(i \<mapsto> w), T)"
proof -
  note run = valid_running [OF inv v]
  let ?g = "shadow (shadowed V) sc"
  have iT: "T = T - {i}" using run(4) by simp
  have io: "i \<in> still_open V T" using run(7) by simp
  have st: "t_Status (task_at ?g i) \<in> {statusExecuted, statusValidated}" "fmlookup (txReadSets (store_of sc)) (int i) = Some rs"
    "fset (fmdom cs) \<subseteq> {0..<int (length txs)}" "valid \<longrightarrow> cs = fmempty \<and> still_reads B K sc0 ?g i rs ks"
    using run(6) by (simp_all add: verdict_ok_def)
  show ?thesis
  proof (cases ks)
    case Nil
    have cs: "uniqueConflicts (sort (fmkeys cs)) = fmkeys cs" by (simp add: uniqueConflicts_id sorted_sort_id)
    have "still_valid B K sc0 ?g i" if valid
      using that st(2,4) Nil by (auto simp: still_valid_def still_reads_def ValidateTransactionState_eq)
    then have "verdict_ok B K (length txs) sc0 ?g i (Judge valid (fmkeys cs))" using st by (auto simp: verdict_ok_def)
    then have "valid_inv B K exec V0 txs L p sc0 ((sc, res), V(i \<mapsto> Judge valid (fmkeys cs)), T)"
      by (intro valid_undecided [OF inv io _ _ iT]) simp_all
    then show ?thesis by (simp add: checkStep_def Nil cs)
  next
    case (Cons k ks')
    let ?s = "store_of sc"
    define valid' where "valid' = (valid \<and> read_valid B K ?s (int i) rs k)"
    define cs' where "cs' = (case read_conflict B ?s (int i) rs k of None \<Rightarrow> cs | Some c \<Rightarrow> fmupd c () cs)"
    have "store_ok B K (length txs) ?s" using run(1) by (simp add: sane_def)
    then have "c \<in> {0..<int (length txs)}" if "read_conflict B ?s (int i) rs k = Some c" for c
      using that by (auto simp: read_conflict_iff store_latest_before_Some store_ok_def)
    then have "fset (fmdom cs') \<subseteq> {0..<int (length txs)}" using st(3) by (auto simp: cs'_def split: option.split)
    moreover have "cs' = fmempty" "still_reads B K sc0 ?g i rs ks'" if valid'
    proof -
      have r: valid "read_valid B K ?s (int i) rs k" using that by (simp_all add: valid'_def)
      from r(2) have "read_conflict B ?s (int i) rs k = None" using read_conflict_invalid by (metis not_None_eq)
      with r(1) st(4) show "cs' = fmempty" by (simp add: cs'_def)
      show "still_reads B K sc0 ?g i rs ks'" using r st(4) Cons by (auto simp: still_reads_def)
    qed
    ultimately have "verdict_ok B K (length txs) sc0 ?g i (Check rs ks' valid' cs')" using st(1,2) by (simp add: verdict_ok_def)
    then have "valid_inv B K exec V0 txs L p sc0 ((sc, res), V(i \<mapsto> Check rs ks' valid' cs'), T)"
      by (intro valid_undecided [OF inv io _ _ iT]) simp_all
    moreover have "checkStep B K i rs ks valid cs sc = Inr (Check rs ks' valid' cs')"
      by (simp add: checkStep_def Cons sane_withStore [OF run(1)] run(5) checkRead_eq valid'_def cs'_def)
    ultimately show ?thesis by blast
  qed
qed

lemma judge_valid:
  assumes inv: "valid_inv B K exec V0 txs L p sc0 ((sc, res), V, T)" and v: "V i = Some (Judge valid cs)"
  shows "\<exists>v' acc. nextValidation B K i (Judge valid cs) (sc, res) = Inr (v', acc) \<and>
    valid_inv B K exec V0 txs L p sc0 (acc, V(i := v'), T)"
proof -
  note run = valid_running [OF inv v]
  let ?g = "shadow (shadowed V) sc"
  have iT: "T = T - {i}" and io: "i \<in> still_open V T" using run(4,7) by simp_all
  note close = valid_close [OF inv io _ iT]
  have st: "t_Status (task_at sc i) \<in> {statusExecuted, statusValidated}"
    "valid \<longrightarrow> cs = [] \<and> still_valid B K sc0 ?g i" "set cs \<subseteq> {0..<int (length txs)}"
    using run(6,8) by (simp_all add: verdict_ok_def)
  show ?thesis
  proof (cases valid)
    case True
    have "sane B K txs (updTask i (SetStatus statusValidated) sc)"
      using sane_task_ok [OF run(1,2)] by (intro sane_updTask run) (simp add: task_ok_def)
    then have "valid_inv B K exec V0 txs L p sc0 ((updTask i (SetStatus statusValidated) sc, res), V(i := None), T)"
      using True st run(3,8) by (intro close) (auto simp: step_at_updTask task_at_updTask)
    with True st(2) show ?thesis by (simp add: nextValidation_def)
  next
    case False
    let ?s = "store_of sc"
    let ?ks = "case fmlookup (txWritesetKeys ?s) (int i) of None \<Rightarrow> [] | Some keys \<Rightarrow> keys"
    have pass: "pass_inv B K exec V0 txs L sc0 ({p..<length txs} - still_open V T) ?g res"
      using inv by (simp add: valid_inv_def Let_def)
    moreover have "int i \<notin> int ` ({p..<length txs} - still_open V T)" using io by auto
    ultimately have "column B ?s (int i) = column B (store_of sc0) (int i)" by (simp add: pass_inv_def)
    moreover have "coherent B exec ?g i" using pass st(1) run(2,8) by (auto simp: pass_inv_def round_inv_def)
    ultimately have "\<not> vi_estimate it" if "column B (store_of sc0) (int i) k = Some it" for k it
      using that by (auto simp: coherent_def)
    moreover have "store_inv B ?s" using run(1) by (simp add: sane_def store_ok_def)
    then have "\<forall>k\<in>set ?ks. column B ?s (int i) k \<noteq> None"
      by (auto simp: store_inv_def recorded_keys_def split: option.splits)
    ultimately have "verdict_ok B K (length txs) sc0 (shadow (shadowed (V(i \<mapsto> Withdraw ?ks cs))) sc) i (Withdraw ?ks cs)"
      using st(3) run(3) by (auto simp: verdict_ok_def task_at_shadow shadowed_def)
    then have "valid_inv B K exec V0 txs L p sc0 ((sc, res), V(i \<mapsto> Withdraw ?ks cs), T)"
      using run(1,3) by (intro close) (auto simp: task_at_shadow shadowed_def)
    with False show ?thesis by (auto simp: nextValidation_def sane_withStore [OF run(1)] run(5))
  qed
qed

text \<open>The withdrawal of one version.\<close>

lemma estimate_ok:
  fixes inc :: int
  assumes sane: "sane B K txs sc" and i: "i < length txs" and k: "column B (store_of sc) (int i) k \<noteq> None"
  defines "sc' \<equiv> updStore ((store_of sc)\<lparr>multiVersionMap := estimateKey B (int i) inc k (multiVersionMap (store_of sc))\<rparr>) sc"
  shows "sane B K txs sc'" "step_at B K i sc sc'" "sc_state sc' = sc_state sc" "task_at sc' = task_at sc"
    "column B (store_of sc') (int i) = (column B (store_of sc) (int i))(k \<mapsto> NewEstimateItem (int i) inc)"
proof -
  let ?s = "store_of sc" and ?s' = "(store_of sc)\<lparr>multiVersionMap := estimateKey B (int i) inc k (multiVersionMap (store_of sc))\<rparr>"
  have sto: "store_ok B K (length txs) ?s" using sane by (simp add: sane_def)
  have col: "column B ?s' j l = (if j = int i \<and> l = k then Some (NewEstimateItem (int i) inc) else column B ?s j l)" for j l
    by (simp add: column_def store_versions_def map_versions_estimateKey)
  have rec: "recorded_keys ?s' = recorded_keys ?s" by (simp add: recorded_keys_def fun_eq_iff)
  have "store_inv B ?s'" using sto k by (auto simp: store_ok_def store_inv_def col rec)
  moreover have "canonical_key K l" if "l \<in> fset (fmdom (multiVersionMap ?s'))" for l
  proof -
    have "k \<in> fset (fmdom (multiVersionMap ?s))"
      using k by (auto simp: column_def store_versions_def map_versions_def in_fmdom_iff split: option.splits)
    with that sto show ?thesis by (auto simp: store_ok_def estimateKey_def)
  qed
  ultimately have "store_ok B K (length txs) ?s'"
    using sto i by (auto simp: store_ok_def col NewEstimateItem_def split: if_splits)
  with sane show "sane B K txs sc'" unfolding sc'_def by (intro sane_updStore) (simp_all add: sane_def)
  show "step_at B K i sc sc'" by (auto simp: step_at_def sc'_def col fun_eq_iff)
qed (simp_all add: sc'_def column_def store_versions_def map_versions_estimateKey fun_eq_iff)

lemma clear_ok:
  assumes sane: "sane B K txs sc" and i: "i < length txs" and cs: "set cs \<subseteq> {0..<int (length txs)}"
  defines "sc' \<equiv> updTask i (AppendDependencies cs) (updStore (ClearReadset (store_of sc) (int i)) sc)"
  shows "sane B K txs sc'" "step_at B K i sc sc'" "sc_state sc' = sc_state sc"
    "column B (store_of sc') = column B (store_of sc)" "task_at sc' i = AppendDependencies cs (task_at sc i)"
proof -
  have len: "i < length (sc_allTasks sc)" using sane i by (simp add: sane_length)
  show "sane B K txs sc'"
    unfolding sc'_def using sane_task_ok [OF sane i] sane cs i
    by (intro sane_updTask sane_updStore sane) (auto simp: sane_def task_ok_def)
  show "step_at B K i sc sc'" "sc_state sc' = sc_state sc" "column B (store_of sc') = column B (store_of sc)"
    "task_at sc' i = AppendDependencies cs (task_at sc i)"
    using len by (auto simp: sc'_def step_at_def task_at_updTask)
qed

lemma withdraw_valid:
  assumes inv: "valid_inv B K exec V0 txs L p sc0 ((sc, res), V, T)" and v: "V i = Some (Withdraw ks cs)"
  shows "\<exists>w sc'. withdrawStep B i ks cs sc = Inr (w, sc') \<and> valid_inv B K exec V0 txs L p sc0 ((sc', res), V(i \<mapsto> w), T)"
proof -
  note run = valid_running [OF inv v]
  have st: "set cs \<subseteq> {0..<int (length txs)}" "\<forall>k\<in>set ks. column B (store_of sc) (int i) k \<noteq> None"
    "\<And>k it. column B (store_of sc0) (int i) k = Some it \<Longrightarrow> \<not> vi_estimate it"
    using run(6) by (auto simp: verdict_ok_def)
  note decided = valid_decided [OF inv v]
  show ?thesis
  proof (cases ks)
    case Nil
    let ?sc = "updTask i (AppendDependencies cs) (updStore (ClearReadset (store_of sc) (int i)) sc)"
    note c = clear_ok [OF run(1,2) st(1)]
    let ?w = "Depend True (fmkeys (t_Dependencies (task_at ?sc i)))"
    have "fset (fmdom (t_Dependencies (task_at ?sc i))) \<subseteq> {0..<int (length txs)}"
      using sane_task_ok [OF c(1) run(2)] by (simp add: task_ok_def)
    then have "verdict_ok B K (length txs) sc0 (shadow (shadowed (V(i \<mapsto> ?w))) ?sc) i ?w"
      using run(3) by (simp add: verdict_ok_def task_at_shadow shadowed_def)
    then have "valid_inv B K exec V0 txs L p sc0 ((?sc, res), V(i \<mapsto> ?w), T)"
      using c by (intro decided) auto
    then show ?thesis by (simp add: withdrawStep_def Nil sane_withStore [OF run(1)] run(5) Let_def)
  next
    case (Cons k ks')
    let ?inc = "t_Incarnation (task_at sc i)"
    let ?sc = "updStore ((store_of sc)\<lparr>multiVersionMap := estimateKey B (int i) ?inc k (multiVersionMap (store_of sc))\<rparr>) sc"
    have "column B (store_of sc) (int i) k \<noteq> None" using st(2) Cons by simp
    note e = estimate_ok [OF run(1,2) this, where inc = ?inc]
    have "column B (store_of ?sc) (int i) \<noteq> column B (store_of sc0) (int i)"
    proof
      assume "column B (store_of ?sc) (int i) = column B (store_of sc0) (int i)"
      then have "column B (store_of sc0) (int i) k = Some (NewEstimateItem (int i) ?inc)" using e(5) by (metis fun_upd_same)
      from st(3) [OF this] show False by (simp add: NewEstimateItem_def)
    qed
    moreover have "verdict_ok B K (length txs) sc0 (shadow (shadowed (V(i \<mapsto> Withdraw ks' cs))) ?sc) i (Withdraw ks' cs)"
      using st run(3) e(4,5) Cons by (auto simp: verdict_ok_def task_at_shadow shadowed_def)
    ultimately have "valid_inv B K exec V0 txs L p sc0 ((?sc, res), V(i \<mapsto> Withdraw ks' cs), T)"
      using e(1-3) by (intro decided) auto
    then show ?thesis by (simp add: withdrawStep_def Cons sane_withStore [OF run(1)] run(5) Let_def)
  qed
qed

text \<open>The look at a dependency that is validated, or at none that is left, and at one that is not.\<close>

lemma depend_on:
  assumes inv: "valid_inv B K exec V0 txs L p sc0 ((sc, res), V, T)" and v: "V i = Some (Depend marks ds)"
    and v': "v' = Rerun \<or> (\<exists>ds'. v' = Depend marks ds' \<and> set ds' \<subseteq> set ds)"
  shows "valid_inv B K exec V0 txs L p sc0 ((sc, res), V(i \<mapsto> v'), T)"
proof (cases "decided (Depend marks ds)")
  case True
  note run = valid_running [OF inv v]
  have "set ds \<subseteq> {0..<int (length txs)}" using run(6) by (simp add: verdict_ok_def)
  with True v' run show ?thesis
    by (intro valid_decided [OF inv v]) (auto simp: verdict_ok_def task_at_shadow shadowed_def)
next
  case False
  note run = valid_running [OF inv v]
  have st: "t_Status (task_at (shadow (shadowed V) sc) i) = statusWaiting" "set ds \<subseteq> {0..<int (length txs)}"
    using run(6) by (simp_all add: verdict_ok_def)
  have iT: "T = T - {i}" and io: "i \<in> still_open V T" using run(4) run(7) [OF False] by simp_all
  from v' show ?thesis
  proof
    assume "v' = Rerun"
    with run(1,3) show ?thesis by (intro valid_close [OF inv io _ iT]) (auto simp: verdict_ok_def task_at_shadow shadowed_def)
  next
    assume "\<exists>ds'. v' = Depend marks ds' \<and> set ds' \<subseteq> set ds"
    with False st show ?thesis by (intro valid_undecided [OF inv io _ _ iT]) (auto simp: verdict_ok_def)
  qed
qed

lemma depend_waits:
  assumes inv: "valid_inv B K exec V0 txs L p sc0 ((sc, res), V, T)" and v: "V i = Some (Depend marks ds)"
  shows "valid_inv B K exec V0 txs L p sc0
    ((if marks then updTask i (SetStatus statusWaiting) sc else sc, res), V(i := None), T)"
proof -
  note run = valid_running [OF inv v]
  have sane: "sane B K txs (updTask i (SetStatus statusWaiting) sc)"
    using sane_task_ok [OF run(1,2)] by (intro sane_updTask run) (simp add: task_ok_def)
  have iT: "T = T - {i}" using run(4) by simp
  have st: "t_Status (task_at (shadow (shadowed V) sc) i) = statusWaiting" using run(6) by (simp add: verdict_ok_def)
  show ?thesis
  proof (cases marks)
    case True
    with run(3) sane show ?thesis
      by (intro valid_decided [OF inv v]) (simp_all add: step_at_updTask task_at_updTask)
  next
    case False
    with run(1,7,8) st show ?thesis by (intro valid_close [OF inv _ _ iT]) (auto simp: task_at_shadow)
  qed
qed

lemma depend_valid:
  assumes inv: "valid_inv B K exec V0 txs L p sc0 ((sc, res), V, T)" and v: "V i = Some (Depend marks ds)"
  shows "\<exists>v' sc'. dependStep i marks ds sc = Inr (v', sc') \<and> valid_inv B K exec V0 txs L p sc0 ((sc', res), V(i := v'), T)"
proof (cases ds)
  case Nil
  with depend_on [OF assms, of Rerun] show ?thesis by (simp add: dependStep_def)
next
  case (Cons d ds')
  note run = valid_running [OF inv v]
  have "set ds \<subseteq> {0..<int (length txs)}" using run(6) by (simp add: verdict_ok_def)
  with Cons have "0 \<le> d" "nat d < length txs" by auto
  then have p: "fmlookup (sc_allTasksMap sc) d = Some (nat d)" using run(1) unfolding sane_def by (metis int_nat_eq)
  show ?thesis
  proof (cases "IsValidated (task_at sc (nat d))")
    case True
    with depend_on [OF assms, of "Depend marks ds'"] p Cons show ?thesis by (auto simp: dependStep_def)
  next
    case False
    with depend_waits [OF assms] p Cons show ?thesis by (auto simp: dependStep_def cong: if_cong)
  qed
qed

lemma rerun_valid:
  assumes inv: "valid_inv B K exec V0 txs L p sc0 ((sc, res), V, T)" and v: "V i = Some Rerun"
  shows "\<exists>v' acc. nextValidation B K i Rerun (sc, res) = Inr (v', acc) \<and>
    valid_inv B K exec V0 txs L p sc0 (acc, V(i := v'), T)"
proof -
  note run = valid_running [OF inv v]
  define sc1 where "sc1 = updTask i (\<lambda>t. Increment (Task_Reset t)) sc"
  define sc2 where "sc2 = (if t_Incarnation (task_at sc1 i) > sint (sc_maxIncarnation sc1)
    then sc1\<lparr>sc_maxIncarnation := word_of_int (t_Incarnation (task_at sc1 i))\<rparr> else sc1)"
  have "sane B K txs sc1" "step_at B K i sc sc1" using reset_ok [OF run(1,2)] by (simp_all add: sc1_def)
  then have sc2: "sane B K txs sc2" "step_at B K i sc sc2" "sc_state sc2 = sc_state sc" "store_of sc2 = store_of sc"
    "t_Status (task_at sc2 i) = statusPending"
    using run(3) by (simp_all add: sc2_def sane_def step_at_def store_of_def task_at_def)
      (simp_all add: sc1_def task_at_updTask flip: task_at_def)
  then have "valid_inv B K exec V0 txs L p sc0 ((sc2, res @ [i]), V(i := None), T)"
    by (intro valid_decided [OF inv v]) simp_all
  moreover have "nextValidation B K i Rerun (sc, res) = Inr (None, sc2, res @ [i])"
    by (simp add: nextValidation_def Let_def sc2_def flip: sc1_def)
  ultimately show ?thesis by blast
qed

lemma next_valid:
  assumes inv: "valid_inv B K exec V0 txs L p sc0 ((sc, res), V, T)" and v: "V i = Some v"
  shows "\<exists>v' acc. nextValidation B K i v (sc, res) = Inr (v', acc) \<and>
    valid_inv B K exec V0 txs L p sc0 (acc, V(i := v'), T)"
proof (cases v)
  case (Check rs ks valid cs)
  with check_valid [OF inv] v show ?thesis by (fastforce simp: nextValidation_def)
next
  case (Judge valid cs)
  with judge_valid [OF inv] v show ?thesis by simp
next
  case (Withdraw ks cs)
  with withdraw_valid [OF inv] v show ?thesis by (fastforce simp: nextValidation_def)
next
  case (Depend marks ds)
  with depend_valid [OF inv] v show ?thesis by (fastforce simp: nextValidation_def)
next
  case Rerun
  with rerun_valid [OF inv] v show ?thesis by simp
qed

lemma valid_preserved:
  assumes "run_step beginValidation (nextValidation B K) ph ph'" "valid_inv B K exec V0 txs L p sc0 ph"
  shows "valid_inv B K exec V0 txs L p sc0 ph'"
  using assms
proof (cases rule: run_step.cases)
  case (Start i T acc v acc' V)
  with begin_valid [of V0 txs L p sc0 "fst acc" "snd acc" V T i] assms(2) show ?thesis by auto
next
  case (Next V i v acc v' acc' T)
  with next_valid [of V0 txs L p sc0 "fst acc" "snd acc" V T i v] assms(2) show ?thesis by auto
qed

lemma valid_reaches:
  assumes "rtranclp (run_step beginValidation (nextValidation B K)) ph ph'" "valid_inv B K exec V0 txs L p sc0 ph"
  shows "valid_inv B K exec V0 txs L p sc0 ph'"
  using assms by (induction rule: rtranclp_induct) (auto intro: valid_preserved)

text \<open>The start and the end of the phase.\<close>

lemma valid_start:
  assumes "round_inv B K exec V0 txs L sc" "\<forall>i<L. validated sc i" "findFirstNonValidated sc = (p, anyLeft)" "L \<le> length txs"
  shows "valid_inv B K exec V0 txs L (if anyLeft then p else length txs) sc
    ((sc, []), Map.empty, if anyLeft then {p..<length txs} else {})"
proof -
  have "L \<le> p" if anyLeft
  proof (cases "allValidated (sc_allTasks sc)")
    case True
    with that assms(3) show ?thesis by (simp add: findFirstNonValidated_None)
  next
    case False
    then obtain p' where "findFirstNonValidated sc = (p', True)" "\<not> validated sc p'" by (rule findFirstNonValidated_Some)
    with assms(2,3) show ?thesis by (metis not_le prod.inject)
  qed
  with assms(1,4) show ?thesis
    by (auto simp: valid_inv_def Let_def shadowed_def still_open_def pass_inv_def)
qed

lemma valid_end:
  assumes inv: "valid_inv B K exec V0 txs L p sc0 ((sc, res), Map.empty, {})"
    and pre: "prefix_settled B V0 (length txs) sc0" and val: "\<forall>i<L. validated sc0 i"
  shows "round_inv B K exec V0 txs L sc \<and> prefix_settled B V0 (length txs) sc \<and> (\<forall>i<L. validated sc i) \<and>
    (\<forall>i\<in>set res. i < length txs \<and> \<not> validated sc i) \<and> distinct res"
proof -
  have pass: "pass_inv B K exec V0 txs L sc0 {p..<length txs} sc res" and L: "L \<le> p" and "distinct res"
    using inv by (simp_all add: valid_inv_def Let_def shadowed_def still_open_def)
  moreover have "\<forall>i<L. validated sc i" using pass val L by (simp add: pass_inv_def)
  ultimately show ?thesis using pass_end [OF pass pre L] by (simp add: pass_inv_def)
qed

end

text \<open>
  No piece of a validation panics, and every validation phase comes to an end: what is left gets
  smaller in the order of the pieces, and of the keys and dependencies within them.
\<close>

definition pieces_left :: "verdict \<Rightarrow> nat \<times> nat" where
  "pieces_left v =
     (case v of
        Check rs ks valid cs \<Rightarrow> (4, length ks)
      | Judge valid cs \<Rightarrow> (3, 0)
      | Withdraw ks cs \<Rightarrow> (2, length ks)
      | Depend marks ds \<Rightarrow> (1, length ds)
      | Rerun \<Rightarrow> (0, 0))"

definition valid_order_left :: "(verdict \<times> verdict) set" where
  "valid_order_left = inv_image (less_than <*lex*> less_than) pieces_left"

lemma nextValidation_left:
  assumes "nextValidation B K i v acc = Inr (Some v', acc')"
  shows "(v', v) \<in> valid_order_left"
  using assms
  by (cases v) (auto simp: nextValidation_def checkStep_def withdrawStep_def dependStep_def withStore_def pbind_eq_Inr Let_def
      valid_order_left_def pieces_left_def split: prod.splits list.splits option.splits if_splits)

sublocale deterministic_delivery \<subseteq> vals: job_system beginValidation "nextValidation B K"
  "\<lambda>ph :: ('s, 't, 'tx, 'rc, 'tc) validation \<times> (nat \<rightharpoonup> verdict) \<times> nat set. \<exists>V0 txs L p sc0.
     valid_inv B K exec V0 txs L p sc0 ph" valid_order_left
proof
  fix ph ph' :: "('s, 't, 'tx, 'rc, 'tc) validation \<times> (nat \<rightharpoonup> verdict) \<times> nat set"
  assume step: "run_step beginValidation (nextValidation B K) ph ph'"
    and inv: "\<exists>V0 txs L p sc0. valid_inv B K exec V0 txs L p sc0 ph"
  from inv valid_preserved [OF step] show "\<exists>V0 txs L p sc0. valid_inv B K exec V0 txs L p sc0 ph'" by blast
next
  fix acc :: "('s, 't, 'tx, 'rc, 'tc) validation" and V T i v
  assume inv: "\<exists>V0 txs L p sc0. valid_inv B K exec V0 txs L p sc0 (acc, V, T)"
  obtain sc res where acc: "acc = (sc, res)" by fastforce
  from inv show "\<exists>v acc'. beginValidation i acc = Inr (v, acc')" if "i \<in> T"
    using begin_valid that unfolding acc by blast
  from inv show "\<exists>v' acc'. nextValidation B K i v acc = Inr (v', acc')" if "V i = Some v"
    using next_valid that unfolding acc by blast
  from inv show "finite T \<and> finite (dom V)"
    unfolding acc by (auto simp: valid_inv_def Let_def intro: finite_subset)
next
  show "wf valid_order_left" unfolding valid_order_left_def by (intro wf_inv_image wf_lex_prod wf_less_than)
qed (rule nextValidation_left)

end
