(* ===== verification/Interleaving.thy ===== *)
theory Interleaving
  imports Exec_Jobs Valid_Phase
begin

text \<open>
  The rounds of \<open>ProcessAll\<close> with the worker pools it starts. A pass of the loop writes back the
  validated prefix, sends the tasks to execute to the execution pool, waits until it is idle, sends
  the tasks to validate to the validation pool and waits again. The pools interleave the pieces of
  the tasks. The passes keep the invariant of the rounds and never get stuck, and the loop of
  \<open>Scheduler\<close>, which runs every task as one step, is one of their runs.
\<close>

section \<open>Passes\<close>

abbreviation exec_pool ::
  "'t vtree \<Rightarrow> ('s, 'tx) kaia \<Rightarrow> ('s, 'tx, 'rc, 'tc, 'c, 'h) blockchain \<Rightarrow> 'c \<Rightarrow> 'h \<Rightarrow> nat \<Rightarrow>
   ('s, 't, 'tx, 'rc, 'tc) scheduler \<times> ('s, 'rc, 'tc) execution pool \<Rightarrow>
   ('s, 't, 'tx, 'rc, 'tc) scheduler \<times> ('s, 'rc, 'tc) execution pool \<Rightarrow> bool" where
  "exec_pool B K bc config header n \<equiv> pool_step n (startTask K bc config header) (nextTask B K)"

abbreviation valid_pool ::
  "'t vtree \<Rightarrow> ('s, 'tx) kaia \<Rightarrow> nat \<Rightarrow> ('s, 't, 'tx, 'rc, 'tc) validation \<times> verdict pool \<Rightarrow>
   ('s, 't, 'tx, 'rc, 'tc) validation \<times> verdict pool \<Rightarrow> bool" where
  "valid_pool B K n \<equiv> pool_step n beginValidation (nextValidation B K)"

text \<open>
  The pools as \<open>executeAll\<close> and \<open>validateAll\<close> fill them: the channels have room for every task; the
  execution pool has the workers that \<open>ProcessAll\<close> started, the validation pool one for every task.
\<close>

definition execute_jobs :: "('s, 't, 'tx, 'rc, 'tc) scheduler \<Rightarrow> nat list \<Rightarrow> ('s, 'rc, 'tc) execution pool" where
  "execute_jobs sc toExecute = new_pool (nat (startedWorkers (sc_workers sc) (length (sc_allTasks sc)))) toExecute"

definition validate_jobs :: "('s, 't, 'tx, 'rc, 'tc) scheduler \<Rightarrow> verdict pool" where
  "validate_jobs sc =
     (case findFirstNonValidated sc of (startIdx, anyLeft) \<Rightarrow>
      new_pool (length (sc_allTasks sc)) (if anyLeft then [startIdx..<length (sc_allTasks sc)] else []))"

text \<open>
  One pass: from the index up to which the state is written back, the tasks to execute and the
  scheduler to those of the next pass.
\<close>

inductive pool_round ::
  "'t vtree \<Rightarrow> ('s, 'tx) kaia \<Rightarrow> ('s, 'tx, 'rc, 'tc, 'c, 'h) blockchain \<Rightarrow> 'c \<Rightarrow> 'h \<Rightarrow>
   nat \<times> nat list \<times> ('s, 't, 'tx, 'rc, 'tc) scheduler \<Rightarrow> nat \<times> nat list \<times> ('s, 't, 'tx, 'rc, 'tc) scheduler \<Rightarrow> bool"
  for B K bc config header where
  Pass: "\<not> allValidated (sc_allTasks sc) \<Longrightarrow> findFirstNonValidated sc = (p, anyLeft) \<Longrightarrow>
    (if p > l then flushUntil B K (int l) (int p) sc else Inr sc) = Inr sc1 \<Longrightarrow>
    rtranclp (exec_pool B K bc config header (length (sc_allTasks sc))) (sc1, execute_jobs sc1 toExecute) (sc2, q) \<Longrightarrow>
    idle q \<Longrightarrow>
    rtranclp (valid_pool B K (length (sc_allTasks sc))) ((sc2, []), validate_jobs sc2) ((sc3, res), q') \<Longrightarrow>
    idle q' \<Longrightarrow>
    pool_round B K bc config header (l, toExecute, sc) (if p > l then p else l, res, sc3)"

text \<open>What holds between two passes.\<close>

definition between ::
  "'t vtree \<Rightarrow> ('s, 'tx) kaia \<Rightarrow> ('s, 'tx) effects \<Rightarrow> (StorageKey \<Rightarrow> hash) \<Rightarrow> 'tx list \<Rightarrow>
   nat \<times> nat list \<times> ('s, 't, 'tx, 'rc, 'tc) scheduler \<Rightarrow> bool" where
  "between B K exec V0 txs ls \<longleftrightarrow>
     (case ls of (l, toExecute, sc) \<Rightarrow>
      round_inv B K exec V0 txs l sc \<and> prefix_settled B V0 (length txs) sc \<and> (\<forall>i<l. validated sc i) \<and>
      (\<forall>i\<in>set toExecute. i < length txs \<and> \<not> validated sc i) \<and> distinct toExecute)"

context deterministic_evm
begin

text \<open>The start of a pass.\<close>

lemma pass_start:
  assumes "between B K (traced_effects B K bc config header) V0 txs (l, toExecute, sc)" "\<not> allValidated (sc_allTasks sc)"
  obtains p sc1 where "findFirstNonValidated sc = (p, True)" "l \<le> p" "p < length txs" "length (sc_allTasks sc) = length txs"
    "(if p > l then flushUntil B K (int l) (int p) sc else Inr sc) = Inr sc1" "prefix_settled B V0 (length txs) sc1"
    "pool_ok (length txs) (execute_jobs sc1 toExecute)"
    "exec_inv B K bc config header V0 (state_values K (sc_state sc1)) txs p
       (sc1, running (execute_jobs sc1 toExecute), waiting (execute_jobs sc1 toExecute))"
    "pl_workers (execute_jobs sc1 toExecute) \<noteq> []"
proof -
  have inv: "round_inv B K (traced_effects B K bc config header) V0 txs l sc" "prefix_settled B V0 (length txs) sc"
    "\<forall>i<l. validated sc i" "\<forall>i\<in>set toExecute. i < length txs \<and> \<not> validated sc i" "distinct toExecute"
    using assms(1) by (simp_all add: between_def)
  obtain p sc1 where p: "findFirstNonValidated sc = (p, True)" "l \<le> p"
    and sc1: "(if p > l then flushUntil B K (int l) (int p) sc else Inr sc) = Inr sc1"
      "round_inv B K (traced_effects B K bc config header) V0 txs p sc1" "prefix_settled B V0 (length txs) sc1"
      "\<forall>i<p. validated sc1 i" "\<forall>i\<in>set toExecute. i < length txs \<and> p \<le> i \<and> \<not> validated sc1 i"
    by (rule start_round [OF inv(1-4) assms(2)])
  have len: "length (sc_allTasks sc) = length txs" "length (sc_allTasks sc1) = length txs"
    using inv(1) sc1(2) by (simp_all add: round_inv_def sane_def)
  obtain p' where "findFirstNonValidated sc = (p', True)" "p' < length (sc_allTasks sc)"
    using assms(2) by (rule findFirstNonValidated_Some)
  with p(1) len(1) have "p < length txs" by simp
  moreover have "set toExecute \<subseteq> {..<length txs}" using sc1(5) by auto
  then have "card (set toExecute) \<le> length txs" using card_mono [of "{..<length txs}"] by fastforce
  then have "pool_ok (length txs) (execute_jobs sc1 toExecute)"
    using inv(5) by (simp add: execute_jobs_def new_pool_ok distinct_card)
  moreover have "pl_workers (execute_jobs sc1 toExecute) \<noteq> []"
    using \<open>p < length txs\<close> len(2) by (auto simp: execute_jobs_def new_pool_def startedWorkers_def)
  moreover have "phase_inv B K bc config header V0 (state_values K (sc_state sc1)) txs p (sc1, Map.empty, set toExecute)"
    using sc1(2-5) by (simp add: phase_inv_def)
  then have "exec_inv B K bc config header V0 (state_values K (sc_state sc1)) txs p
       (sc1, running (execute_jobs sc1 toExecute), waiting (execute_jobs sc1 toExecute))"
    by (simp add: execute_jobs_def new_pool_simps exec_inv_start)
  ultimately show ?thesis using that [OF p _ len(1) sc1(1,3)] by blast
qed

text \<open>The hand-over from the execution phase to the validation phase.\<close>

lemma pass_middle:
  assumes "phase_inv B K bc config header V0 V txs p (sc, Map.empty, {})" "p < length txs"
  obtains p' where "pool_ok (length txs) (validate_jobs sc)" "pl_workers (validate_jobs sc) \<noteq> []"
    "valid_inv B K (traced_effects B K bc config header) V0 txs p p' sc
       ((sc, []), running (validate_jobs sc), waiting (validate_jobs sc))"
proof -
  have inv: "round_inv B K (traced_effects B K bc config header) V0 txs p sc" "\<forall>i<p. validated sc i"
    using assms(1) by (simp_all add: phase_inv_def)
  obtain p2 anyLeft where f: "findFirstNonValidated sc = (p2, anyLeft)" by fastforce
  have len: "length (sc_allTasks sc) = length txs" using inv(1) by (simp add: round_inv_def sane_def)
  have "pool_ok (length txs) (validate_jobs sc)" "pl_workers (validate_jobs sc) \<noteq> []"
    using assms(2) by (auto simp: validate_jobs_def f len new_pool_ok) (auto simp: new_pool_def)
  then show ?thesis
    using that valid_start [OF inv f] assms(2) by (cases anyLeft) (simp_all add: validate_jobs_def f new_pool_simps len)
qed

lemma pool_round_between:
  assumes "pool_round B K bc config header ls ls'" "between B K (traced_effects B K bc config header) V0 txs ls"
  shows "between B K (traced_effects B K bc config header) V0 txs ls'"
  using assms
proof (cases rule: pool_round.cases)
  case (Pass sc p anyLeft l sc1 toExecute sc2 q sc3 res q')
  obtain p' sc1' where "findFirstNonValidated sc = (p', True)" and lp: "l \<le> p'" "p' < length txs"
    and len: "length (sc_allTasks sc) = length txs"
    and "(if p' > l then flushUntil B K (int l) (int p') sc else Inr sc) = Inr sc1'"
    and "pool_ok (length txs) (execute_jobs sc1' toExecute)"
      "exec_inv B K bc config header V0 (state_values K (sc_state sc1')) txs p'
         (sc1', running (execute_jobs sc1' toExecute), waiting (execute_jobs sc1' toExecute))"
    using pass_start [of V0 txs l toExecute sc] assms(2) Pass(1,3) by blast
  moreover from this(1,5) Pass(4,5) have [simp]: "p' = p" "sc1' = sc1" by auto
  ultimately have "exec_inv B K bc config header V0 (state_values K (sc_state sc1)) txs p (sc2, running q, waiting q)"
    using pool_runs_refine [OF Pass(6)] exec_reaches by (simp add: len) blast
  then have mid: "phase_inv B K bc config header V0 (state_values K (sc_state sc1)) txs p (sc2, Map.empty, {})"
    by (intro exec_inv_end) (simp add: idle_simps [OF Pass(7)])
  from pass_middle [OF this] lp obtain pv where "pool_ok (length txs) (validate_jobs sc2)"
    "valid_inv B K (traced_effects B K bc config header) V0 txs p pv sc2
       ((sc2, []), running (validate_jobs sc2), waiting (validate_jobs sc2))" by auto
  then have "valid_inv B K (traced_effects B K bc config header) V0 txs p pv sc2 ((sc3, res), running q', waiting q')"
    using pool_runs_refine [OF Pass(8)] valid_reaches by (simp add: len) blast
  then have "valid_inv B K (traced_effects B K bc config header) V0 txs p pv sc2 ((sc3, res), Map.empty, {})"
    by (simp add: idle_simps [OF Pass(9)])
  from valid_end [OF this] mid lp(1) show ?thesis unfolding Pass(2) between_def by (simp add: phase_inv_def)
qed

lemma pool_rounds_between:
  assumes "rtranclp (pool_round B K bc config header) ls ls'" "between B K (traced_effects B K bc config header) V0 txs ls"
  shows "between B K (traced_effects B K bc config header) V0 txs ls'"
  using assms by (induction rule: rtranclp_induct) (auto intro: pool_round_between)

lemma between_start:
  assumes "block reqs"
  shows "between B K (traced_effects B K bc config header) (state_values K st) (map en_Tx reqs)
    (0, [0..<length reqs], startState st w reqs)"
  using round_inv_start [OF assms, of st w] by (auto simp: between_def task_at_startState newTask_def)

lemma interleaved_serial:
  assumes "block reqs"
    and "rtranclp (pool_round B K bc config header) (0, [0..<length reqs], startState st w reqs) (l, is, sc)"
    and "allValidated (sc_allTasks sc)"
  shows "\<exists>st'. WriteLatestToStore B K (store_of sc) (sc_state sc) = Inr st' \<and>
    (\<forall>k. data_key K k \<longrightarrow> state_values K st' k =
       state_values K (serial K (traced_effects B K bc config header) (map en_Tx reqs) st) k) \<and>
    length (sc_allTasks sc) = length reqs \<and> None \<notin> set (map t_Response (sc_allTasks sc))"
proof -
  have "round_inv B K (traced_effects B K bc config header) (state_values K st) (map en_Tx reqs) l sc"
    "prefix_settled B (state_values K st) (length (map en_Tx reqs)) sc"
    using pool_rounds_between [OF assms(2) between_start [OF assms(1)]] by (simp_all add: between_def)
  from settled_serial [OF this assms(3)] show ?thesis by simp
qed

text \<open>The phases of a pass: no state of a pool is a deadlock, and no run of a pool is infinite.\<close>

lemma exec_phase_completes:
  assumes "exec_inv B K bc config header V0 V txs p (sc1, running q0, waiting q0)" "pool_ok n q0" "pl_workers q0 \<noteq> []"
    and "rtranclp (exec_pool B K bc config header n) (sc1, q0) (sc2, q)"
  shows "\<exists>sc' q'. rtranclp (exec_pool B K bc config header n) (sc2, q) (sc', q') \<and> idle q'"
    and "idle q \<Longrightarrow> phase_inv B K bc config header V0 V txs p (sc2, Map.empty, {})"
    and "\<not> (\<exists>f. f 0 = (sc1, q0) \<and> (\<forall>k. exec_pool B K bc config header n (f k) (f (Suc k))))"
    and "sound_pool (startTask K bc config header) (nextTask B K) sc2 q"
proof -
  note r = pool_runs_refine [OF assms(4,2)]
  with assms(1,3) exec_reaches have inv: "exec_inv B K bc config header V0 V txs p (sc2, running q, waiting q)"
    and w: "pl_workers q \<noteq> []" by auto
  from r w inv execs.pool_completes show "\<exists>sc' q'. rtranclp (exec_pool B K bc config header n) (sc2, q) (sc', q') \<and> idle q'"
    by blast
  show "phase_inv B K bc config header V0 V txs p (sc2, Map.empty, {})" if "idle q"
    using inv idle_simps [OF that] by (intro exec_inv_end) simp
  show "\<not> (\<exists>f. f 0 = (sc1, q0) \<and> (\<forall>k. exec_pool B K bc config header n (f k) (f (Suc k))))"
    using execs.pool_run_finite [OF assms(2)] assms(1) by blast
  show "sound_pool (startTask K bc config header) (nextTask B K) sc2 q" using execs.pool_sound inv by blast
qed

lemma valid_phase_completes:
  assumes "phase_inv B K bc config header V0 V txs p (sc, Map.empty, {})" "p < length txs"
    and "rtranclp (valid_pool B K (length txs)) ((sc, []), validate_jobs sc) (acc, q)"
  shows "\<exists>acc' q'. rtranclp (valid_pool B K (length txs)) (acc, q) (acc', q') \<and> idle q'"
    and "\<not> (\<exists>f. f 0 = ((sc, []), validate_jobs sc) \<and> (\<forall>k. valid_pool B K (length txs) (f k) (f (Suc k))))"
    and "sound_pool beginValidation (nextValidation B K) acc q"
proof -
  obtain p' where m: "pool_ok (length txs) (validate_jobs sc)" "pl_workers (validate_jobs sc) \<noteq> []"
    "valid_inv B K (traced_effects B K bc config header) V0 txs p p' sc
       ((sc, []), running (validate_jobs sc), waiting (validate_jobs sc))" by (rule pass_middle [OF assms(1,2)])
  note r = pool_runs_refine [OF assms(3) m(1)]
  with m(2) have "pl_workers q \<noteq> []" by auto
  moreover have inv: "valid_inv B K (traced_effects B K bc config header) V0 txs p p' sc (acc, running q, waiting q)"
    using r m(3) by (blast intro: valid_reaches)
  ultimately show "\<exists>acc' q'. rtranclp (valid_pool B K (length txs)) (acc, q) (acc', q') \<and> idle q'"
    using r vals.pool_completes by blast
  show "\<not> (\<exists>f. f 0 = ((sc, []), validate_jobs sc) \<and> (\<forall>k. valid_pool B K (length txs) (f k) (f (Suc k))))"
    using vals.pool_run_finite [OF m(1)] m(3) by blast
  show "sound_pool beginValidation (nextValidation B K) acc q" using vals.pool_sound inv by blast
qed

lemma pool_round_enabled:
  assumes "between B K (traced_effects B K bc config header) V0 txs (l, toExecute, sc)" "\<not> allValidated (sc_allTasks sc)"
  shows "\<exists>ls'. pool_round B K bc config header (l, toExecute, sc) ls'"
proof -
  obtain p sc1 where p: "findFirstNonValidated sc = (p, True)" "p < length txs" "length (sc_allTasks sc) = length txs"
    "(if p > l then flushUntil B K (int l) (int p) sc else Inr sc) = Inr sc1"
    and e: "pool_ok (length txs) (execute_jobs sc1 toExecute)"
    "exec_inv B K bc config header V0 (state_values K (sc_state sc1)) txs p
       (sc1, running (execute_jobs sc1 toExecute), waiting (execute_jobs sc1 toExecute))"
    "pl_workers (execute_jobs sc1 toExecute) \<noteq> []"
    by (rule pass_start [OF assms])
  from exec_phase_completes(1) [OF e(2,1,3) rtranclp.rtrancl_refl] obtain sc2 q where
    q: "rtranclp (exec_pool B K bc config header (length txs)) (sc1, execute_jobs sc1 toExecute) (sc2, q)" "idle q" by blast
  from exec_phase_completes(2) [OF e(2,1,3) q] have
    "phase_inv B K bc config header V0 (state_values K (sc_state sc1)) txs p (sc2, Map.empty, {})" .
  from valid_phase_completes(1) [OF this p(2) rtranclp.rtrancl_refl] obtain sc3 res q' where
    "rtranclp (valid_pool B K (length txs)) ((sc2, []), validate_jobs sc2) ((sc3, res), q')" "idle q'" by auto
  with pool_round.Pass [OF assms(2) p(1,4)] q p(3) show ?thesis by fastforce
qed

lemma pools_complete:
  assumes "block reqs"
    and run: "rtranclp (pool_round B K bc config header) (0, [0..<length reqs], startState st w reqs) (l, toExecute, sc)"
    and f: "findFirstNonValidated sc = (p, True)"
    and fl: "(if p > l then flushUntil B K (int l) (int p) sc else Inr sc) = Inr sc1"
    and ex: "rtranclp (exec_pool B K bc config header (length reqs)) (sc1, execute_jobs sc1 toExecute) (sc2, q)"
  shows "(\<exists>ls'. pool_round B K bc config header (l, toExecute, sc) ls') \<and>
    sound_pool (startTask K bc config header) (nextTask B K) sc2 q \<and>
    (\<exists>sc' q'. rtranclp (exec_pool B K bc config header (length reqs)) (sc2, q) (sc', q') \<and> idle q') \<and>
    \<not> (\<exists>f. f 0 = (sc1, execute_jobs sc1 toExecute) \<and> (\<forall>k. exec_pool B K bc config header (length reqs) (f k) (f (Suc k)))) \<and>
    (idle q \<longrightarrow>
       (\<forall>acc q1. rtranclp (valid_pool B K (length reqs)) ((sc2, []), validate_jobs sc2) (acc, q1) \<longrightarrow>
          sound_pool beginValidation (nextValidation B K) acc q1 \<and>
          (\<exists>acc' q2. rtranclp (valid_pool B K (length reqs)) (acc, q1) (acc', q2) \<and> idle q2)) \<and>
       \<not> (\<exists>f. f 0 = ((sc2, []), validate_jobs sc2) \<and> (\<forall>k. valid_pool B K (length reqs) (f k) (f (Suc k)))))"
proof -
  let ?txs = "map en_Tx reqs"
  have bet: "between B K (traced_effects B K bc config header) (state_values K st) ?txs (l, toExecute, sc)"
    using pool_rounds_between [OF run between_start [OF assms(1)]] .
  have left: "\<not> allValidated (sc_allTasks sc)" using f by (auto dest: findFirstNonValidated_None)
  obtain p' sc1' where "findFirstNonValidated sc = (p', True)" "p' < length ?txs"
    "(if p' > l then flushUntil B K (int l) (int p') sc else Inr sc) = Inr sc1'"
    and e: "pool_ok (length ?txs) (execute_jobs sc1' toExecute)"
    "exec_inv B K bc config header (state_values K st) (state_values K (sc_state sc1')) ?txs p'
       (sc1', running (execute_jobs sc1' toExecute), waiting (execute_jobs sc1' toExecute))"
    "pl_workers (execute_jobs sc1' toExecute) \<noteq> []"
    by (rule pass_start [OF bet left])
  moreover from this(1,3) f fl have eq: "p' = p" "sc1' = sc1" by auto
  ultimately have p: "p < length ?txs" by simp
  note e = e [unfolded eq]
  have ex': "rtranclp (exec_pool B K bc config header (length ?txs)) (sc1, execute_jobs sc1 toExecute) (sc2, q)"
    using ex by simp
  note fin = exec_phase_completes [OF e(2,1,3) ex']
  show ?thesis
    using pool_round_enabled [OF bet left] fin(1,3,4) valid_phase_completes [OF fin(2) p]
    by (simp add: rtranclp.rtrancl_refl) blast
qed

text \<open>The loop of \<open>Scheduler\<close>, in the order of the tasks, is a run of the pools.\<close>

lemma processLoop_pools:
  assumes "round_inv B K (traced_effects B K bc config header) V0 txs L sc" "prefix_settled B V0 (length txs) sc"
    and "\<forall>i<L. validated sc i" "\<forall>i\<in>set is. i < length txs \<and> \<not> validated sc i"
    and "\<And>r is. mset (exec_order S r is) = mset is" "\<And>r is. mset (valid_order S r is) = mset is"
    and "processLoop B K (deliverTx B K bc config header) S r L is sc = Inr sc'" "\<not> sc_synchronous sc'"
  shows "(\<forall>r is. exec_order S r is = is \<and> valid_order S r is = is) \<longrightarrow>
    (\<exists>l res. rtranclp (pool_round B K bc config header) (L, is, sc) (l, res, sc')) \<and> allValidated (sc_allTasks sc')"
  using assms
proof (induction rule: processLoop_rounds)
  case (validated r L "is" sc)
  then show ?case by blast
next
  case (pass r L "is" sc p sc1 sc2 sc3 res sc')
  have len0: "length (sc_allTasks sc) = length txs"
    using pass(4) sane_length [of B K txs sc1] pass(5)
    by (auto simp: round_inv_def flushUntil_def withStore_def pbind_eq_Inr split: if_splits option.splits)
  have sane1: "sane B K txs sc1" "\<not> sc_synchronous sc1" using pass(5) by (simp_all add: round_inv_def)
  have sync2: "\<not> sc_synchronous sc2" and sane2: "sane B K txs sc2" using pass(8) by (simp_all add: round_inv_def)
  have len: "length (sc_allTasks sc1) = length txs" "length (sc_allTasks sc2) = length txs"
    using sane_length [OF sane1(1)] sane_length [OF sane2] by simp_all
  obtain p' where "p' < length (sc_allTasks sc)" using pass(1) by (rule findFirstNonValidated_Some)
  with len0 have n: "0 < length txs" by linarith
  then have workers: "0 < nat (startedWorkers (sc_workers sc1) (length txs))" by (auto simp: startedWorkers_def)
  show ?case
  proof (intro impI)
    assume ord: "\<forall>r is. exec_order S r is = is \<and> valid_order S r is = is"
    have "pfold (executeTask B K (deliverTx B K bc config header)) is sc1 = Inr sc2"
      using pass(7) ord sane1(2) by (cases "is = []") (auto simp: executeAll_def workOrder_def)
    with executeAll_jobs [OF sane1] pass(6) have "jobs (startTask K bc config header) (nextTask B K) is sc1 sc2" by blast
    from pool_jobs [OF this workers n] obtain q where
      q: "rtranclp (exec_pool B K bc config header (length txs)) (sc1, execute_jobs sc1 is) (sc2, q)" "idle q"
      by (auto simp: execute_jobs_def len)
    obtain p2 anyLeft where f: "findFirstNonValidated sc2 = (p2, anyLeft)" by fastforce
    have "pfold (validateOne B K) (if anyLeft then [p2..<length txs] else []) (sc2, []) = Inr (sc3, res)"
      using pass(9) ord sync2 by (cases anyLeft) (simp_all add: validateAll_def f workOrder_def len)
    from pool_jobs [OF validations_jobs [OF this] n n] obtain q' where
      "rtranclp (valid_pool B K (length txs)) ((sc2, []), validate_jobs sc2) ((sc3, res), q')" "idle q'"
      by (auto simp: validate_jobs_def f len cong: if_cong)
    with pool_round.Pass [OF pass(1,3,4)] q len0 have
      "pool_round B K bc config header (L, is, sc) (if p > L then p else L, res, sc3)" by metis
    with pass(10) ord show "(\<exists>l res. rtranclp (pool_round B K bc config header) (L, is, sc) (l, res, sc')) \<and>
        allValidated (sc_allTasks sc')" by (meson converse_rtranclp_into_rtranclp)
  qed
qed

lemma ProcessAll_pools:
  assumes "block reqs" "\<And>r is. exec_order S r is = is" "\<And>r is. valid_order S r is = is"
    and run: "ProcessAll B K (deliverTx B K bc config header) S reqs (NewScheduler st w) = Inr (resp, sc)"
    and sync: "\<not> sc_synchronous sc"
  shows "\<exists>l res sc'. rtranclp (pool_round B K bc config header) (0, [0..<length reqs], startState st w reqs) (l, res, sc') \<and>
    allValidated (sc_allTasks sc')"
proof -
  from run obtain sc1 where loop: "processLoop B K (deliverTx B K bc config header) S 0 0 [0..<length reqs]
      (startState st w reqs) = Inr sc1" and "sc_synchronous sc1 = sc_synchronous sc"
    by (auto simp: ProcessAll_start pbind_eq_Inr withStore_def split: option.splits)
  with processLoop_pools [OF round_inv_start [OF assms(1)] _ _ _ _ loop] sync assms(2,3)
  show ?thesis by (auto simp: task_at_startState newTask_def)
qed

end

end
