(* ===== verification/Storage.thy ===== *)
theory Storage
  imports Reference Storage_Key
begin

text \<open>
  \<open>storage/storage.go\<close>, which sets up a database and loads accounts into a state before a block is
  processed, and the journal of \<open>storage/expose_journal.go\<close>. What the files hold and what the JSON
  decoder makes of them is input; the database, \<open>SetupGenesisBlock\<close> and \<open>Commit\<close> belong to the Kaia
  client. The loops over the accounts and their storage run in the order of Go's map iteration: the
  theorem is for every order.
\<close>

section \<open>The surroundings\<close>

text \<open>
  \<open>'f\<close> is an open file, \<open>'g\<close> a genesis, \<open>'db\<close> a database manager. A decoder returns what it has decoded
  into the value, in part if it fails, and the error. \<open>Commit\<close> returns the root and an error, with the
  state after it; \<open>SetupGenesisBlock\<close> the database after it and an error.
\<close>

record Account =
  ac_Balance :: string
  ac_Nonce :: int
  ac_Storage :: "(string, string) fmap"

type_synonym Accounts = "(string, Account) fmap"

record ('s, 'f, 'g, 'db) storage_lib =
  os_Open :: "string \<Rightarrow> go_error + 'f"
  json_Accounts :: "'f \<Rightarrow> Accounts \<times> go_error option"
  json_Genesis :: "'f \<Rightarrow> 'g \<times> go_error option"
  cm_FromHex :: "string \<Rightarrow> byte list"
  db_NewMemoryDBManager :: 'db
  bc_SetupGenesisBlock :: "'db \<Rightarrow> 'g option \<Rightarrow> 64 word \<Rightarrow> bool \<Rightarrow> bool \<Rightarrow> 'db \<times> go_error option"
  sdb_Commit :: "'s \<Rightarrow> bool \<Rightarrow> (hash \<times> go_error option) \<times> 's"

section \<open>Set-up of the database\<close>

definition genesisPath :: string where
  "genesisPath = ''../data/genesis.json''"

definition networkId :: "64 word" where
  "networkId = 8217"

definition NewInMemoryStorage :: "('s, 'f, 'g, 'db) storage_lib \<Rightarrow> 'db" where
  "NewInMemoryStorage E = db_NewMemoryDBManager E"

definition readGenesis :: "('s, 'f, 'g, 'db) storage_lib \<Rightarrow> string \<Rightarrow> 'g option \<times> go_error option" where
  "readGenesis E path =
     (case os_Open E path of
        Inl err \<Rightarrow> (None, Some err)
      | Inr file \<Rightarrow>
          (case json_Genesis E file of
             (genesis, Some err) \<Rightarrow> (None, Some err)
           | (genesis, None) \<Rightarrow> (Some genesis, None)))"

text \<open>Errors are logged; a genesis that cannot be read is passed on as nil.\<close>

definition InjectGenesis :: "('s, 'f, 'g, 'db) storage_lib \<Rightarrow> 'db \<Rightarrow> 'db" where
  "InjectGenesis E db =
     (case readGenesis E genesisPath of (genesis, err) \<Rightarrow>
      case bc_SetupGenesisBlock E db genesis networkId False False of (db', genesisErr) \<Rightarrow> db')"

definition Storage_Has :: "('s, 'tx) kaia \<Rightarrow> 's \<Rightarrow> address \<Rightarrow> hash \<Rightarrow> bool" where
  "Storage_Has K state addr key \<longleftrightarrow> sdb_GetState K state addr key \<noteq> 0"

section \<open>The pre-state\<close>

text \<open>The loops of \<open>CommitPreState\<close>, along an enumeration of the accounts and, for each, of its storage.\<close>

definition setStorage ::
  "('s, 'tx) kaia \<Rightarrow> address \<Rightarrow> (string, string) fmap \<Rightarrow> string list \<Rightarrow> 's \<Rightarrow> 's" where
  "setStorage K addr slots keys state =
     fold (\<lambda>key state. case fmlookup slots key of
             None \<Rightarrow> state
           | Some v \<Rightarrow> sdb_SetState K state addr (cm_HexToHash K key) (cm_HexToHash K v)) keys state"

definition setAccount ::
  "('s, 'tx) kaia \<Rightarrow> ('s, 'f, 'g, 'db) storage_lib \<Rightarrow> (string \<Rightarrow> string list) \<Rightarrow> string \<Rightarrow> Account \<Rightarrow> 's \<Rightarrow> 's" where
  "setAccount K E keys addr account state =
     (let a = cm_HexToAddress K addr;
          state = sdb_SetBalance K state a (big_SetBytes (cm_FromHex E (ac_Balance account)));
          state = sdb_SetNonce K state a (word_of_int (ac_Nonce account)) in
      setStorage K a (ac_Storage account) (keys addr) state)"

definition setAccounts_in_order ::
  "('s, 'tx) kaia \<Rightarrow> ('s, 'f, 'g, 'db) storage_lib \<Rightarrow> string list \<Rightarrow> (string \<Rightarrow> string list) \<Rightarrow> Accounts \<Rightarrow> 's \<Rightarrow> 's" where
  "setAccounts_in_order K E addrs keys accounts state =
     fold (\<lambda>addr state. case fmlookup accounts addr of
             None \<Rightarrow> state
           | Some account \<Rightarrow> setAccount K E keys addr account state) addrs state"

definition setAccounts ::
  "('s, 'tx) kaia \<Rightarrow> ('s, 'f, 'g, 'db) storage_lib \<Rightarrow> Accounts \<Rightarrow> 's \<Rightarrow> 's" where
  "setAccounts K E accounts state =
     setAccounts_in_order K E (fmkeys accounts)
       (\<lambda>addr. case fmlookup accounts addr of None \<Rightarrow> [] | Some account \<Rightarrow> fmkeys (ac_Storage account)) accounts state"

definition preStatePath :: "string \<Rightarrow> string" where
  "preStatePath strBn = ''../data/'' @ strBn @ ''/pre_state.json''"

text \<open>A file that cannot be opened leaves the accounts empty: decoding from a nil file only fails.\<close>

definition CommitPreState ::
  "('s, 'tx) kaia \<Rightarrow> ('s, 'f, 'g, 'db) storage_lib \<Rightarrow> string \<Rightarrow> 's \<Rightarrow> hash \<times> 's" where
  "CommitPreState K E strBn state =
     (let accounts = (case os_Open E (preStatePath strBn) of
                        Inl err \<Rightarrow> fmempty
                      | Inr file \<Rightarrow> fst (json_Accounts E file)) in
      case sdb_Commit E (setAccounts K E accounts state) True of ((root, err), state) \<Rightarrow> (root, state))"

section \<open>The journal\<close>

record 'e Journal =
  j_entries :: "'e list"
  j_dirties :: "(address, int) fmap option"

definition Journal_Entries :: "'e Journal \<Rightarrow> 'e list" where
  "Journal_Entries j = j_entries j"

definition Journal_Dirties :: "'e Journal \<Rightarrow> (address, int) fmap option" where
  "Journal_Dirties j = j_dirties j"

text \<open>
  \<open>GetJournal\<close> finds the journal of a state database by the position of its field and by the names of
  the fields within, through \<open>reflect\<close>, and reads them through unsafe pointers. The layout of \<open>StateDB\<close>
  is the client's: \<open>layout\<close> gives its fields, in order, as \<open>reflect\<close> sees them. A call on a value of the
  wrong kind, a missing field or a position that does not exist is a panic of \<open>reflect\<close>; what the unsafe
  pointers read when a field has another type than the one they are cast to is not defined
  (\<open>WrongMemory\<close>). \<open>None\<close> is the zero \<open>reflect.Value\<close>.
\<close>

datatype 'e rvalue =
    RStruct "(string \<times> 'e rvalue) list"
  | RPointer "'e rvalue option"
  | REntries "'e list"
  | RDirties "(address, int) fmap option"
  | ROther

datatype reflect_fault = FieldOnZeroValue | FieldOutOfRange | FieldByNameOnNonStruct | UnsafeAddrOfZeroValue | WrongMemory

definition reflect_Indirect :: "'e rvalue \<Rightarrow> 'e rvalue option" where
  "reflect_Indirect v = (case v of RPointer p \<Rightarrow> p | _ \<Rightarrow> Some v)"

definition FieldByName :: "'e rvalue option \<Rightarrow> string \<Rightarrow> reflect_fault + 'e rvalue option" where
  "FieldByName v name = (case v of Some (RStruct fs) \<Rightarrow> Inr (map_of fs name) | _ \<Rightarrow> Inl FieldByNameOnNonStruct)"

definition UnsafeAddr :: "'e rvalue option \<Rightarrow> reflect_fault + 'e rvalue" where
  "UnsafeAddr v = (case v of None \<Rightarrow> Inl UnsafeAddrOfZeroValue | Some x \<Rightarrow> Inr x)"

definition readJournal :: "'e rvalue \<Rightarrow> 'e rvalue \<Rightarrow> reflect_fault + 'e Journal" where
  "readJournal entriesPtr dirtiesPtr =
     (case (entriesPtr, dirtiesPtr) of
        (REntries entries, RDirties dirties) \<Rightarrow> Inr \<lparr>j_entries = entries, j_dirties = dirties\<rparr>
      | _ \<Rightarrow> Inl WrongMemory)"

lemma readJournal_iff:
  "readJournal e d = Inr j \<longleftrightarrow> e = REntries (j_entries j) \<and> d = RDirties (j_dirties j)"
  by (cases e; cases d; cases j) (auto simp: readJournal_def)

definition GetJournal ::
  "('s \<Rightarrow> (string \<times> 'e rvalue) list) \<Rightarrow> 's option \<Rightarrow> reflect_fault + 'e Journal" where
  "GetJournal layout s =
     (case s of
        None \<Rightarrow> Inl FieldOnZeroValue
      | Some db \<Rightarrow>
          if 21 < length (layout db) then
            let rf = snd (layout db ! 21) in
            pbind (FieldByName (reflect_Indirect rf) ''entries'') (\<lambda>entries.
            pbind (FieldByName (reflect_Indirect rf) ''dirties'') (\<lambda>dirties.
            pbind (UnsafeAddr entries) (\<lambda>entriesPtr.
            pbind (UnsafeAddr dirties) (\<lambda>dirtiesPtr.
              readJournal entriesPtr dirtiesPtr))))
          else Inl FieldOutOfRange)"

text \<open>
  \<open>GetJournal\<close> succeeds exactly on the layouts whose twenty-second field is a journal, or a pointer to
  one, and returns its two fields.
\<close>

lemma GetJournal_iff:
  "GetJournal layout s = Inr j \<longleftrightarrow>
   (\<exists>db fs. s = Some db \<and> 21 < length (layout db) \<and> reflect_Indirect (snd (layout db ! 21)) = Some (RStruct fs) \<and>
      map_of fs ''entries'' = Some (REntries (j_entries j)) \<and> map_of fs ''dirties'' = Some (RDirties (j_dirties j)))"
  by (auto simp: GetJournal_def Let_def FieldByName_def UnsafeAddr_def pbind_eq_Inr readJournal_iff
      split: option.splits rvalue.splits)

text \<open>\<open>GetDirties\<close>, along an enumeration of the dirty addresses; nil for a nil map.\<close>

definition GetDirties :: "((address, int) fmap \<Rightarrow> address list) \<Rightarrow> 'e Journal \<Rightarrow> address list option" where
  "GetDirties enum j =
     (case j_dirties j of
        None \<Rightarrow> None
      | Some dirties \<Rightarrow> Some (fold (\<lambda>address uniqueDirties. uniqueDirties @ [address]) (enum dirties) []))"

lemma GetDirties_eq: "GetDirties enum j = map_option enum (j_dirties j)"
proof -
  have "fold (\<lambda>a us. us @ [a]) xs us = us @ xs" for xs us :: "address list" by (induction xs arbitrary: us) simp_all
  then show ?thesis by (simp add: GetDirties_def split: option.split)
qed

section \<open>What the pre-state holds\<close>

text \<open>
  The specification of the load: the named accounts have the balance, nonce and storage of the file;
  slots and accounts that it does not name are as before.
\<close>

definition loaded ::
  "('s, 'tx) kaia \<Rightarrow> ('s, 'f, 'g, 'db) storage_lib \<Rightarrow> Accounts \<Rightarrow> 's \<Rightarrow> 's \<Rightarrow> bool" where
  "loaded K E accounts st st' \<longleftrightarrow>
     (\<forall>addr account. fmlookup accounts addr = Some account \<longrightarrow>
        sdb_GetBalance K st' (cm_HexToAddress K addr) = big_SetBytes (cm_FromHex E (ac_Balance account)) \<and>
        sdb_GetNonce K st' (cm_HexToAddress K addr) = word_of_int (ac_Nonce account) \<and>
        (\<forall>key v. fmlookup (ac_Storage account) key = Some v \<longrightarrow>
           sdb_GetState K st' (cm_HexToAddress K addr) (cm_HexToHash K key) = cm_HexToHash K v) \<and>
        (\<forall>l. l \<notin> cm_HexToHash K ` fset (fmdom (ac_Storage account)) \<longrightarrow>
           sdb_GetState K st' (cm_HexToAddress K addr) l = sdb_GetState K st (cm_HexToAddress K addr) l)) \<and>
     (\<forall>a. a \<notin> cm_HexToAddress K ` fset (fmdom accounts) \<longrightarrow>
        sdb_GetBalance K st' a = sdb_GetBalance K st a \<and> sdb_GetNonce K st' a = sdb_GetNonce K st a \<and>
        (\<forall>l. sdb_GetState K st' a l = sdb_GetState K st a l))"

text \<open>No two names in the file stand for the same address, or for the same slot of an account.\<close>

definition unambiguous :: "('s, 'tx) kaia \<Rightarrow> Accounts \<Rightarrow> bool" where
  "unambiguous K accounts \<longleftrightarrow> inj_on (cm_HexToAddress K) (fset (fmdom accounts)) \<and>
     (\<forall>addr account. fmlookup accounts addr = Some account \<longrightarrow>
        inj_on (cm_HexToHash K) (fset (fmdom (ac_Storage account))))"

lemma big_SetBytes_nonneg: "0 \<le> big_SetBytes bs"
proof -
  have "0 \<le> n \<Longrightarrow> 0 \<le> fold (\<lambda>b n. 256 * n + uint b) bs n" for n :: int
    by (induction bs arbitrary: n) simp_all
  then show ?thesis by (simp add: big_SetBytes_def)
qed

context statedb_spec
begin

lemma setStorage_frame [simp]:
  "sdb_GetBalance K (setStorage K a slots keys st) b = sdb_GetBalance K st b"
  "sdb_GetNonce K (setStorage K a slots keys st) b = sdb_GetNonce K st b"
  "a \<noteq> b \<Longrightarrow> sdb_GetState K (setStorage K a slots keys st) b l = sdb_GetState K st b l"
  by (induction keys arbitrary: st) (simp_all add: setStorage_def GetState_SetState split: option.split)

text \<open>The writes of a slot are those of the names that stand for it, of which there is one.\<close>

lemma setStorage_other:
  assumes "\<And>key. key \<in> set keys \<Longrightarrow> fmlookup slots key \<noteq> None \<Longrightarrow> cm_HexToHash K key \<noteq> l"
  shows "sdb_GetState K (setStorage K a slots keys st) a l = sdb_GetState K st a l"
  using assms by (induction keys arbitrary: st) (auto simp: setStorage_def GetState_SetState split: option.split)

lemma setStorage_slot:
  assumes "inj_on (cm_HexToHash K) (fset (fmdom slots))" "fmlookup slots key = Some v" "key \<in> set keys"
  shows "sdb_GetState K (setStorage K a slots keys st) a (cm_HexToHash K key) = cm_HexToHash K v"
proof -
  obtain ks ks' where ks: "keys = ks @ key # ks'" "key \<notin> set ks'" using assms(3) by (auto dest: split_list_last)
  let ?st = "setStorage K a slots (ks @ [key]) st"
  have "sdb_GetState K (setStorage K a slots ks' ?st) a (cm_HexToHash K key) = sdb_GetState K ?st a (cm_HexToHash K key)"
  proof (rule setStorage_other)
    fix k assume "k \<in> set ks'" "fmlookup slots k \<noteq> None"
    then show "cm_HexToHash K k \<noteq> cm_HexToHash K key"
      using inj_onD [OF assms(1), of k key] assms(2) ks(2) by (auto simp: in_fmdom_iff)
  qed
  moreover have "setStorage K a slots keys st = setStorage K a slots ks' ?st"
    by (simp add: setStorage_def ks(1))
  ultimately show ?thesis using assms(2) by (simp add: setStorage_def GetState_SetState)
qed

lemma setAccount_frame:
  "cm_HexToAddress K addr \<noteq> a \<Longrightarrow> sdb_GetBalance K (setAccount K E keys addr ac st) a = sdb_GetBalance K st a"
  "cm_HexToAddress K addr \<noteq> a \<Longrightarrow> sdb_GetNonce K (setAccount K E keys addr ac st) a = sdb_GetNonce K st a"
  "cm_HexToAddress K addr \<noteq> a \<Longrightarrow> sdb_GetState K (setAccount K E keys addr ac st) a l = sdb_GetState K st a l"
  by (auto simp: setAccount_def Let_def GetBalance_SetBalance big_SetBytes_nonneg GetNonce_SetNonce)

lemma setAccount_values:
  "sdb_GetBalance K (setAccount K E keys addr ac st) (cm_HexToAddress K addr) = big_SetBytes (cm_FromHex E (ac_Balance ac))"
  "sdb_GetNonce K (setAccount K E keys addr ac st) (cm_HexToAddress K addr) = word_of_int (ac_Nonce ac)"
  by (simp_all add: setAccount_def Let_def GetBalance_SetBalance big_SetBytes_nonneg GetNonce_SetNonce)

lemma setAccounts_other:
  assumes "\<And>addr. addr \<in> set addrs \<Longrightarrow> fmlookup accounts addr \<noteq> None \<Longrightarrow> cm_HexToAddress K addr \<noteq> a"
  shows "sdb_GetBalance K (setAccounts_in_order K E addrs keys accounts st) a = sdb_GetBalance K st a"
    "sdb_GetNonce K (setAccounts_in_order K E addrs keys accounts st) a = sdb_GetNonce K st a"
    "sdb_GetState K (setAccounts_in_order K E addrs keys accounts st) a l = sdb_GetState K st a l"
  using assms
  by (induction addrs arbitrary: st) (auto simp: setAccounts_in_order_def setAccount_frame split: option.split)

text \<open>The accounts before and after one of them do not touch it.\<close>

lemma setAccounts_split:
  assumes "unambiguous K accounts" "fmlookup accounts addr = Some ac" "addr \<in> set addrs" "distinct addrs"
  obtains addrs1 addrs2 where
    "setAccounts_in_order K E addrs keys accounts st = setAccounts_in_order K E addrs2 keys accounts
       (setAccount K E keys addr ac (setAccounts_in_order K E addrs1 keys accounts st))"
    "\<forall>addr'\<in>set addrs1 \<union> set addrs2. fmlookup accounts addr' \<noteq> None \<longrightarrow>
       cm_HexToAddress K addr' \<noteq> cm_HexToAddress K addr"
proof -
  obtain as bs where as: "addrs = as @ addr # bs" using assms(3) by (meson split_list)
  have "cm_HexToAddress K addr' \<noteq> cm_HexToAddress K addr"
    if "addr' \<in> set as \<union> set bs" "fmlookup accounts addr' \<noteq> None" for addr'
    using that assms(1,2,4) as unfolding unambiguous_def inj_on_def in_fmdom_iff by force
  moreover have "setAccounts_in_order K E addrs keys accounts st = setAccounts_in_order K E bs keys accounts
       (setAccount K E keys addr ac (setAccounts_in_order K E as keys accounts st))"
    by (simp add: setAccounts_in_order_def as assms(2))
  ultimately show ?thesis using that by blast
qed

lemma setAccounts_loaded:
  assumes un: "unambiguous K accounts" and addrs: "set addrs = fset (fmdom accounts)" "distinct addrs"
    and keys: "\<And>addr ac. fmlookup accounts addr = Some ac \<Longrightarrow> set (keys addr) = fset (fmdom (ac_Storage ac))"
  shows "loaded K E accounts st (setAccounts_in_order K E addrs keys accounts st)"
  unfolding loaded_def
proof (intro conjI allI impI)
  fix addr ac assume ac: "fmlookup accounts addr = Some ac"
  then have "addr \<in> set addrs" using addrs(1) by (auto simp: in_fmdom_iff)
  then obtain addrs1 addrs2 where eq: "setAccounts_in_order K E addrs keys accounts st =
      setAccounts_in_order K E addrs2 keys accounts
       (setAccount K E keys addr ac (setAccounts_in_order K E addrs1 keys accounts st))"
    and off: "\<forall>addr'\<in>set addrs1 \<union> set addrs2. fmlookup accounts addr' \<noteq> None \<longrightarrow>
       cm_HexToAddress K addr' \<noteq> cm_HexToAddress K addr"
    using setAccounts_split [OF un ac _ addrs(2), of E keys st] by metis
  have "addr' \<in> set addrs2 \<Longrightarrow> fmlookup accounts addr' \<noteq> None \<Longrightarrow> cm_HexToAddress K addr' \<noteq> cm_HexToAddress K addr"
    "addr' \<in> set addrs1 \<Longrightarrow> fmlookup accounts addr' \<noteq> None \<Longrightarrow> cm_HexToAddress K addr' \<noteq> cm_HexToAddress K addr" for addr'
    using off by blast+
  note frame = setAccounts_other [OF this(1)] setAccounts_other [OF this(2)]
  have inj: "inj_on (cm_HexToHash K) (fset (fmdom (ac_Storage ac)))" using un ac by (simp add: unambiguous_def)
  show "sdb_GetBalance K (setAccounts_in_order K E addrs keys accounts st) (cm_HexToAddress K addr) =
      big_SetBytes (cm_FromHex E (ac_Balance ac))" by (simp add: eq frame setAccount_values)
  show "sdb_GetNonce K (setAccounts_in_order K E addrs keys accounts st) (cm_HexToAddress K addr) =
      word_of_int (ac_Nonce ac)" by (simp add: eq frame setAccount_values)
  show "sdb_GetState K (setAccounts_in_order K E addrs keys accounts st) (cm_HexToAddress K addr) (cm_HexToHash K key) =
      cm_HexToHash K v" if "fmlookup (ac_Storage ac) key = Some v" for key v
    using that setStorage_slot [OF inj that] keys [OF ac]
    by (simp add: eq frame) (simp add: setAccount_def Let_def in_fmdom_iff)
  show "sdb_GetState K (setAccounts_in_order K E addrs keys accounts st) (cm_HexToAddress K addr) l =
      sdb_GetState K st (cm_HexToAddress K addr) l" if "l \<notin> cm_HexToHash K ` fset (fmdom (ac_Storage ac))" for l
  proof -
    have "cm_HexToHash K key \<noteq> l" if "key \<in> set (keys addr)" for key
      using that \<open>l \<notin> cm_HexToHash K ` fset (fmdom (ac_Storage ac))\<close> keys [OF ac] by auto
    from setStorage_other [OF this] show ?thesis by (simp add: eq frame setAccount_def Let_def)
  qed
next
  fix a assume a: "a \<notin> cm_HexToAddress K ` fset (fmdom accounts)"
  then have off: "cm_HexToAddress K addr \<noteq> a" if "addr \<in> set addrs" for addr using that addrs(1) by auto
  show "sdb_GetBalance K (setAccounts_in_order K E addrs keys accounts st) a = sdb_GetBalance K st a"
    "sdb_GetNonce K (setAccounts_in_order K E addrs keys accounts st) a = sdb_GetNonce K st a"
    "sdb_GetState K (setAccounts_in_order K E addrs keys accounts st) a l = sdb_GetState K st a l" for l
    using off by (simp_all add: setAccounts_other)
qed

end

section \<open>Properties\<close>

text \<open>
  (C28) \<open>CommitPreState\<close> loads what the file names. If no two names in the file stand for the same address
  or slot, then the state that is committed has, for every account of the file, its balance (read as
  a hexadecimal number), its nonce (as an unsigned 64-bit number) and its storage, and is otherwise
  the state as it was; and this holds in whatever order the maps are iterated.
\<close>

theorem pre_state_loaded:
  assumes "statedb_spec K" "unambiguous K accounts"
    and "os_Open E (preStatePath strBn) = Inr file" "json_Accounts E file = (accounts, err)"
  shows "(\<exists>st'. loaded K E accounts st st' \<and>
      CommitPreState K E strBn st = (fst (fst (sdb_Commit E st' True)), snd (sdb_Commit E st' True))) \<and>
    (\<forall>addrs keys. set addrs = fset (fmdom accounts) \<longrightarrow> distinct addrs \<longrightarrow>
       (\<forall>addr ac. fmlookup accounts addr = Some ac \<longrightarrow> set (keys addr) = fset (fmdom (ac_Storage ac))) \<longrightarrow>
       loaded K E accounts st (setAccounts_in_order K E addrs keys accounts st))"
proof -
  note load = statedb_spec.setAccounts_loaded [OF assms(1,2)]
  have "loaded K E accounts st (setAccounts K E accounts st)"
    unfolding setAccounts_def by (intro load) simp_all
  moreover have "CommitPreState K E strBn st = (fst (fst (sdb_Commit E (setAccounts K E accounts st) True)),
      snd (sdb_Commit E (setAccounts K E accounts st) True))"
    by (simp add: CommitPreState_def assms(3,4) split: prod.split)
  ultimately show ?thesis using load by blast
qed

text \<open>A file with two accounts, one of which has storage.\<close>

definition two_accounts :: Accounts where
  "two_accounts = fmap_of_list
     [(''1'', \<lparr>ac_Balance = ''a'', ac_Nonce = 3, ac_Storage = fmap_of_list [(''5'', ''6''), (''7'', ''8'')]\<rparr>),
      (''2'', \<lparr>ac_Balance = ''b'', ac_Nonce = -1, ac_Storage = fmempty\<rparr>)]"

definition ref_lib :: "(ref_state, unit, unit, unit) storage_lib" where
  "ref_lib =
     \<lparr>os_Open = (\<lambda>path. if path = ''../data/9/pre_state.json'' then Inr () else Inl ''no such file''),
      json_Accounts = (\<lambda>_. (two_accounts, None)), json_Genesis = (\<lambda>_. ((), None)),
      cm_FromHex = (\<lambda>s. [of_nat (nat_of_hex s)]), db_NewMemoryDBManager = (),
      bc_SetupGenesisBlock = (\<lambda>db _ _ _ _. (db, None)), sdb_Commit = (\<lambda>st _. ((0, None), st))\<rparr>"

lemma two_accounts_unambiguous: "unambiguous ref_kaia two_accounts"
  unfolding unambiguous_def two_accounts_def
  by (auto simp: inj_on_def ref_kaia_def nat_of_hex_def hex_value_def fmap_of_list.rep_eq fmdom_of_list fset_of_list.rep_eq
      split: if_splits)

theorem pre_state_loaded_witness:
  "statedb_spec ref_kaia \<and> unambiguous ref_kaia two_accounts \<and>
   (\<exists>root st'. CommitPreState ref_kaia ref_lib ''9'' \<lparr>rs_storage = (\<lambda>_ _. 0), rs_balance = (\<lambda>_. 0), rs_nonce = (\<lambda>_. 0)\<rparr> = (root, st') \<and>
      rs_balance st' 1 = 10 \<and> rs_nonce st' 2 = - 1 \<and> rs_storage st' 1 5 = 6 \<and> rs_storage st' 2 5 = 0)"
proof -
  let ?st = "\<lparr>rs_storage = (\<lambda>_ _. 0), rs_balance = (\<lambda>_. 0), rs_nonce = (\<lambda>_. 0)\<rparr>"
  have "os_Open ref_lib (preStatePath ''9'') = Inr ()"
    "json_Accounts ref_lib () = (two_accounts, None)" by (simp_all add: ref_lib_def preStatePath_def)
  from pre_state_loaded [OF refk.statedb_spec_axioms two_accounts_unambiguous this, of ?st] obtain st' where
    l: "loaded ref_kaia ref_lib two_accounts ?st st'" and c: "CommitPreState ref_kaia ref_lib ''9'' ?st = (0, st')"
    by (auto simp: ref_lib_def)
  have lk: "fmlookup two_accounts ''1'' = Some \<lparr>ac_Balance = ''a'', ac_Nonce = 3, ac_Storage = fmap_of_list [(''5'', ''6''), (''7'', ''8'')]\<rparr>"
    "fmlookup two_accounts ''2'' = Some \<lparr>ac_Balance = ''b'', ac_Nonce = -1, ac_Storage = fmempty\<rparr>"
    by (simp_all add: two_accounts_def fmap_of_list.rep_eq)
  have h: "cm_HexToAddress ref_kaia ''1'' = 1" "cm_HexToAddress ref_kaia ''2'' = 2" "cm_HexToHash ref_kaia ''5'' = 5"
    "cm_HexToHash ref_kaia ''6'' = 6" "big_SetBytes (cm_FromHex ref_lib ''a'') = 10"
    by (simp_all add: ref_kaia_def ref_lib_def nat_of_hex_def hex_value_def big_SetBytes_def)
  note one = l [unfolded loaded_def, THEN conjunct1, rule_format, OF lk(1)]
  have "sdb_GetState ref_kaia st' 1 5 = 6"
    using one [THEN conjunct2, THEN conjunct2, THEN conjunct1, rule_format, of "''5''" "''6''"] h
    by (simp add: fmap_of_list.rep_eq)
  then have "rs_balance st' 1 = 10 \<and> rs_storage st' 1 5 = 6"
    using one [THEN conjunct1] h by (simp add: ref_kaia_def)
  moreover have "rs_nonce st' 2 = - 1 \<and> rs_storage st' 2 5 = 0"
    using l [unfolded loaded_def, THEN conjunct1, rule_format, OF lk(2)] h by (simp add: ref_kaia_def)
  ultimately show ?thesis using c refk.statedb_spec_axioms two_accounts_unambiguous by blast
qed

end
