(* ===== verification/Spec2Isabelle.thy ===== *)
theory Spec2Isabelle
  imports Interleaving Storage
begin

text \<open>
  Verification of go-pevm, a parallel executor of the transactions of a Kaia block.

  \<^bold>\<open>The program.\<close> The processor (\<open>processor/processor.go\<close>) hands the transactions of a block to the
  scheduler (\<open>scheduler/scheduler.go\<close>). In rounds, the scheduler runs all pending transactions on
  copies of the shared state database, each traced by an access-list tracer
  (\<open>multiversion/tracer.go\<close>), which records what the transaction reads and writes. The read and write
  sets go to a multi-version store (\<open>multiversion/store.go\<close>), which keeps for every storage key
  (\<open>storage_key.go\<close>) the versions by transaction index (\<open>data_structure.go\<close>). After each round the
  scheduler validates the read sets: a transaction that read what a lower one has since written is
  invalidated and runs again. The validated prefix is written back to the state between rounds and
  the rest at the end. After ten rounds the scheduler goes through the remaining transactions
  synchronously. \<open>chain/chain.go\<close> has a sequential executor that the tests compare with.

  \<^bold>\<open>The theories\<close>, in the order of their imports:
  \<^item> \<open>Prelude\<close>: words, panics as a sum type (\<open>pbind\<close>, \<open>pfold\<close>), Go maps as finite maps (\<open>fmkeys\<close>),
    buffered channels, lemmas on lists.
  \<^item> \<open>Packages\<close>: the code outside the repository as records of functions, and the behaviour relied on
    as locales: \<open>btree_spec\<close> (google/btree, of which sorted lists are an instance), \<open>common_spec\<close>,
    \<open>statedb_spec\<close> and \<open>kaia_spec\<close> (the Kaia client). \<open>Reference\<close> instantiates the Kaia parameters
    by concrete functions, for the witnesses.
  \<^item> \<open>Data_Structure\<close> (\<open>multiVersionItem\<close>, \<open>valueItem\<close>): the locale \<open>multi_version_value\<close> is the contract of an
    item, an update of a map from transaction indices to versions; \<open>value_tree\<close> is the tree of versions.
    The lookups return the greatest version with their property, the writers change their own
    index only.
  \<^item> \<open>Storage_Key\<close>: the text of keys is parsed back; \<open>GetValue\<close> after \<open>SetValue\<close>. \<open>state_values\<close> is the
    abstraction of a state database that all later theories use: the value of every key.
  \<^item> \<open>Store\<close>: \<open>column\<close> abstracts the store to a map from transaction indices to their versions by key;
    each operation is an update of one column. \<open>store_inv\<close> is the invariant, \<open>store_view\<close> what a
    transaction should read. Validation is exact with respect to it; the two write-backs are
    characterised by the final version of each key.
  \<^item> \<open>Tracer\<close>: every hook; \<open>run_hooks\<close> is a run of the EVM as the tracer sees it. \<open>tracer_inv\<close> is the
    invariant, \<open>sim\<close> the simulation between tracers over stores with equal parent values.
  \<^item> \<open>Scheduler\<close>: tasks are positions in \<open>allTasks\<close>; every method is a function on the scheduler's state.
  \<^item> \<open>Rounds\<close>: the contract of \<open>deliverTx\<close> as the locale \<open>delivery\<close> (what a delivery reads and writes,
    and when it ends by waiting for itself, \<open>destroys\<close>), the invariant \<open>sane\<close> of the scheduler, and that
    every operation keeps it and does not panic.
  \<^item> \<open>Steps\<close>: the scheduler as a step relation (\<open>sched_step\<close>); what the loops do is reachable, reachable
    states satisfy the invariant, and \<open>ProcessAll\<close> returns.
  \<^item> \<open>Serializability\<close>: the sequential specification \<open>serial\<close>, and inside \<open>deterministic_delivery\<close> the
    proof that what is validated agrees with it (\<open>round_inv\<close> between the phases, \<open>pass_inv\<close> inside a
    validation pass). \<open>processLoop_rounds\<close> is the induction over the passes of the loop.
  \<^item> \<open>Chain\<close>: the blockchain as a record of functions; the constants; \<open>Executor\<close>.
  \<^item> \<open>Processor\<close>: \<open>deliverTx\<close> and \<open>Execute\<close>. The locales \<open>evm\<close> and \<open>deterministic_evm\<close> state what is
    relied on of \<open>ApplyTransaction\<close>; by sublocale they give the scheduler's contract for the
    program's own \<open>deliverTx\<close>.
  \<^item> \<open>Outcomes\<close>: the scheduler's operations branch by branch: deliveries, validations, executions and the
    synchronous mode, with the runs of the concrete chain that the witnesses use.
  \<^item> \<open>Sequential\<close>: the executor of \<open>chain.go\<close> over a block; the locale \<open>traced_chain\<close> says that the tracer sees
    what a transaction changes, and gives the agreement of the executor with \<open>serial\<close>.
  \<^item> \<open>Liveness\<close>: blocks without conflicts are validated in one round; transactions that selfdestruct are
    never completed.
  \<^item> \<open>Workers\<close>: the worker pools, for any jobs that run in pieces: the channel, the workers (\<open>pool_step\<close>),
    that a pool refines the free interleaving of the jobs (\<open>run_step\<close>), and the locale \<open>job_system\<close>, in
    which a pool never deadlocks and always comes to an end.
  \<^item> \<open>Hook_Steps\<close>: the hooks of the tracer in parts that look into the store at most once (\<open>tracerOp\<close>);
    over one store the parts are the hook.
  \<^item> \<open>Publication\<close>: the publication of a write set as single accesses to the store (\<open>storeOp\<close>); over one
    store, from first to last, they are \<open>SetReadset\<close> with \<open>SetWriteset\<close> or \<open>SetEstimatedWriteset\<close>, and each
    changes only the versions and records of its own transaction (\<open>row\<close>).
  \<^item> \<open>Exec_Phase\<close>: a task of \<open>executeAll\<close> up to its end: the start, the hooks and their parts; \<open>phase_inv\<close>
    keeps the invariant of the rounds under every interleaving.
  \<^item> \<open>Exec_Jobs\<close>: the whole closures of \<open>executeAll\<close>, with the publication in single accesses. \<open>exec_inv\<close>
    relates the store to the one in which the publications that have begun are complete; a
    closure without interruption is \<open>runTask\<close>.
  \<^item> \<open>Valid_Phase\<close>: the closures of \<open>validateAll\<close> in pieces: the reads that make up the verdict, the
    estimates of the withdrawal, the look at the dependencies, the reset; \<open>valid_inv\<close> is the invariant
    of a pass in which verdicts may be outdated, or made up of reads of different ages.
  \<^item> \<open>Interleaving\<close>: the passes of \<open>ProcessAll\<close> over the pools (\<open>pool_round\<close>). The pools come to an end,
    the passes keep the invariant of the rounds, and the loop of \<open>Scheduler\<close> is one of their runs.
  \<^item> \<open>Storage\<close>: the set-up of the genesis and of the accounts before a block, and the journal of a state, as far
    as reflection finds it.
  \<^item> This theory: the properties of whole blocks, and runs of the program on a concrete chain.

  \<^bold>\<open>Concurrency.\<close> The tasks of a round are carried out by worker goroutines. \<open>Scheduler\<close> runs each
  submitted closure as one step, in an order given by a \<open>schedule\<close>; its theorems hold for every
  schedule that permutes the tasks. \<open>Interleaving\<close> has the pools of workers with their channels and cuts
  the closures into pieces that the workers mix, so that every access to the multi-version store is a
  step of its own: a look of a hook, a version that is written or removed, a key that a validation
  compares, an estimate that a withdrawal sets. A lookup of one key (\<open>sync.Map.Load\<close>, then a method
  of the item under its lock) is one step, since items are never taken out of the map. A transaction
  reads the parent state, which does not change while a round executes or validates (apart from its
  transaction context); what an interleaving changes is which versions an estimate check sees, and how
  old the parts of a verdict are when it is acted on. The workers' end, when \<open>ProcessAll\<close> cancels
  their context, is left out: both pools are idle by then.

  \<^bold>\<open>Bounds.\<close> No fuel is used. The main loop ends because \<open>maximumIterations\<close> is 10
  (\<open>processLoop\<close> has the remaining iterations as its measure); every other loop is structural. Gas,
  nonces, hashes and the arithmetic of \<open>getData\<close> are words of their width; \<open>maxIncarnation\<close> is a
  32-bit word; \<open>big.Int\<close> is an integer; \<open>int\<close> for transaction indices and incarnations is unbounded.

  \<^bold>\<open>Not modelled.\<close> The EVM, the state database and the blockchain of the Kaia client, and the B-tree
  package are parameters, and so are the constructors that \<open>chain.go\<close> wires together and the files that
  \<open>storage.go\<close> reads with their JSON decoder. The layout of \<open>StateDB\<close> that \<open>GetJournal\<close> relies on is a
  parameter too. \<open>contracts/test.go\<close> is generated. Locks and atomics appear as the atomicity of the steps
  they guard; the unsynchronised writes to fields of a task that only its own closure touches are
  part of the pieces of that closure, and so is the update of \<open>maxIncarnation\<close>, which nothing in a pass
  reads. Logging is left out.

  \<^bold>\<open>Open.\<close> How many rounds a block with conflicts takes, beyond the bound and the blocks that starve.
\<close>

section \<open>Concrete blocks\<close>

definition in_order :: schedule where
  "in_order = \<lparr>exec_order = (\<lambda>_ is. is), valid_order = (\<lambda>_ is. is)\<rparr>"

text \<open>What is observed of a run: the receipts, whether it fell back, and four slots of the final state.\<close>

definition observe ::
  "go_panic + (hash, unit) Response option list \<times> (ref_state, 't, ref_msg, hash, unit) scheduler \<Rightarrow>
   go_panic + hash option list \<times> bool \<times> hash list" where
  "observe r = map_sum id (\<lambda>(resp, sc). (map (map_option resp_Receipt) resp, sc_synchronous sc,
     map (rs_storage (sc_state sc) 9) [0, 1, 2, 3])) r"

definition ref_run :: "ref_msg list \<Rightarrow> go_panic + hash option list \<times> bool \<times> hash list" where
  "ref_run txs = observe (ProcessAll map_btree ref_kaia ref_deliver in_order (entries txs) (NewScheduler empty_state 4))"

text \<open>A schedule that carries out every task of a round once.\<close>

definition fair :: "schedule \<Rightarrow> bool" where
  "fair S \<longleftrightarrow> (\<forall>r is. mset (exec_order S r is) = mset is \<and> mset (valid_order S r is) = mset is)"

lemma fair_sets:
  assumes "fair S"
  shows "set (exec_order S r is) = set is" "set (valid_order S r is) = set is"
  using assms unfolding fair_def by (metis set_mset_mset)+

lemma fair_in_order: "fair in_order"
  by (simp add: fair_def in_order_def)

section \<open>Properties\<close>


text \<open>A block of three transactions in which the later ones depend on the earlier ones.\<close>

definition chain_block :: "ref_msg list" where
  "chain_block = [ref_tx None 1 1 False, ref_tx (Some 1) 1 1 False, ref_tx (Some 1) 2 5 False]"

lemma chain_block_run: "ref_run chain_block = Inr ([Some 1, Some 2, Some 7], False, [0, 2, 7, 0])"
  by code_simp

lemma chain_block_result:
  obtains resp sc where "ProcessAll map_btree ref_kaia (deliverTx map_btree ref_kaia ref_bc () 0) in_order
      (entries chain_block) (NewScheduler empty_state 4) = Inr (resp, sc)" "\<not> sc_synchronous sc"
  using chain_block_run unfolding ref_run_def ref_deliver_def observe_def
  by (cases "ProcessAll map_btree ref_kaia (deliverTx map_btree ref_kaia ref_bc () 0) in_order
    (entries chain_block) (NewScheduler empty_state 4)") auto



lemma chain_block_length: "length chain_block = 3"
  by (simp add: chain_block_def)

lemma chain_block_pools:
  obtains l res sc where "rtranclp (pool_round map_btree ref_kaia ref_bc () 0)
      (0, [0..<3], startState empty_state 4 (entries chain_block)) (l, res, sc)" "allValidated (sc_allTasks sc)"
proof -
  obtain resp sc0 where "ProcessAll map_btree ref_kaia (deliverTx map_btree ref_kaia ref_bc () 0) in_order
      (entries chain_block) (NewScheduler empty_state 4) = Inr (resp, sc0)" "\<not> sc_synchronous sc0"
    by (rule chain_block_result)
  from refc.ProcessAll_pools [OF block_entries _ _ this] that show ?thesis
    by (auto simp: in_order_def chain_block_length)
qed



















end
